(* ===== verification/Prelude.thy ===== *)
theory Prelude
  imports Main "HOL-Library.Word"
begin

text \<open>
  Shared vocabulary of the development: machine integers and byte strings as the Rust sources
  use them, fallible results (\<open>Result<T, E>\<close> as the sum type \<open>'e + 'a\<close>, the error on
  the left), the \<open>?\<close> operator, fixed-width integer encodings in both byte orders, checked
  arithmetic, and the generic list and word lemmas the component theories rest on.
\<close>

unbundle bit_operations_syntax

named_theorems result_simps \<open>unfolding of the fallible-result combinators\<close>
named_theorems codec_simps \<open>round-trip rewrite rules of the byte codecs\<close>

section \<open>Types\<close>

type_synonym byte = "8 word"
type_synonym bytes = "byte list"
type_synonym u8 = "8 word"
type_synonym u16 = "16 word"
type_synonym u32 = "32 word"
type_synonym u64 = "64 word"
type_synonym u256 = "256 word"
type_synonym b256 = "256 word"
type_synonym address = "160 word"

section \<open>Fallible results\<close>

definition and_then :: "'e + 'a \<Rightarrow> ('a \<Rightarrow> 'e + 'b) \<Rightarrow> 'e + 'b" where
  "and_then r f = (case r of Inl e \<Rightarrow> Inl e | Inr a \<Rightarrow> f a)"

definition map_err :: "('e \<Rightarrow> 'f) \<Rightarrow> 'e + 'a \<Rightarrow> 'f + 'a" where
  "map_err g r = (case r of Inl e \<Rightarrow> Inl (g e) | Inr a \<Rightarrow> Inr a)"

fun map_result :: "('a \<Rightarrow> 'e + 'b) \<Rightarrow> 'a list \<Rightarrow> 'e + 'b list" where
  "map_result f [] = Inr []"
| "map_result f (x # xs) =
     and_then (f x) (\<lambda>y. and_then (map_result f xs) (\<lambda>ys. Inr (y # ys)))"

definition ok_or :: "'e \<Rightarrow> 'a option \<Rightarrow> 'e + 'a" where
  "ok_or e x = (case x of None \<Rightarrow> Inl e | Some a \<Rightarrow> Inr a)"

definition is_ok :: "'e + 'a \<Rightarrow> bool" where
  "is_ok r = (case r of Inl _ \<Rightarrow> False | Inr _ \<Rightarrow> True)"

lemma and_then_Inr [simp, result_simps]: "and_then (Inr a) f = f a"
  by (simp add: and_then_def)

lemma and_then_Inl [simp, result_simps]: "and_then (Inl e) f = Inl e"
  by (simp add: and_then_def)

lemma and_then_eq_Inr [result_simps]:
  "and_then r f = Inr b \<longleftrightarrow> (\<exists>a. r = Inr a \<and> f a = Inr b)"
  by (cases r) auto

lemma and_then_eq_Inl [result_simps]:
  "and_then r f = Inl e \<longleftrightarrow> r = Inl e \<or> (\<exists>a. r = Inr a \<and> f a = Inl e)"
  by (cases r) auto

lemma and_then_assoc: "and_then (and_then r f) g = and_then r (\<lambda>a. and_then (f a) g)"
  by (cases r) auto

lemma and_then_cong [fundef_cong]:
  "r = r' \<Longrightarrow> (\<And>a. r' = Inr a \<Longrightarrow> f a = f' a) \<Longrightarrow> and_then r f = and_then r' f'"
  by (cases r') auto

lemma if_Inl_eq_Inr [result_simps]: "(if P then Inl e else r) = Inr x \<longleftrightarrow> \<not> P \<and> r = Inr x"
  by simp

lemma and_thenE:
  assumes "and_then r f = Inr b"
  obtains a where "r = Inr a" "f a = Inr b"
  using assms by (auto simp: and_then_eq_Inr)

lemma map_err_simps [simp, result_simps]:
  "map_err g (Inl e) = Inl (g e)" "map_err g (Inr a) = Inr a"
  by (simp_all add: map_err_def)

lemma map_err_eq_Inr [simp]: "map_err g r = Inr a \<longleftrightarrow> r = Inr a"
  by (cases r) auto

lemma ok_or_simps [simp, result_simps]: "ok_or e None = Inl e" "ok_or e (Some a) = Inr a"
  by (simp_all add: ok_or_def)

lemma ok_or_eq_Inr [simp]: "ok_or e x = Inr a \<longleftrightarrow> x = Some a"
  by (cases x) auto

lemma is_ok_simps [simp]: "\<not> is_ok (Inl e)" "is_ok (Inr a)"
  by (simp_all add: is_ok_def)

lemma is_ok_iff: "is_ok r \<longleftrightarrow> (\<exists>a. r = Inr a)"
  by (cases r) auto

lemma map_result_length: "map_result f xs = Inr ys \<Longrightarrow> length ys = length xs"
  by (induction xs arbitrary: ys) (auto simp: and_then_eq_Inr)

lemma map_result_Inr_iff:
  "map_result f xs = Inr ys \<longleftrightarrow> list_all2 (\<lambda>x y. f x = Inr y) xs ys"
  by (induction xs arbitrary: ys) (auto simp: and_then_eq_Inr list_all2_Cons1)

lemma map_result_total: "(\<And>x. x \<in> set xs \<Longrightarrow> f x = Inr (g x)) \<Longrightarrow> map_result f xs = Inr (map g xs)"
  by (induction xs) auto

lemma map_result_cong [fundef_cong]:
  "xs = ys \<Longrightarrow> (\<And>x. x \<in> set ys \<Longrightarrow> f x = g x) \<Longrightarrow> map_result f xs = map_result g ys"
proof (induction xs arbitrary: ys)
  case (Cons x xs)
  then show ?case by (cases ys) auto
qed auto

section \<open>Checked machine arithmetic\<close>

definition checked_add_word :: "'a::len word \<Rightarrow> 'a word \<Rightarrow> 'a word option" where
  "checked_add_word a b = (if unat a + unat b < 2 ^ LENGTH('a) then Some (a + b) else None)"

definition checked_sub_word :: "'a::len word \<Rightarrow> 'a word \<Rightarrow> 'a word option" where
  "checked_sub_word a b = (if b \<le> a then Some (a - b) else None)"

definition saturating_add_word :: "'a::len word \<Rightarrow> 'a word \<Rightarrow> 'a word" where
  "saturating_add_word a b = (if unat a + unat b < 2 ^ LENGTH('a) then a + b else - 1)"

definition saturating_sub_word :: "'a::len word \<Rightarrow> 'a word \<Rightarrow> 'a word" where
  "saturating_sub_word a b = (if b \<le> a then a - b else 0)"

lemma of_nat_unat_id: "of_nat (unat w) = (w :: 'a::len word)"
  by (simp only: of_nat_unat ucast_id)

lemma unat_of_nat_lt: "n < 2 ^ LENGTH('a) \<Longrightarrow> unat (of_nat n :: 'a::len word) = n"
  by (simp add: unat_of_nat)

lemma unat_lt_len: "unat (w :: 'a::len word) < 2 ^ LENGTH('a)"
  by simp

lemma checked_add_word_Some:
  fixes a b c :: "'a::len word"
  shows "checked_add_word a b = Some c \<longleftrightarrow> unat a + unat b < 2 ^ LENGTH('a) \<and> c = a + b"
  by (auto simp: checked_add_word_def)

lemma unat_add_no_overflow:
  fixes a b :: "'a::len word"
  shows "unat a + unat b < 2 ^ LENGTH('a) \<Longrightarrow> unat (a + b) = unat a + unat b"
  by (simp add: unat_word_ariths)

lemma checked_add_word_unat:
  fixes a b c :: "'a::len word"
  shows "checked_add_word a b = Some c \<Longrightarrow> unat c = unat a + unat b"
  by (auto simp: checked_add_word_Some unat_add_no_overflow)

lemma unat_saturating_add:
  fixes a b :: "'a::len word"
  shows "unat (saturating_add_word a b) = min (unat a + unat b) (2 ^ LENGTH('a) - 1)"
proof (cases "unat a + unat b < 2 ^ LENGTH('a)")
  case True
  then have "unat a + unat b \<le> 2 ^ LENGTH('a) - 1" by linarith
  with True show ?thesis by (simp add: saturating_add_word_def unat_add_no_overflow min_def)
next
  case False
  moreover have "0 < (2 :: nat) ^ LENGTH('a)" by simp
  ultimately have "\<not> unat a + unat b \<le> 2 ^ LENGTH('a) - 1" by linarith
  with False show ?thesis
    by (simp add: saturating_add_word_def min_def unsigned_minus_1_eq_mask mask_eq_exp_minus_1)
qed

lemma unat_saturating_sub:
  fixes a b :: "'a::len word"
  shows "unat (saturating_sub_word a b) = unat a - unat b"
  by (auto simp: saturating_sub_word_def word_le_nat_alt unat_sub)

section \<open>Fixed-width integers as bytes\<close>

fun le_bytes :: "nat \<Rightarrow> 'a::len word \<Rightarrow> bytes" where
  "le_bytes 0 w = []"
| "le_bytes (Suc n) w = ucast w # le_bytes n (drop_bit 8 w)"

fun of_le_bytes :: "bytes \<Rightarrow> 'a::len word" where
  "of_le_bytes [] = 0"
| "of_le_bytes (b # bs) = ucast b OR push_bit 8 (of_le_bytes bs)"

definition be_bytes :: "nat \<Rightarrow> 'a::len word \<Rightarrow> bytes" where
  "be_bytes n w = rev (le_bytes n w)"

definition of_be_bytes :: "bytes \<Rightarrow> 'a::len word" where
  "of_be_bytes bs = of_le_bytes (rev bs)"

lemma length_le_bytes [simp]: "length (le_bytes n w) = n"
  by (induction n arbitrary: w) auto

lemma length_be_bytes [simp]: "length (be_bytes n w) = n"
  by (simp add: be_bytes_def)

lemma of_le_bytes_le_bytes_take:
  fixes w :: "'a::len word"
  shows "of_le_bytes (le_bytes n w) = take_bit (8 * n) w"
proof (induction n arbitrary: w)
  case (Suc n)
  show ?case
    by (rule bit_word_eqI)
      (auto simp: Suc bit_or_iff bit_push_bit_iff bit_take_bit_iff bit_drop_bit_eq bit_ucast_iff)
qed simp

lemma of_le_bytes_le_bytes [codec_simps]:
  fixes w :: "'a::len word"
  shows "LENGTH('a) \<le> 8 * n \<Longrightarrow> of_le_bytes (le_bytes n w) = w"
  by (simp add: of_le_bytes_le_bytes_take take_bit_word_eq_self)

lemma of_be_bytes_be_bytes [codec_simps]:
  fixes w :: "'a::len word"
  shows "LENGTH('a) \<le> 8 * n \<Longrightarrow> of_be_bytes (be_bytes n w) = w"
  by (simp add: be_bytes_def of_be_bytes_def of_le_bytes_le_bytes)

lemma take_bit_of_le_bytes:
  "take_bit (8 * length bs) (of_le_bytes bs :: 'a::len word) = of_le_bytes bs"
proof (induction bs)
  case (Cons b bs)
  have hi: "bit (of_le_bytes bs :: 'a word) k \<Longrightarrow> k < 8 * length bs" for k
    using Cons by (metis bit_take_bit_iff)
  have hi8: "n < 8 + 8 * length bs" if "bit (of_le_bytes bs :: 'a word) (n - 8)" for n
    using hi[OF that] by linarith
  show ?case
    by (intro bit_word_eqI)
      (auto simp: bit_or_iff bit_push_bit_iff bit_take_bit_iff bit_ucast_iff hi8
        dest: bit_imp_le_length)
qed simp

lemma le_bytes_of_le_bytes [codec_simps]:
  "8 * length bs \<le> LENGTH('a) \<Longrightarrow> le_bytes (length bs) (of_le_bytes bs :: 'a::len word) = bs"
proof (induction bs)
  case (Cons b bs)
  let ?x = "of_le_bytes bs :: 'a word"
  have hi: "bit ?x k \<Longrightarrow> k < 8 * length bs" for k
    using take_bit_of_le_bytes[of bs] by (metis bit_take_bit_iff)
  have "ucast (ucast b OR push_bit 8 ?x) = b"
    using Cons.prems by (intro bit_word_eqI) (auto simp: bit_or_iff bit_push_bit_iff bit_ucast_iff)
  moreover have "drop_bit 8 (ucast b OR push_bit 8 ?x) = ?x"
    using Cons.prems hi
    by (intro bit_word_eqI)
      (fastforce simp: bit_or_iff bit_push_bit_iff bit_ucast_iff bit_drop_bit_eq
        dest: bit_imp_le_length)
  ultimately show ?case using Cons by simp
qed simp

lemma be_bytes_of_be_bytes [codec_simps]:
  "8 * length bs \<le> LENGTH('a) \<Longrightarrow> be_bytes (length bs) (of_be_bytes bs :: 'a::len word) = bs"
  using le_bytes_of_le_bytes[of "rev bs", where 'a = 'a]
  by (simp add: be_bytes_def of_be_bytes_def)

lemma be_bytes_inject:
  fixes v w :: "'a::len word"
  shows "LENGTH('a) \<le> 8 * n \<Longrightarrow> be_bytes n v = be_bytes n w \<longleftrightarrow> v = w"
  by (metis of_be_bytes_be_bytes)

lemma le_bytes_inject:
  fixes v w :: "'a::len word"
  shows "LENGTH('a) \<le> 8 * n \<Longrightarrow> le_bytes n v = le_bytes n w \<longleftrightarrow> v = w"
  by (metis of_le_bytes_le_bytes)

text \<open>A slice of the bytes is a shifted and narrowed word.\<close>

lemma drop_le_bytes: "drop j (le_bytes n w) = le_bytes (n - j) (drop_bit (8 * j) w)"
proof (induction j arbitrary: n w)
  case (Suc j)
  then show ?case by (cases n) (simp_all add: add.commute)
qed simp

lemma take_le_bytes: "k \<le> n \<Longrightarrow> take k (le_bytes n w) = le_bytes k w"
proof (induction k arbitrary: n w)
  case (Suc k)
  then show ?case by (cases n) simp_all
qed simp

lemma of_le_bytes_ucast:
  fixes w :: "'a::len word"
  shows "of_le_bytes (le_bytes n w) = (ucast (take_bit (8 * n) w) :: 'b::len word)"
proof (induction n arbitrary: w)
  case (Suc n)
  show ?case
    by (rule bit_word_eqI)
      (auto simp: Suc bit_or_iff bit_push_bit_iff bit_take_bit_iff bit_drop_bit_eq bit_ucast_iff
        dest: bit_imp_le_length)
qed simp

lemma of_be_bytes_slice:
  fixes w :: "'a::len word"
  assumes "j + k \<le> n" "LENGTH('b) \<le> 8 * k"
  shows "of_be_bytes (take k (drop j (be_bytes n w))) = (ucast (drop_bit (8 * (n - j - k)) w) :: 'b::len word)"
proof -
  have "rev (take k (drop j (be_bytes n w))) = take k (drop (n - j - k) (le_bytes n w))"
    using assms(1) by (simp add: be_bytes_def drop_rev take_rev drop_take)
  also have "\<dots> = le_bytes k (drop_bit (8 * (n - j - k)) w)"
    using assms(1) by (simp add: drop_le_bytes take_le_bytes)
  finally have "of_be_bytes (take k (drop j (be_bytes n w)))
      = (ucast (take_bit (8 * k) (drop_bit (8 * (n - j - k)) w)) :: 'b word)"
    by (simp add: of_be_bytes_def of_le_bytes_ucast)
  also have "\<dots> = ucast (drop_bit (8 * (n - j - k)) w)"
    using assms(2) by (intro bit_word_eqI) (auto simp: bit_ucast_iff bit_take_bit_iff)
  finally show ?thesis .
qed

section \<open>Bit groups\<close>

lemma word_or_disjoint: "a AND b = 0 \<Longrightarrow> a OR b = a + (b :: 'a::len word)"
  using word_plus_and_or[of a b] by simp

lemma not_bit_above:
  fixes v :: "'a::len word"
  assumes "unat v < 2 ^ n" "n \<le> k"
  shows "\<not> bit v k"
proof
  assume "bit v k"
  then have "bit (unat v) k" by (simp add: bit_unsigned_iff bit_imp_le_length)
  moreover have "unat v < 2 ^ k"
    using assms(1) power_increasing[OF assms(2), of "2::nat"] by linarith
  ultimately show False by (simp add: bit_iff_odd)
qed

lemma unat_push_bit_exact:
  fixes g :: "'a::len word"
  assumes "unat g * 2 ^ n < 2 ^ LENGTH('a)"
  shows "unat (push_bit n g) = unat g * 2 ^ n"
  using assms by (simp only: unsigned_push_bit_eq) (simp add: push_bit_eq_mult take_bit_nat_eq_self)

lemma unat_or_push_bit:
  fixes v g :: "'a::len word"
  assumes "unat v < 2 ^ n" "unat v + unat g * 2 ^ n < 2 ^ LENGTH('a)"
  shows "unat (v OR push_bit n g) = unat v + unat g * 2 ^ n"
proof -
  have "v AND push_bit n g = 0"
    using not_bit_above[OF assms(1)]
    by (intro bit_word_eqI) (auto simp: bit_and_iff bit_push_bit_iff)
  then have "v OR push_bit n g = v + push_bit n g"
    by (rule word_or_disjoint)
  moreover have "unat (push_bit n g) = unat g * 2 ^ n"
    using assms(2) by (intro unat_push_bit_exact) linarith
  ultimately show ?thesis using assms(2) by (simp add: unat_add_no_overflow)
qed

lemma byte_low7: "unat (b AND 0x7f :: byte) = unat b mod 128"
proof -
  have "b AND 0x7f = take_bit 7 b"
    by (simp only: take_bit_eq_mask mask_eq_exp_minus_1) simp
  then show ?thesis
    by (simp only: unsigned_take_bit_eq) (simp add: take_bit_eq_mod)
qed

lemma byte_cont_clear: "(b AND 0x80 :: byte) = 0 \<longleftrightarrow> unat b < 128"
proof -
  have "(b AND 0x80 = 0) = (\<not> bit b 7)"
    using and_exp_eq_0_iff_not_bit[of b 7] by simp
  also have "\<dots> = (\<not> bit (unat b) 7)" by (simp add: bit_unsigned_iff)
  also have "\<dots> = (unat b < 128)"
  proof -
    have "unat b div 128 < 2" using unsigned_less[of b, where 'a = nat] by simp
    then have "odd (unat b div 128) \<longleftrightarrow> unat b div 128 \<noteq> 0" by (auto simp: less_2_cases_iff)
    then show ?thesis by (auto simp: bit_iff_odd div_eq_0_iff)
  qed
  finally show ?thesis .
qed

lemma byte_set_cont:
  fixes w :: "'a::len word"
  assumes "8 \<le> LENGTH('a)"
  shows "(ucast w OR 0x80 :: byte) = of_nat (128 + unat w mod 128)"
proof -
  let ?l = "take_bit 7 (ucast w) :: byte"
  have "(ucast w OR 0x80 :: byte) = ?l OR push_bit 7 1"
  proof (rule bit_word_eqI)
    fix n assume "n < LENGTH(8)"
    then have "n < 7 \<or> n = 7" by auto
    moreover have "bit (0x80 :: byte) n \<longleftrightarrow> n = 7"
      using bit_exp_iff[of 7 n, where 'a = "byte"] by auto
    ultimately show "bit (ucast w OR 0x80 :: byte) n = bit (?l OR push_bit 7 1) n"
      by (auto simp: bit_or_iff bit_take_bit_iff bit_push_bit_iff bit_1_iff)
  qed
  moreover have l: "unat ?l = unat w mod 128"
    using assms by (simp only: unsigned_take_bit_eq unsigned_ucast_eq) (simp add: take_bit_eq_mod mod_mod_cancel)
  moreover have "unat (?l OR push_bit 7 1) = unat ?l + unat (1::byte) * 2 ^ 7"
    by (rule unat_or_push_bit) (simp_all add: l)
  ultimately have "unat (ucast w OR 0x80 :: byte) = 128 + unat w mod 128" by simp
  then show ?thesis by (metis of_nat_unat_id)
qed

section \<open>Lists\<close>

lemma append_eq_prefix_split:
  "length xs = length ys \<Longrightarrow> xs @ us = ys @ vs \<longleftrightarrow> xs = ys \<and> us = vs"
  by simp

lemma drop_append_exact [simp]: "drop (length xs) (xs @ ys) = ys"
  by simp

lemma sorted_wrt_less_iff_adjacent:
  fixes xs :: "'a::linorder list"
  shows "sorted_wrt (<) xs \<longleftrightarrow> (\<forall>i. Suc i < length xs \<longrightarrow> xs ! i < xs ! Suc i)"
  by (simp add: sorted_wrt_iff_nth_Suc_transp)

end
