(* ===== verification/Byte_Cursor.thy ===== *)
theory Byte_Cursor
  imports Prelude
begin

text \<open>
  The byte reader and the variable-length integers of \<^verbatim>\<open>crates/eez-payload-codec/src/lib.rs\<close>
  (\<open>Cursor\<close>, \<open>CodecError\<close>, \<open>put_uvarint32\<close>) and the second, padding-tolerant integer
  reader of \<^verbatim>\<open>container.rs\<close> (\<open>put_varint\<close>, \<open>varint\<close>). Both writers refine one
  mathematical LEB128 encoding; the strict reader accepts exactly its image. The locales at the
  end state what a field codec promises to the record codecs built from it.
\<close>

section \<open>Errors\<close>

datatype codec_error =
    Empty
  | UnsupportedVersion u8
  | Truncated string
  | NonCanonicalVarint string
  | EmptySpan
  | ImplausibleCount string u64 u64
  | RunCoverage string
  | NonMaximalRun string
  | ExtraDataTooLong u8
  | EmptyTransaction nat
  | TxByteMismatch u64 u64
  | TrailingBytes nat
  | ValueTooLong nat
  | NonMinimalValue
  | UnexpectedMessage u8
  | UnknownMessage u8
  | NonEmptyTransactionData
  | InvalidTargetRollup u64 u64
  | ActionAfterFailure
  | ValueTooLarge string u64

type_synonym 'a codec_result = "codec_error + 'a"

section \<open>The cursor\<close>

record cursor =
  cur_body :: bytes
  cur_at :: nat

definition cursor_new :: "bytes \<Rightarrow> cursor" where
  "cursor_new b = \<lparr>cur_body = b, cur_at = 0\<rparr>"

definition remaining :: "cursor \<Rightarrow> nat" where
  "remaining c = length (cur_body c) - cur_at c"

text \<open>\<open>usize\<close> is 64 bits wide; \<open>checked_add\<close> fails when the end position leaves it.\<close>

definition cursor_take :: "string \<Rightarrow> nat \<Rightarrow> cursor \<Rightarrow> (bytes \<times> cursor) codec_result" where
  "cursor_take what len c =
     (let end = cur_at c + len in
      if end \<ge> 2 ^ 64 then Inl (Truncated what)
      else if end > length (cur_body c) then Inl (Truncated what)
      else Inr (take len (drop (cur_at c) (cur_body c)), c\<lparr>cur_at := end\<rparr>))"

definition take_array :: "nat \<Rightarrow> string \<Rightarrow> cursor \<Rightarrow> (bytes \<times> cursor) codec_result" where
  "take_array n what c = cursor_take what n c"

definition cursor_byte :: "string \<Rightarrow> cursor \<Rightarrow> (byte \<times> cursor) codec_result" where
  "cursor_byte what c = and_then (cursor_take what 1 c) (\<lambda>(bs, c'). Inr (bs ! 0, c'))"

definition check_plausible :: "string \<Rightarrow> u64 \<Rightarrow> u64 \<Rightarrow> cursor \<Rightarrow> unit codec_result" where
  "check_plausible what v per_element c =
     (let rem = (of_nat (remaining c) :: u64) in
      if v > rem div per_element then Inl (ImplausibleCount what v rem) else Inr ())"

text \<open>
  The invariant of every cursor the decoders hold: the position stays inside a body that a
  64-bit address space can hold. \<open>rest\<close> is the unread suffix, the abstraction the laws are
  stated over.
\<close>

definition wf_cursor :: "cursor \<Rightarrow> bool" where
  "wf_cursor c \<longleftrightarrow> cur_at c \<le> length (cur_body c) \<and> length (cur_body c) < 2 ^ 64"

definition rest :: "cursor \<Rightarrow> bytes" where
  "rest c = drop (cur_at c) (cur_body c)"

definition advance :: "nat \<Rightarrow> cursor \<Rightarrow> cursor" where
  "advance n c = c\<lparr>cur_at := cur_at c + n\<rparr>"

lemma length_rest: "length (rest c) = remaining c"
  by (simp add: rest_def remaining_def)

lemma rest_new [simp]: "rest (cursor_new b) = b"
  by (simp add: rest_def cursor_new_def)

lemma remaining_new [simp]: "remaining (cursor_new b) = length b"
  by (simp add: remaining_def cursor_new_def)

lemma wf_new [simp]: "wf_cursor (cursor_new b) \<longleftrightarrow> length b < 2 ^ 64"
  by (simp add: wf_cursor_def cursor_new_def)

lemma advance_0 [simp]: "advance 0 c = c"
  by (simp add: advance_def)

lemma advance_advance [simp]: "advance m (advance n c) = advance (n + m) c"
  by (simp add: advance_def add.assoc)

lemma rest_advance: "rest (advance n c) = drop n (rest c)"
  by (simp add: rest_def advance_def add.commute)

lemma rest_advance_append: "rest c = xs @ ys \<Longrightarrow> n = length xs \<Longrightarrow> rest (advance n c) = ys"
  by (simp add: rest_advance)

lemma wf_advance: "wf_cursor c \<Longrightarrow> n \<le> remaining c \<Longrightarrow> wf_cursor (advance n c)"
  by (auto simp: wf_cursor_def advance_def remaining_def)

lemma wf_advance_append: "wf_cursor c \<Longrightarrow> rest c = xs @ ys \<Longrightarrow> n = length xs \<Longrightarrow> wf_cursor (advance n c)"
  by (rule wf_advance) (simp_all add: length_rest[symmetric])

lemma remaining_lt: "wf_cursor c \<Longrightarrow> remaining c < 2 ^ 64"
  by (auto simp: wf_cursor_def remaining_def)

lemma cursor_take_eq:
  assumes "wf_cursor c"
  shows "cursor_take what n c =
    (if n \<le> length (rest c) then Inr (take n (rest c), advance n c) else Inl (Truncated what))"
  using assms
  by (auto simp: cursor_take_def wf_cursor_def rest_def advance_def Let_def)

lemma cursor_take_Inr:
  assumes "wf_cursor c" "cursor_take what n c = Inr (bs, c')"
  shows "length bs = n" "rest c = bs @ rest c'" "c' = advance n c" "wf_cursor c'"
proof -
  from assms have n: "n \<le> length (rest c)" and bs: "bs = take n (rest c)" and c': "c' = advance n c"
    by (auto simp: cursor_take_eq split: if_splits)
  show "length bs = n" "rest c = bs @ rest c'" "c' = advance n c"
    using n bs c' by (simp_all add: rest_advance)
  show "wf_cursor c'" unfolding c' using assms(1) n by (intro wf_advance) (simp_all add: length_rest)
qed

lemma cursor_take_append [codec_simps]:
  assumes "wf_cursor c" "rest c = bs @ r" "length bs = n"
  shows "cursor_take what n c = Inr (bs, advance n c)"
  using assms by (auto simp: cursor_take_eq)

lemma cursor_byte_Cons [codec_simps]:
  assumes "wf_cursor c" "rest c = b # r"
  shows "cursor_byte what c = Inr (b, advance 1 c)"
  using assms cursor_take_append[of c "[b]" r 1 what] by (simp add: cursor_byte_def)

lemma cursor_byte_Nil:
  assumes "wf_cursor c" "rest c = []"
  shows "cursor_byte what c = Inl (Truncated what)"
  using assms by (simp add: cursor_byte_def cursor_take_eq)

lemma cursor_byte_Inr:
  assumes "wf_cursor c" "cursor_byte what c = Inr (b, c')"
  shows "rest c = b # rest c'" "c' = advance 1 c" "wf_cursor c'"
proof -
  from assms(2) obtain bs where t: "cursor_take what 1 c = Inr (bs, c')" and b: "b = bs ! 0"
    by (auto simp: cursor_byte_def and_then_eq_Inr)
  note p = cursor_take_Inr[OF assms(1) t]
  from p(1) b have "bs = [b]" by (cases bs) auto
  with p show "rest c = b # rest c'" "c' = advance 1 c" "wf_cursor c'" by simp_all
qed

lemma check_plausible_iff:
  assumes "wf_cursor c" "0 < unat k"
  shows "check_plausible what v k c = Inr () \<longleftrightarrow> unat v * unat k \<le> remaining c"
proof -
  have "unat (of_nat (remaining c) div k) = remaining c div unat k"
    using remaining_lt[OF assms(1)] by (simp add: unat_div unat_of_nat_lt)
  then have "of_nat (remaining c) div k < v \<longleftrightarrow> remaining c div unat k < unat v"
    by (simp only: word_less_nat_alt)
  then show ?thesis
    using less_eq_div_iff_mult_less_eq[OF assms(2), of "unat v" "remaining c"]
    by (auto simp: check_plausible_def Let_def)
qed

section \<open>Variable-length integers\<close>

definition max_uvarint32_bytes :: nat where
  "max_uvarint32_bytes = 5"

lemma unat_drop7: "unat (drop_bit 7 (v :: 'a::len word)) = unat v div 128"
  by (simp only: unsigned_drop_bit_eq) (simp add: drop_bit_eq_div take_bit_nat_eq_self)

lemma unat_ge_0x80:
  fixes v :: "'a::len word"
  assumes "8 \<le> LENGTH('a)"
  shows "0x80 \<le> v \<longleftrightarrow> 128 \<le> unat v"
proof -
  have "(2::nat) ^ 8 \<le> 2 ^ LENGTH('a)" using assms by (rule power_increasing) simp
  then have "unat (0x80 :: 'a word) = 128"
    by (subst unat_numeral) (simp_all add: take_bit_nat_eq_self)
  then show ?thesis by (simp only: word_le_nat_alt)
qed

lemma unat_drop7_less: "0x80 \<le> (v :: 'a::len word) \<Longrightarrow> 8 \<le> LENGTH('a) \<Longrightarrow> unat (drop_bit 7 v) < unat v"
  by (simp only: unat_drop7 unat_ge_0x80 div_less_dividend)

text \<open>The two writers: seven bits a byte, least significant group first.\<close>

function put_uvarint32 :: "bytes \<Rightarrow> u32 \<Rightarrow> bytes" where
  "put_uvarint32 out v =
     (if v \<ge> 0x80 then put_uvarint32 (out @ [ucast v OR 0x80]) (drop_bit 7 v)
      else out @ [ucast v])"
  by pat_completeness auto
termination
  by (relation "measure (\<lambda>(out, v). unat v)") (auto intro: unat_drop7_less)

function put_varint :: "bytes \<Rightarrow> u64 \<Rightarrow> bytes" where
  "put_varint out v =
     (if v \<ge> 0x80 then put_varint (out @ [ucast v OR 0x80]) (drop_bit 7 v)
      else out @ [ucast v])"
  by pat_completeness auto
termination
  by (relation "measure (\<lambda>(out, v). unat v)") (auto intro: unat_drop7_less)

declare put_uvarint32.simps [simp del] put_varint.simps [simp del]

text \<open>
  The two readers are loops over at most five bytes; \<open>i\<close> is the loop counter and \<open>acc\<close>
  the accumulated value. They differ in one rule: the span's reader rejects a multi-byte encoding
  whose last group is zero, the stream's reader accepts it.
\<close>

function uvarint32_loop :: "string \<Rightarrow> nat \<Rightarrow> u64 \<Rightarrow> cursor \<Rightarrow> (u32 \<times> cursor) codec_result" where
  "uvarint32_loop what i acc c =
     (if i < max_uvarint32_bytes then
        and_then (cursor_byte what c) (\<lambda>(byte, c').
          let group = (ucast (byte AND 0x7f) :: u64) in
          if i = max_uvarint32_bytes - 1 \<and> group > 0x0f then Inl (NonCanonicalVarint what)
          else let acc' = acc OR push_bit (7 * i) group in
            if byte AND 0x80 = 0 then
              if i > 0 \<and> group = 0 then Inl (NonCanonicalVarint what)
              else if unat acc' < 2 ^ 32 then Inr (ucast acc', c')
              else Inl (NonCanonicalVarint what)
            else uvarint32_loop what (Suc i) acc' c')
      else Inl (NonCanonicalVarint what))"
  by pat_completeness auto
termination
  by (relation "measure (\<lambda>(what, i, acc, c). max_uvarint32_bytes - i)") auto

definition uvarint32 :: "string \<Rightarrow> cursor \<Rightarrow> (u32 \<times> cursor) codec_result" where
  "uvarint32 what c = uvarint32_loop what 0 0 c"

function varint_loop :: "string \<Rightarrow> nat \<Rightarrow> u64 \<Rightarrow> cursor \<Rightarrow> (u32 \<times> cursor) codec_result" where
  "varint_loop what i acc c =
     (if i < max_uvarint32_bytes then
        and_then (cursor_byte what c) (\<lambda>(byte, c').
          let group = (ucast (byte AND 0x7f) :: u64) in
          if i = max_uvarint32_bytes - 1 \<and> group > 0x0f then Inl (NonCanonicalVarint what)
          else let acc' = acc OR push_bit (7 * i) group in
            if byte AND 0x80 = 0 then
              if unat acc' < 2 ^ 32 then Inr (ucast acc', c')
              else Inl (NonCanonicalVarint what)
            else varint_loop what (Suc i) acc' c')
      else Inl (NonCanonicalVarint what))"
  by pat_completeness auto
termination
  by (relation "measure (\<lambda>(what, i, acc, c). max_uvarint32_bytes - i)") auto

definition varint :: "string \<Rightarrow> cursor \<Rightarrow> (u32 \<times> cursor) codec_result" where
  "varint what c = varint_loop what 0 0 c"

declare uvarint32_loop.simps [simp del] varint_loop.simps [simp del]

subsection \<open>The writers refine LEB128\<close>

fun leb128 :: "nat \<Rightarrow> bytes" where
  "leb128 n = (if n < 128 then [of_nat n] else of_nat (128 + n mod 128) # leb128 (n div 128))"

declare leb128.simps [simp del]

lemma leb128_small: "n < 128 \<Longrightarrow> leb128 n = [of_nat n]"
  by (simp add: leb128.simps)

lemma leb128_big: "128 \<le> n \<Longrightarrow> leb128 n = of_nat (128 + n mod 128) # leb128 (n div 128)"
  by (simp add: leb128.simps[of n])

lemma leb128_not_Nil [simp]: "leb128 n \<noteq> []"
  by (subst leb128.simps) simp

lemma ucast_byte_small:
  fixes v :: "'a::len word"
  shows "unat v < 128 \<Longrightarrow> (ucast v :: byte) = of_nat (unat v)"
  by (simp only: of_nat_unat)

lemma put_uvarint32_leb128: "put_uvarint32 out v = out @ leb128 (unat v)"
proof (induction out v rule: put_uvarint32.induct)
  case (1 out v)
  show ?case
  proof (cases "v \<ge> 0x80")
    case True
    then have big: "128 \<le> unat v" by (simp add: unat_ge_0x80)
    have "put_uvarint32 out v = (out @ [ucast v OR 0x80]) @ leb128 (unat v div 128)"
      using 1[OF True] True by (simp only: put_uvarint32.simps[of out v] unat_drop7 if_True)
    then show ?thesis
      using big by (simp add: leb128_big byte_set_cont)
  next
    case False
    then have "unat v < 128" by (simp add: unat_ge_0x80)
    with False show ?thesis
      by (simp only: put_uvarint32.simps[of out v] leb128_small ucast_byte_small if_False)
  qed
qed

lemma put_varint_leb128: "put_varint out v = out @ leb128 (unat v)"
proof (induction out v rule: put_varint.induct)
  case (1 out v)
  show ?case
  proof (cases "v \<ge> 0x80")
    case True
    then have big: "128 \<le> unat v" by (simp add: unat_ge_0x80)
    have "put_varint out v = (out @ [ucast v OR 0x80]) @ leb128 (unat v div 128)"
      using 1[OF True] True by (simp only: put_varint.simps[of out v] unat_drop7 if_True)
    then show ?thesis
      using big by (simp add: leb128_big byte_set_cont)
  next
    case False
    then have "unat v < 128" by (simp add: unat_ge_0x80)
    with False show ?thesis
      by (simp only: put_varint.simps[of out v] leb128_small ucast_byte_small if_False)
  qed
qed

subsection \<open>The readers refine a list-level decoder\<close>

text \<open>
  \<open>uv_spec strict i a bs\<close> reads one integer off the front of \<open>bs\<close>, after \<open>i\<close>
  groups worth \<open>a\<close>. \<open>strict\<close> selects the span's rule against padding.
\<close>

fun uv_spec :: "bool \<Rightarrow> nat \<Rightarrow> nat \<Rightarrow> bytes \<Rightarrow> (nat \<times> bytes) option" where
  "uv_spec strict i a [] = None"
| "uv_spec strict i a (b # bs) =
     (let g = unat b mod 128; a' = a + g * 2 ^ (7 * i) in
      if i \<ge> 5 \<or> (i = 4 \<and> g > 15) then None
      else if unat b < 128 then
        if (strict \<and> i > 0 \<and> g = 0) \<or> a' \<ge> 2 ^ 32 then None else Some (a', bs)
      else uv_spec strict (Suc i) a' bs)"

lemma unat_group: "unat (ucast (b AND 0x7f :: byte) :: u64) = unat b mod 128"
proof -
  have "unat (ucast (b AND 0x7f :: byte) :: u64) = unat (b AND 0x7f)"
    by (simp only: unsigned_ucast_eq) (simp add: take_bit_nat_eq_self byte_low7)
  then show ?thesis by (simp only: byte_low7)
qed

lemma group_bound:
  assumes "a < 2 ^ (7 * i)"
  shows "a + (g mod 128) * 2 ^ (7 * i) < (2 :: nat) ^ (7 * Suc i)"
proof -
  have "(g mod 128) * 2 ^ (7 * i) \<le> 127 * (2 :: nat) ^ (7 * i)" by (intro mult_le_mono1) simp
  then have "a + (g mod 128) * 2 ^ (7 * i) < 2 ^ (7 * i) + 127 * 2 ^ (7 * i)"
    using assms by linarith
  then show ?thesis by (simp add: power_add)
qed

lemma unat_acc_step:
  assumes "unat acc < 2 ^ (7 * i)" "i < 5"
  shows "unat (acc OR push_bit (7 * i) (ucast (b AND 0x7f :: byte)) :: u64)
    = unat acc + (unat b mod 128) * 2 ^ (7 * i)"
proof -
  have "unat acc + (unat b mod 128) * 2 ^ (7 * i) < 2 ^ (7 * Suc i)"
    using assms(1) by (rule group_bound)
  also have "\<dots> \<le> 2 ^ LENGTH(64)"
    using assms(2) by (intro power_increasing) auto
  finally show ?thesis
    using unat_or_push_bit[OF assms(1), of "ucast (b AND 0x7f)"] by (simp only: unat_group)
qed

lemma group_gt_15: "(0x0f :: u64) < ucast (b AND 0x7f :: byte) \<longleftrightarrow> 15 < unat b mod 128"
  by (simp only: word_less_nat_alt unat_group) simp

lemma group_eq_0: "(ucast (b AND 0x7f :: byte) :: u64) = 0 \<longleftrightarrow> unat b mod 128 = 0"
  by (metis unat_group unat_0 unat_eq_0)

lemma ucast_acc: "unat (v :: u64) < 2 ^ 32 \<Longrightarrow> (ucast v :: u32) = of_nat (unat v)"
  by (simp only: of_nat_unat)

definition refines_uv :: "(u32 \<times> cursor) codec_result \<Rightarrow> cursor \<Rightarrow> (nat \<times> bytes) option \<Rightarrow> bool" where
  "refines_uv res c spec = (case spec of
     Some (n, r) \<Rightarrow> res = Inr (of_nat n, advance (length (rest c) - length r) c)
   | None \<Rightarrow> \<not> is_ok res)"

lemma refines_uv_Inl: "refines_uv (Inl e) c None"
  by (simp add: refines_uv_def)

lemma refines_uv_byte: "rest c = b # bs \<Longrightarrow> refines_uv (Inr (of_nat n, advance 1 c)) c (Some (n, bs))"
  by (simp add: refines_uv_def)

lemma refines_uv_if:
  "(P \<Longrightarrow> refines_uv a c s) \<Longrightarrow> (\<not> P \<Longrightarrow> refines_uv a' c s') \<Longrightarrow>
    refines_uv (if P then a else a') c (if P then s else s')"
  by simp

lemma uv_spec_Cons:
  assumes "i < 5" "a' = a + (unat b mod 128) * 2 ^ (7 * i)"
  shows "uv_spec strict i a (b # bs) =
    (if i = 4 \<and> 15 < unat b mod 128 then None
     else if unat b < 128 then
       if (strict \<and> i > 0 \<and> unat b mod 128 = 0) \<or> a' \<ge> 2 ^ 32 then None else Some (a', bs)
     else uv_spec strict (Suc i) a' bs)"
  using assms by (simp add: Let_def)

lemma refines_uv_Cons:
  assumes "wf_cursor c" "rest c = b # bs" "refines_uv res (advance 1 c) spec"
    "\<And>n r. spec = Some (n, r) \<Longrightarrow> length r \<le> length bs"
  shows "refines_uv res c spec"
  using assms by (auto simp: refines_uv_def rest_advance Suc_diff_le split: option.splits)

lemma uv_spec_shrinks: "uv_spec s i a bs = Some (n, r) \<Longrightarrow> \<exists>p. bs = p @ r \<and> p \<noteq> [] \<and> n < 2 ^ 32"
  by (induction s i a bs rule: uv_spec.induct)
    (fastforce simp: Let_def split: if_splits)+

lemma uv_spec_length: "uv_spec s i a bs = Some (n, r) \<Longrightarrow> length r < length bs"
  by (auto dest!: uv_spec_shrinks)

lemma uvarint32_loop_Cons:
  assumes "wf_cursor c" "rest c = b # bs" "unat acc < 2 ^ (7 * i)" "i < 5"
  defines "acc' \<equiv> acc OR push_bit (7 * i) (ucast (b AND 0x7f :: byte))"
  shows "uvarint32_loop what i acc c =
    (if i = 4 \<and> 15 < unat b mod 128 then Inl (NonCanonicalVarint what)
     else if unat b < 128 then
       if (i > 0 \<and> unat b mod 128 = 0) \<or> unat acc' \<ge> 2 ^ 32 then Inl (NonCanonicalVarint what)
       else Inr (of_nat (unat acc'), advance 1 c)
     else uvarint32_loop what (Suc i) acc' (advance 1 c))"
proof -
  have "uvarint32_loop what i acc c =
    (if i = 4 \<and> 0x0f < (ucast (b AND 0x7f) :: u64) then Inl (NonCanonicalVarint what)
     else if b AND 0x80 = 0 then
       if i > 0 \<and> (ucast (b AND 0x7f) :: u64) = 0 then Inl (NonCanonicalVarint what)
       else if unat acc' < 2 ^ 32 then Inr (ucast acc', advance 1 c)
       else Inl (NonCanonicalVarint what)
     else uvarint32_loop what (Suc i) acc' (advance 1 c))"
    using assms(4)
    by (simp only: uvarint32_loop.simps[of what i acc c] cursor_byte_Cons[OF assms(1,2)]
        and_then_Inr prod.case Let_def acc'_def[symmetric] max_uvarint32_bytes_def) simp
  then show ?thesis
    using ucast_acc[of acc'] by (simp add: group_gt_15 group_eq_0 byte_cont_clear)
qed

lemma uvarint32_loop_refines:
  assumes "wf_cursor c" "unat acc < 2 ^ (7 * i)"
  shows "refines_uv (uvarint32_loop what i acc c) c (uv_spec True i (unat acc) (rest c))"
  using assms
proof (induction "rest c" arbitrary: c i acc)
  case Nil
  then show ?case
    by (simp add: uvarint32_loop.simps[of what i acc c] cursor_byte_Nil refines_uv_def)
next
  case (Cons b bs)
  note rc = Cons.hyps(2)[symmetric]
  show ?case
  proof (cases "i < 5")
    case True
    let ?acc = "acc OR push_bit (7 * i) (ucast (b AND 0x7f :: byte))"
    have acc': "unat ?acc = unat acc + (unat b mod 128) * 2 ^ (7 * i)"
      using Cons.prems(2) True by (rule unat_acc_step)
    have wf': "wf_cursor (advance 1 c)" and rc': "bs = rest (advance 1 c)"
      using Cons.prems(1) rc by (auto intro: wf_advance_append[of _ "[b]"] simp: rest_advance)
    have "refines_uv (uvarint32_loop what (Suc i) ?acc (advance 1 c)) (advance 1 c)
        (uv_spec True (Suc i) (unat ?acc) bs)"
      using Cons.hyps(1)[OF rc' wf', of ?acc "Suc i"] group_bound[OF Cons.prems(2), of "unat b"] rc'
      by (simp only: acc')
    then have "refines_uv (uvarint32_loop what (Suc i) ?acc (advance 1 c)) c
        (uv_spec True (Suc i) (unat ?acc) bs)"
      by (rule refines_uv_Cons[OF Cons.prems(1) rc]) (auto dest: uv_spec_length)
    then show ?thesis
      unfolding uvarint32_loop_Cons[OF Cons.prems(1) rc Cons.prems(2) True] rc
        uv_spec_Cons[OF True acc']
      by (simp only: simp_thms) (intro refines_uv_if refines_uv_Inl refines_uv_byte[OF rc])
  next
    case False
    then show ?thesis
      by (simp add: uvarint32_loop.simps[of what i acc c] rc refines_uv_def Let_def max_uvarint32_bytes_def)
  qed
qed

lemma varint_loop_Cons:
  assumes "wf_cursor c" "rest c = b # bs" "unat acc < 2 ^ (7 * i)" "i < 5"
  defines "acc' \<equiv> acc OR push_bit (7 * i) (ucast (b AND 0x7f :: byte))"
  shows "varint_loop what i acc c =
    (if i = 4 \<and> 15 < unat b mod 128 then Inl (NonCanonicalVarint what)
     else if unat b < 128 then
       if unat acc' \<ge> 2 ^ 32 then Inl (NonCanonicalVarint what)
       else Inr (of_nat (unat acc'), advance 1 c)
     else varint_loop what (Suc i) acc' (advance 1 c))"
proof -
  have "varint_loop what i acc c =
    (if i = 4 \<and> 0x0f < (ucast (b AND 0x7f) :: u64) then Inl (NonCanonicalVarint what)
     else if b AND 0x80 = 0 then
       if unat acc' < 2 ^ 32 then Inr (ucast acc', advance 1 c)
       else Inl (NonCanonicalVarint what)
     else varint_loop what (Suc i) acc' (advance 1 c))"
    using assms(4)
    by (simp only: varint_loop.simps[of what i acc c] cursor_byte_Cons[OF assms(1,2)]
        and_then_Inr prod.case Let_def acc'_def[symmetric] max_uvarint32_bytes_def) simp
  then show ?thesis
    using ucast_acc[of acc'] by (simp add: group_gt_15 byte_cont_clear)
qed

lemma varint_loop_refines:
  assumes "wf_cursor c" "unat acc < 2 ^ (7 * i)"
  shows "refines_uv (varint_loop what i acc c) c (uv_spec False i (unat acc) (rest c))"
  using assms
proof (induction "rest c" arbitrary: c i acc)
  case Nil
  then show ?case
    by (simp add: varint_loop.simps[of what i acc c] cursor_byte_Nil refines_uv_def)
next
  case (Cons b bs)
  note rc = Cons.hyps(2)[symmetric]
  show ?case
  proof (cases "i < 5")
    case True
    let ?acc = "acc OR push_bit (7 * i) (ucast (b AND 0x7f :: byte))"
    have acc': "unat ?acc = unat acc + (unat b mod 128) * 2 ^ (7 * i)"
      using Cons.prems(2) True by (rule unat_acc_step)
    have wf': "wf_cursor (advance 1 c)" and rc': "bs = rest (advance 1 c)"
      using Cons.prems(1) rc by (auto intro: wf_advance_append[of _ "[b]"] simp: rest_advance)
    have "refines_uv (varint_loop what (Suc i) ?acc (advance 1 c)) (advance 1 c)
        (uv_spec False (Suc i) (unat ?acc) bs)"
      using Cons.hyps(1)[OF rc' wf', of ?acc "Suc i"] group_bound[OF Cons.prems(2), of "unat b"] rc'
      by (simp only: acc')
    then have "refines_uv (varint_loop what (Suc i) ?acc (advance 1 c)) c
        (uv_spec False (Suc i) (unat ?acc) bs)"
      by (rule refines_uv_Cons[OF Cons.prems(1) rc]) (auto dest: uv_spec_length)
    then show ?thesis
      unfolding varint_loop_Cons[OF Cons.prems(1) rc Cons.prems(2) True] rc
        uv_spec_Cons[OF True acc']
      by (simp only: simp_thms) (intro refines_uv_if refines_uv_Inl refines_uv_byte[OF rc])
  next
    case False
    then show ?thesis
      by (simp add: varint_loop.simps[of what i acc c] rc refines_uv_def Let_def max_uvarint32_bytes_def)
  qed
qed

subsection \<open>Reading back what was written\<close>

lemma unat_of_nat_byte: "n < 256 \<Longrightarrow> unat (of_nat n :: byte) = n"
  by (simp add: unat_of_nat_lt)

lemma shift_bound:
  assumes "a + n * 2 ^ (7 * i) < (2 :: nat) ^ 32" "i > 0 \<longrightarrow> n > 0"
  shows "i < 5" "i = 4 \<Longrightarrow> n < 16"
proof -
  show "i < 5"
  proof (rule ccontr)
    assume "\<not> i < 5"
    then have "(2 :: nat) ^ 35 \<le> 2 ^ (7 * i)" by (intro power_increasing) auto
    moreover from \<open>\<not> i < 5\<close> assms(2) have "1 * 2 ^ (7 * i) \<le> n * (2 :: nat) ^ (7 * i)"
      by (intro mult_le_mono1) auto
    ultimately have "(2 :: nat) ^ 35 \<le> a + n * 2 ^ (7 * i)" by linarith
    with assms(1) show False by simp
  qed
  show "n < 16" if "i = 4" using assms(1) that by simp
qed

lemma uv_spec_leb128:
  assumes "a + n * 2 ^ (7 * i) < 2 ^ 32" "i > 0 \<longrightarrow> n > 0"
  shows "uv_spec s i a (leb128 n @ r) = Some (a + n * 2 ^ (7 * i), r)"
  using assms
proof (induction n arbitrary: i a rule: leb128.induct)
  case (1 n)
  note b = shift_bound[OF 1(2,3)]
  show ?case
  proof (cases "n < 128")
    case True
    with 1(2,3) b show ?thesis
      by (auto simp: leb128_small unat_of_nat_byte uv_spec_Cons[OF _ refl] simp del: uv_spec.simps)
  next
    case False
    then have u: "unat (of_nat (128 + n mod 128) :: byte) = 128 + n mod 128"
      by (intro unat_of_nat_byte) (simp add: less_le_trans[OF mod_less_divisor])
    have split: "a + (n mod 128) * 2 ^ (7 * i) + (n div 128) * 2 ^ (7 * Suc i) = a + n * 2 ^ (7 * i)"
    proof -
      have "(n div 128) * 2 ^ (7 * Suc i) = (n div 128 * 128) * (2 :: nat) ^ (7 * i)"
        by (simp add: power_add)
      then have "(n mod 128) * 2 ^ (7 * i) + (n div 128) * 2 ^ (7 * Suc i)
          = (n mod 128 + n div 128 * 128) * (2 :: nat) ^ (7 * i)"
        by (simp only: distrib_right)
      then show ?thesis by (simp only: mod_div_mult_eq add.assoc)
    qed
    have "uv_spec s (Suc i) (a + (n mod 128) * 2 ^ (7 * i)) (leb128 (n div 128) @ r)
        = Some (a + n * 2 ^ (7 * i), r)"
      using 1(1)[OF False, of "a + (n mod 128) * 2 ^ (7 * i)" "Suc i"] 1(2) False
      unfolding split by (simp add: div_greater_zero_iff)
    with False b u show ?thesis
      by (auto simp: leb128_big uv_spec_Cons[OF _ refl] simp del: uv_spec.simps of_nat_add)
  qed
qed

lemma uv_spec_canonical:
  assumes "uv_spec True i a bs = Some (m, r)"
  shows "\<exists>n. bs = leb128 n @ r \<and> m = a + n * 2 ^ (7 * i) \<and> (i > 0 \<longrightarrow> n > 0)"
  using assms
proof (induction True i a bs rule: uv_spec.induct)
  case (2 i a b bs)
  let ?a = "a + (unat b mod 128) * 2 ^ (7 * i)"
  have i: "i < 5" using "2.prems" by (auto simp: Let_def split: if_splits)
  show ?case
  proof (cases "unat b < 128")
    case True
    then have "leb128 (unat b) = [b]"
      by (simp add: leb128_small ucast_byte_small of_nat_unat_id)
    with "2.prems" True show ?thesis
      by (intro exI[of _ "unat b"]) (auto simp: Let_def split: if_splits)
  next
    case False
    have "uv_spec True (Suc i) ?a bs = Some (m, r)"
      using "2.prems" False by (simp add: Let_def split: if_splits)
    then obtain n where n: "bs = leb128 n @ r" "m = ?a + n * 2 ^ (7 * Suc i)" "n > 0"
      using "2.hyps"[of "unat b mod 128" ?a] "2.prems" False i by (auto simp: Let_def split: if_splits)
    let ?n = "unat b mod 128 + 128 * n"
    have byte: "b = of_nat (128 + unat b mod 128)"
    proof -
      have "unat b < 256" using unsigned_less[of b, where 'a = nat] by simp
      then have "128 + unat b mod 128 = unat b" using False by (simp add: le_mod_geq)
      then show ?thesis by (metis of_nat_unat_id)
    qed
    have "leb128 ?n = b # leb128 n"
      using n(3) byte by (subst leb128_big) auto
    moreover have "m = a + ?n * 2 ^ (7 * i)"
      using n(2) by (simp add: power_add algebra_simps)
    ultimately show ?thesis using n(1,3) by (intro exI[of _ ?n]) auto
  qed
qed simp

lemma uv_spec_minimal:
  assumes "uv_spec s i a bs = Some (m, r)"
  shows "\<exists>n p. bs = p @ r \<and> m = a + n * 2 ^ (7 * i) \<and> length (leb128 n) \<le> length p"
  using assms
proof (induction s i a bs rule: uv_spec.induct)
  case (2 s i a b bs)
  let ?a = "a + (unat b mod 128) * 2 ^ (7 * i)"
  show ?case
  proof (cases "unat b < 128")
    case True
    with "2.prems" show ?thesis
      by (intro exI[of _ "unat b"] exI[of _ "[b]"]) (auto simp: Let_def leb128_small split: if_splits)
  next
    case False
    have "uv_spec s (Suc i) ?a bs = Some (m, r)"
      using "2.prems" False by (simp add: Let_def split: if_splits)
    then obtain n p where n: "bs = p @ r" "m = ?a + n * 2 ^ (7 * Suc i)" "length (leb128 n) \<le> length p"
      using "2.IH"[of "unat b mod 128" ?a] "2.prems" False by (auto simp: Let_def split: if_splits)
    let ?n = "unat b mod 128 + 128 * n"
    have "length (leb128 ?n) \<le> Suc (length (leb128 n))"
      by (cases "?n < 128") (auto simp: leb128_small leb128_big)
    moreover have "m = a + ?n * 2 ^ (7 * i)"
      using n(2) by (simp add: power_add algebra_simps)
    ultimately show ?thesis using n(1,3) by (intro exI[of _ ?n] exI[of _ "b # p"]) auto
  qed
qed simp

lemma uv_spec_prefix:
  "uv_spec s i a (p @ r) = Some (m, r) \<Longrightarrow> uv_spec s i a (p @ r') = Some (m, r')"
proof (induction p arbitrary: i a)
  case Nil
  then show ?case by (auto dest: uv_spec_length)
next
  case (Cons b p)
  then show ?case by (auto simp: Let_def split: if_splits)
qed

section \<open>What a field codec promises\<close>

text \<open>
  A reader run \<open>n\<close> times over the same cursor, the shape of every column of the span and
  of the action manifest.
\<close>

fun read_many :: "(cursor \<Rightarrow> ('a \<times> cursor) codec_result) \<Rightarrow> nat \<Rightarrow> cursor \<Rightarrow> ('a list \<times> cursor) codec_result" where
  "read_many rd 0 c = Inr ([], c)"
| "read_many rd (Suc n) c =
     and_then (rd c) (\<lambda>(x, c'). and_then (read_many rd n c') (\<lambda>(xs, c''). Inr (x # xs, c'')))"

text \<open>
  \<open>field_codec\<close>: reading what was written gives the value back and stops exactly behind it,
  whatever follows; a reader only ever consumes a prefix, never shorter than the value's own
  encoding. \<open>canonical_codec\<close> adds that the
  reader accepts nothing but what the writer produces.
\<close>

locale field_codec =
  fixes enc :: "'a \<Rightarrow> bytes" and dec :: "cursor \<Rightarrow> ('a \<times> cursor) codec_result"
    and ok :: "'a \<Rightarrow> bool"
  assumes dec_enc: "wf_cursor c \<Longrightarrow> ok a \<Longrightarrow> rest c = enc a @ r \<Longrightarrow>
      dec c = Inr (a, advance (length (enc a)) c)"
    and dec_consumes: "wf_cursor c \<Longrightarrow> dec c = Inr (a, c') \<Longrightarrow>
      ok a \<and> (\<exists>p. rest c = p @ rest c' \<and> c' = advance (length p) c \<and> length (enc a) \<le> length p)"
begin

lemma dec_wf: "wf_cursor c \<Longrightarrow> dec c = Inr (a, c') \<Longrightarrow> wf_cursor c'"
  by (metis dec_consumes wf_advance_append)

lemma read_many_concat:
  "wf_cursor c \<Longrightarrow> list_all ok xs \<Longrightarrow> rest c = concat (map enc xs) @ r \<Longrightarrow>
    read_many dec (length xs) c = Inr (xs, advance (length (concat (map enc xs))) c)"
proof (induction xs arbitrary: c)
  case (Cons x xs)
  let ?c = "advance (length (enc x)) c"
  have c: "rest c = enc x @ (concat (map enc xs) @ r)" using Cons.prems by simp
  have "dec c = Inr (x, ?c)" using Cons.prems c by (intro dec_enc) auto
  moreover have "wf_cursor ?c" using Cons.prems(1) c by (rule wf_advance_append) simp
  moreover have "rest ?c = concat (map enc xs) @ r" using c by (rule rest_advance_append) simp
  ultimately show ?case using Cons.IH[of ?c] Cons.prems(2) by simp
qed simp

lemma read_many_length: "read_many dec n c = Inr (xs, c') \<Longrightarrow> length xs = n"
  by (induction n arbitrary: c xs) (auto simp: and_then_eq_Inr)

lemma read_many_consumes:
  "wf_cursor c \<Longrightarrow> read_many dec n c = Inr (xs, c') \<Longrightarrow>
    list_all ok xs \<and> (\<exists>p. rest c = p @ rest c' \<and> c' = advance (length p) c
      \<and> length (concat (map enc xs)) \<le> length p)"
proof (induction n arbitrary: c xs)
  case (Suc n)
  from Suc.prems(2) obtain x c1 ys where d: "dec c = Inr (x, c1)"
    and m: "read_many dec n c1 = Inr (ys, c')" and xs: "xs = x # ys"
    by (auto simp: and_then_eq_Inr)
  from dec_consumes[OF Suc.prems(1) d] obtain p where p: "ok x" "rest c = p @ rest c1" "c1 = advance (length p) c"
    "length (enc x) \<le> length p" by blast
  from Suc.IH[OF dec_wf[OF Suc.prems(1) d] m] obtain q where
    q: "list_all ok ys" "rest c1 = q @ rest c'" "c' = advance (length q) c1"
      "length (concat (map enc ys)) \<le> length q" by blast
  have "rest c = (p @ q) @ rest c'" unfolding p(2) q(2) by simp
  moreover have "c' = advance (length (p @ q)) c" unfolding q(3) p(3) by simp
  moreover have "length (concat (map enc xs)) \<le> length (p @ q)" using p(4) q(4) xs by simp
  ultimately show ?case using p(1) q(1) xs by auto
qed (auto intro: exI[of _ "[]"])

text \<open>Encodings are prefix-free: no encoding is a proper prefix of another.\<close>

lemma enc_prefix_free:
  assumes "ok a" "ok b" "enc a @ r = enc b @ s" "length (enc a @ r) < 2 ^ 64"
  shows "a = b \<and> r = s"
proof -
  let ?c = "cursor_new (enc a @ r)"
  have wf: "wf_cursor ?c" using assms(4) by simp
  have "dec ?c = Inr (a, advance (length (enc a)) ?c)" using wf assms(1) by (rule dec_enc) simp
  moreover have "dec ?c = Inr (b, advance (length (enc b)) ?c)"
    using wf assms(2) by (rule dec_enc) (simp add: assms(3))
  ultimately have "a = b" by simp
  with assms(3) show ?thesis by simp
qed

end

locale canonical_codec =
  fixes enc :: "'a \<Rightarrow> bytes" and dec :: "cursor \<Rightarrow> ('a \<times> cursor) codec_result"
    and ok :: "'a \<Rightarrow> bool"
  assumes reads_enc: "wf_cursor c \<Longrightarrow> ok a \<Longrightarrow> rest c = enc a @ r \<Longrightarrow>
      dec c = Inr (a, advance (length (enc a)) c)"
    and reads_only_enc: "wf_cursor c \<Longrightarrow> dec c = Inr (a, c') \<Longrightarrow>
      ok a \<and> rest c = enc a @ rest c' \<and> c' = advance (length (enc a)) c"
begin

sublocale field_codec enc dec ok
proof unfold_locales
  fix c a c' assume "wf_cursor c" "dec c = Inr (a, c')"
  from reads_only_enc[OF this]
  show "ok a \<and> (\<exists>p. rest c = p @ rest c' \<and> c' = advance (length p) c \<and> length (enc a) \<le> length p)"
    by blast
qed (rule reads_enc)

lemma read_many_canonical:
  "wf_cursor c \<Longrightarrow> read_many dec n c = Inr (xs, c') \<Longrightarrow>
    list_all ok xs \<and> length xs = n \<and> rest c = concat (map enc xs) @ rest c' \<and>
    c' = advance (length (concat (map enc xs))) c"
proof (induction n arbitrary: c xs)
  case (Suc n)
  from Suc.prems(2) obtain x c1 ys where d: "dec c = Inr (x, c1)"
    and m: "read_many dec n c1 = Inr (ys, c')" and xs: "xs = x # ys"
    by (auto simp: and_then_eq_Inr)
  have c: "ok x" "rest c = enc x @ rest c1" "c1 = advance (length (enc x)) c"
    using reads_only_enc[OF Suc.prems(1) d] by auto
  have c1: "list_all ok ys" "length ys = n" "rest c1 = concat (map enc ys) @ rest c'"
    "c' = advance (length (concat (map enc ys))) c1"
    using Suc.IH[OF dec_wf[OF Suc.prems(1) d] m] by auto
  have "rest c = concat (map enc xs) @ rest c'" unfolding c(2) c1(3) xs by simp
  moreover have "c' = advance (length (concat (map enc xs))) c" unfolding c1(4) c(3) xs by simp
  ultimately show ?case using c(1) c1(1,2) xs by simp
qed auto

end

subsection \<open>The two integer codecs and the fixed-width field\<close>

lemma uvarint32_leb128:
  assumes "wf_cursor c" "rest c = leb128 (unat v) @ r"
  shows "uvarint32 what c = Inr (v, advance (length (leb128 (unat v))) c)"
proof -
  have "uv_spec True 0 0 (rest c) = Some (unat v, r)"
    using uv_spec_leb128[of 0 "unat v" 0 True r] unat_lt_len[of v] assms(2) by simp
  then have "refines_uv (uvarint32 what c) c (Some (unat v, r))"
    using uvarint32_loop_refines[OF assms(1), of 0 0 what] by (simp add: uvarint32_def)
  then show ?thesis
    by (simp add: refines_uv_def of_nat_unat_id assms(2) del: of_nat_unat)
qed

lemma uvarint32_canonical:
  assumes "wf_cursor c" "uvarint32 what c = Inr (v, c')"
  shows "rest c = leb128 (unat v) @ rest c' \<and> c' = advance (length (leb128 (unat v))) c"
proof -
  have ref: "refines_uv (uvarint32 what c) c (uv_spec True 0 0 (rest c))"
    using uvarint32_loop_refines[OF assms(1), of 0 0 what] by (simp add: uvarint32_def)
  then obtain n r where spec: "uv_spec True 0 0 (rest c) = Some (n, r)"
    using assms(2) by (auto simp: refines_uv_def split: option.splits)
  from uv_spec_canonical[OF this] have enc: "rest c = leb128 n @ r" by auto
  from uv_spec_shrinks[OF spec] have "n < 2 ^ 32" by auto
  then have n: "unat (of_nat n :: u32) = n" by (simp add: unat_of_nat_lt)
  from ref assms(2) spec enc have "v = of_nat n" "c' = advance (length (leb128 n)) c"
    by (simp_all add: refines_uv_def)
  with enc n show ?thesis by (simp add: rest_advance)
qed

interpretation uvar: canonical_codec "\<lambda>v. leb128 (unat v)" "uvarint32 what" "\<lambda>_. True" for what
  by unfold_locales (blast intro: uvarint32_leb128 dest: uvarint32_canonical)+

lemma varint_leb128:
  fixes v :: u32
  assumes "wf_cursor c" "rest c = leb128 (unat v) @ r"
  shows "varint what c = Inr (v, advance (length (leb128 (unat v))) c)"
proof -
  have "uv_spec False 0 0 (rest c) = Some (unat v, r)"
    using uv_spec_leb128[of 0 "unat v" 0 False r] unat_lt_len[of v] assms(2) by simp
  then have "refines_uv (varint what c) c (Some (unat v, r))"
    using varint_loop_refines[OF assms(1), of 0 0 what] by (simp add: varint_def)
  then show ?thesis
    by (simp add: refines_uv_def of_nat_unat_id assms(2) del: of_nat_unat)
qed

lemma varint_consumes:
  assumes "wf_cursor c" "varint what c = Inr (v, c')"
  shows "\<exists>p. rest c = p @ rest c' \<and> c' = advance (length p) c \<and> length (leb128 (unat v)) \<le> length p"
proof -
  have ref: "refines_uv (varint what c) c (uv_spec False 0 0 (rest c))"
    using varint_loop_refines[OF assms(1), of 0 0 what] by (simp add: varint_def)
  then obtain n r where spec: "uv_spec False 0 0 (rest c) = Some (n, r)"
    using assms(2) by (auto simp: refines_uv_def split: option.splits)
  from uv_spec_minimal[OF spec] obtain p where p: "rest c = p @ r" "length (leb128 n) \<le> length p" by auto
  from uv_spec_shrinks[OF spec] have "unat (of_nat n :: u32) = n" by (auto simp: unat_of_nat_lt)
  with ref assms(2) spec p show ?thesis by (auto simp: refines_uv_def rest_advance)
qed

interpretation var: field_codec "\<lambda>v. leb128 (unat v)" "varint what" "\<lambda>_ :: u32. True" for what
  by unfold_locales (blast intro: varint_leb128 dest: varint_consumes)+

interpretation arr: canonical_codec id "take_array n what" "\<lambda>bs. length bs = n" for n what
proof unfold_locales
  fix c a r assume "wf_cursor c" "length a = n" "rest c = id a @ r"
  then show "take_array n what c = Inr (a, advance (length (id a)) c)"
    by (simp add: take_array_def cursor_take_append)
next
  fix c a c' assume "wf_cursor c" "take_array n what c = Inr (a, c')"
  then show "length a = n \<and> rest c = id a @ rest c' \<and> c' = advance (length (id a)) c"
    using cursor_take_Inr[of c what n a c'] by (auto simp: take_array_def)
qed

end
