(* ===== verification/Span_Codec.thy ===== *)
theory Span_Codec
  imports Byte_Cursor
begin

text \<open>
  The DA payload \<open>native_block_span_v0\<close> of \<^verbatim>\<open>crates/eez-payload-codec/src/lib.rs\<close>:
  \<open>SpanBlock\<close>, \<open>DecodedSpan\<close>, \<open>encode\<close>, \<open>decode\<close>, \<open>runs\<close> and
  \<open>decode_runs\<close>. The columns are counts, run-length encoded beneficiaries and extra data,
  transaction lengths and transaction bytes. The lemmas show that decoding inverts encoding, that
  the decoder accepts only canonical encodings, and which inputs each side rejects.
\<close>

section \<open>Data\<close>

definition payload_version_v0 :: u8 where
  "payload_version_v0 = 0x00"

definition max_extra_data :: nat where
  "max_extra_data = 32"

record span_block =
  beneficiary :: bytes
  extra_data :: bytes
  transactions :: "bytes list"

record decoded_span =
  block_tx_counts :: "u32 list"
  beneficiaries :: "bytes list"
  extra_datas :: "bytes list"
  span_transactions :: "bytes list"

definition block_count :: "decoded_span \<Rightarrow> nat" where
  "block_count d = length (block_tx_counts d)"

section \<open>Encoding\<close>

definition count_u32 :: "string \<Rightarrow> nat \<Rightarrow> u32 codec_result" where
  "count_u32 what v = (if v < 2 ^ 32 then Inr (of_nat v) else Inl (ValueTooLarge what (of_nat v)))"

text \<open>Maximal runs of \<open>blocks\<close> by the key \<open>key\<close>, as (run length, first block).\<close>

definition push_run :: "(span_block \<Rightarrow> 'k) \<Rightarrow> (u32 \<times> span_block) list \<Rightarrow> span_block \<Rightarrow> (u32 \<times> span_block) list" where
  "push_run key out block =
     (if out \<noteq> [] \<and> key (snd (last out)) = key block
      then butlast out @ [(fst (last out) + 1, snd (last out))]
      else out @ [(1, block)])"

definition runs :: "span_block list \<Rightarrow> (span_block \<Rightarrow> 'k) \<Rightarrow> (u32 \<times> span_block) list" where
  "runs blocks key = foldl (push_run key) [] blocks"

fun encode_counts :: "bytes \<Rightarrow> span_block list \<Rightarrow> bytes codec_result" where
  "encode_counts out [] = Inr out"
| "encode_counts out (b # bs) =
     and_then (count_u32 ''pure_transaction_counts'' (length (transactions b)))
       (\<lambda>n. encode_counts (put_uvarint32 out n) bs)"

fun encode_beneficiary_runs :: "bytes \<Rightarrow> (u32 \<times> span_block) list \<Rightarrow> bytes" where
  "encode_beneficiary_runs out [] = out"
| "encode_beneficiary_runs out ((n, b) # rs) =
     encode_beneficiary_runs (put_uvarint32 out n @ beneficiary b) rs"

fun encode_extra_runs :: "bytes \<Rightarrow> (u32 \<times> span_block) list \<Rightarrow> bytes codec_result" where
  "encode_extra_runs out [] = Inr out"
| "encode_extra_runs out ((n, b) # rs) =
     (if length (extra_data b) \<ge> 2 ^ 8 then Inl (ExtraDataTooLong 255)
      else let len = (of_nat (length (extra_data b)) :: u8) in
        if unat len > max_extra_data then Inl (ExtraDataTooLong len)
        else encode_extra_runs (put_uvarint32 out n @ [len] @ extra_data b) rs)"

fun encode_lengths :: "bytes \<Rightarrow> bytes list \<Rightarrow> bytes codec_result" where
  "encode_lengths out [] = Inr out"
| "encode_lengths out (tx # txs) =
     and_then (count_u32 ''pure_transaction_lengths'' (length tx))
       (\<lambda>n. encode_lengths (put_uvarint32 out n) txs)"

definition encode :: "span_block list \<Rightarrow> bytes codec_result" where
  "encode blocks =
     (if blocks = [] then Inl EmptySpan
      else and_then (count_u32 ''block_count'' (length blocks)) (\<lambda>n.
        let out = put_uvarint32 [payload_version_v0] n in
        and_then (encode_counts out blocks) (\<lambda>out.
        let out = encode_beneficiary_runs out (runs blocks beneficiary) in
        and_then (encode_extra_runs out (runs blocks extra_data)) (\<lambda>out.
        let txs = concat (map transactions blocks) in
        and_then (encode_lengths out txs) (\<lambda>out.
        Inr (out @ concat txs))))))"

section \<open>Decoding\<close>

fun decode_counts :: "nat \<Rightarrow> u32 list \<Rightarrow> u64 \<Rightarrow> cursor \<Rightarrow> ((u32 list \<times> u64) \<times> cursor) codec_result" where
  "decode_counts 0 counts tot c = Inr ((counts, tot), c)"
| "decode_counts (Suc n) counts tot c =
     and_then (uvarint32 ''pure_transaction_counts'' c) (\<lambda>(count, c').
     and_then (ok_or (ImplausibleCount ''pure_transaction_counts'' (ucast count) (of_nat (remaining c')))
                 (checked_add_word tot (ucast count))) (\<lambda>tot'.
     decode_counts n (counts @ [count]) tot' c'))"

lemma run_progress:
  fixes x :: "'a::len word"
  assumes "x \<noteq> 0" "\<not> n < l + unat x"
  shows "n - (l + unat x) < n - l"
proof -
  have "0 < unat x" using assms(1) by (simp add: unat_gt_0)
  with assms(2) show ?thesis by linarith
qed

function decode_runs :: "(cursor \<Rightarrow> ('a \<times> cursor) codec_result) \<Rightarrow> u32 \<Rightarrow> string \<Rightarrow> 'a list \<Rightarrow> 'a option \<Rightarrow> cursor \<Rightarrow> ('a list \<times> cursor) codec_result" where
  "decode_runs read_value n what out previous c =
     (if (of_nat (length out) :: u32) < n then
        and_then (uvarint32 what c) (\<lambda>(run_length, c1).
          if run_length = 0 then Inl (RunCoverage what)
          else and_then (read_value c1) (\<lambda>(v, c2).
            if previous = Some v then Inl (NonMaximalRun what)
            else if length out + unat run_length > unat n then Inl (RunCoverage what)
            else decode_runs read_value n what (out @ replicate (unat run_length) v) (Some v) c2))
      else Inr (out, c))"
  by pat_completeness auto
termination
  by (relation "measure (\<lambda>(_, n, _, out, _, _). unat n - length out)")
    (auto intro: run_progress)

declare decode_runs.simps [simp del]

definition read_extra :: "cursor \<Rightarrow> (bytes \<times> cursor) codec_result" where
  "read_extra c =
     and_then (cursor_byte ''extra_data_length'' c) (\<lambda>(len, c').
       if unat len > max_extra_data then Inl (ExtraDataTooLong len)
       else cursor_take ''extra_data'' (unat len) c')"

fun decode_lengths :: "nat \<Rightarrow> nat \<Rightarrow> nat list \<Rightarrow> u64 \<Rightarrow> cursor \<Rightarrow> ((nat list \<times> u64) \<times> cursor) codec_result" where
  "decode_lengths 0 i lengths tot c = Inr ((lengths, tot), c)"
| "decode_lengths (Suc n) i lengths tot c =
     and_then (uvarint32 ''pure_transaction_lengths'' c) (\<lambda>(len, c').
       if len = 0 then Inl (EmptyTransaction i)
       else and_then (ok_or (TxByteMismatch (- 1) (of_nat (remaining c')))
                        (checked_add_word tot (ucast len))) (\<lambda>tot'.
         decode_lengths n (Suc i) (lengths @ [unat len]) tot' c'))"

fun take_transactions :: "nat list \<Rightarrow> bytes list \<Rightarrow> cursor \<Rightarrow> (bytes list \<times> cursor) codec_result" where
  "take_transactions [] txs c = Inr (txs, c)"
| "take_transactions (len # lens) txs c =
     and_then (cursor_take ''pure_transaction_bytes'' len c) (\<lambda>(tx, c').
       take_transactions lens (txs @ [tx]) c')"

definition decode :: "bytes \<Rightarrow> decoded_span codec_result" where
  "decode payload = (case payload of
     [] \<Rightarrow> Inl Empty
   | version # body \<Rightarrow>
      if version \<noteq> payload_version_v0 then Inl (UnsupportedVersion version)
      else and_then (uvarint32 ''block_count'' (cursor_new body)) (\<lambda>(n, c).
        if n = 0 then Inl EmptySpan
        else and_then (check_plausible ''block_count'' (ucast n) 1 c) (\<lambda>_.
        and_then (decode_counts (unat n) [] 0 c) (\<lambda>((counts, total_txs), c).
        and_then (decode_runs (take_array 20 ''beneficiary'') n ''beneficiary'' [] None c) (\<lambda>(bens, c).
        and_then (decode_runs read_extra n ''extra_data'' [] None c) (\<lambda>(extras, c).
        and_then (check_plausible ''pure_transaction_counts'' total_txs 2 c) (\<lambda>_.
        and_then (decode_lengths (unat total_txs) 0 [] 0 c) (\<lambda>((lengths, total_bytes), c).
        if total_bytes \<noteq> of_nat (remaining c)
        then Inl (TxByteMismatch total_bytes (of_nat (remaining c)))
        else and_then (take_transactions lengths [] c) (\<lambda>(txs, c).
        if remaining c \<noteq> 0 then Inl (TrailingBytes (remaining c))
        else Inr \<lparr>block_tx_counts = counts, beneficiaries = bens,
                   extra_datas = extras, span_transactions = txs\<rparr>)))))))))"

section \<open>Run-length encoding\<close>

text \<open>The reference: maximal runs of a list, and their expansion.\<close>

fun rle :: "'a list \<Rightarrow> (nat \<times> 'a) list" where
  "rle [] = []"
| "rle (x # xs) = (case rle xs of
     [] \<Rightarrow> [(1, x)]
   | (k, y) # rs \<Rightarrow> if x = y then (Suc k, y) # rs else (1, x) # (k, y) # rs)"

definition expand :: "(nat \<times> 'a) list \<Rightarrow> 'a list" where
  "expand rs = concat (map (\<lambda>(k, x). replicate k x) rs)"

definition valid_runs :: "(nat \<times> 'a) list \<Rightarrow> bool" where
  "valid_runs rs \<longleftrightarrow> (\<forall>(k, x) \<in> set rs. 0 < k) \<and> distinct_adj (map snd rs)"

lemma expand_simps [simp]:
  "expand [] = []" "expand ((k, x) # rs) = replicate k x @ expand rs" "expand (rs @ ss) = expand rs @ expand ss"
  by (simp_all add: expand_def)

lemma length_expand: "length (expand rs) = sum_list (map fst rs)"
  by (induction rs) (auto simp: expand_def)

lemma rle_Nil_iff [simp]: "rle xs = [] \<longleftrightarrow> xs = []"
  by (cases xs) (auto split: list.splits)

lemma expand_rle: "expand (rle xs) = xs"
  by (induction xs) (auto split: list.splits simp: replicate_append_same)

lemma rle_hd: "rle (x # xs) = (k, y) # rs \<Longrightarrow> y = x \<and> 0 < k"
  by (auto split: list.splits if_splits)

lemma valid_runs_rle: "valid_runs (rle xs)"
  by (induction xs) (auto simp: valid_runs_def distinct_adj_Cons split: list.splits)

lemma rle_replicate_append:
  assumes "0 < k" "\<And>j y rs. rle xs = (j, y) # rs \<Longrightarrow> y \<noteq> x"
  shows "rle (replicate k x @ xs) = (k, x) # rle xs"
  using assms(1)
proof (induction k)
  case (Suc k)
  show ?case
  proof (cases "k = 0")
    case True
    then show ?thesis using assms(2) by (fastforce split: list.splits)
  next
    case False
    with Suc show ?thesis by simp
  qed
qed simp

lemma rle_expand: "valid_runs rs \<Longrightarrow> rle (expand rs) = rs"
proof (induction rs)
  case (Cons r rs)
  obtain k x where r: "r = (k, x)" by force
  with Cons have "rle (expand rs) = rs" "0 < k"
    by (auto simp: valid_runs_def distinct_adj_Cons)
  moreover have "y \<noteq> x" if "rle (expand rs) = (j, y) # ss" for j y ss
    using Cons.prems that \<open>rle (expand rs) = rs\<close> by (auto simp: r valid_runs_def)
  ultimately have "rle (replicate k x @ expand rs) = (k, x) # rle (expand rs)"
    by (intro rle_replicate_append)
  with \<open>rle (expand rs) = rs\<close> show ?case by (simp add: r)
qed simp

text \<open>The source builds the runs left to right, extending or appending the last one.\<close>

lemma rle_snoc:
  "rle (xs @ [x]) =
    (if xs \<noteq> [] \<and> snd (last (rle xs)) = x
     then butlast (rle xs) @ [(Suc (fst (last (rle xs))), x)] else rle xs @ [(1, x)])"
proof (induction xs)
  case (Cons y ys)
  show ?case
  proof (cases "ys = []")
    case True
    then show ?thesis by auto
  next
    case False
    then obtain k z rs where rs: "rle ys = (k, z) # rs" by (cases "rle ys") auto
    with False Cons show ?thesis by (cases rs rule: rev_cases) (auto split: if_splits)
  qed
qed simp

definition run_keys :: "(span_block \<Rightarrow> 'k) \<Rightarrow> (u32 \<times> span_block) list \<Rightarrow> (nat \<times> 'k) list" where
  "run_keys key rs = map (\<lambda>(n, b). (unat n, key b)) rs"

lemma sum_rle: "sum_list (map fst (rle xs)) = length xs"
  using length_expand[of "rle xs"] by (simp add: expand_rle)

lemma run_keys_push_run:
  assumes "run_keys key out = rle xs" "length xs < 2 ^ 32 - 1"
  shows "run_keys key (push_run key out b) = rle (xs @ [key b])"
proof (cases out rule: rev_cases)
  case Nil
  with assms(1) have "rle xs = []" by (simp add: run_keys_def)
  with Nil show ?thesis by (simp add: push_run_def run_keys_def)
next
  case (snoc os o')
  obtain n b' where o': "o' = (n, b')" by force
  have rle: "rle xs = run_keys key os @ [(unat n, key b')]"
    using assms(1) snoc o' by (simp add: run_keys_def)
  then have "unat n \<le> length xs" using sum_rle[of xs] by simp
  with assms(2) have "unat (n + 1) = Suc (unat n)"
    using unat_add_no_overflow[of n 1] by simp
  moreover have "xs \<noteq> []" using rle by auto
  ultimately show ?thesis
    using rle snoc o' by (auto simp: rle_snoc push_run_def run_keys_def)
qed

lemma run_keys_runs:
  assumes "length blocks < 2 ^ 32"
  shows "run_keys key (runs blocks key) = rle (map key blocks)"
  using assms
proof (induction blocks rule: rev_induct)
  case Nil
  then show ?case by (simp add: runs_def run_keys_def)
next
  case (snoc b bs)
  then show ?case
    using run_keys_push_run[of key "runs bs key" "map key bs" b] by (simp add: runs_def)
qed

text \<open>
  The decoder of a run column, for any canonical value codec: it inverts the run encoding and
  accepts only valid (positive, maximal, exactly covering) runs.
\<close>

definition enc_runs :: "('a \<Rightarrow> bytes) \<Rightarrow> (nat \<times> 'a) list \<Rightarrow> bytes" where
  "enc_runs enc rs = concat (map (\<lambda>(k, x). leb128 k @ enc x) rs)"

lemma enc_runs_simps [simp]:
  "enc_runs enc [] = []" "enc_runs enc ((k, x) # rs) = leb128 k @ enc x @ enc_runs enc rs"
  by (simp_all add: enc_runs_def)

definition follows :: "'a option \<Rightarrow> (nat \<times> 'a) list \<Rightarrow> bool" where
  "follows prev rs \<longleftrightarrow> (case rs of [] \<Rightarrow> True | (k, x) # _ \<Rightarrow> prev \<noteq> Some x)"

lemma valid_runs_Cons: "valid_runs ((k, x) # rs) \<longleftrightarrow> 0 < k \<and> follows (Some x) rs \<and> valid_runs rs"
  by (auto simp: valid_runs_def follows_def distinct_adj_Cons split: list.splits)

lemma of_nat_less_u32: "l \<le> unat n \<Longrightarrow> (of_nat l :: u32) < n \<longleftrightarrow> l < unat n"
proof -
  assume "l \<le> unat n"
  then have "l < 2 ^ 32" using unat_lt_len[of n] by simp
  then show ?thesis by (simp add: word_less_nat_alt unat_of_nat_lt)
qed

context canonical_codec
begin

lemma decode_runs_enc:
  assumes "wf_cursor c" "rest c = enc_runs enc rs @ r" "valid_runs rs" "follows prev rs"
    "list_all ok (map snd rs)" "length out + sum_list (map fst rs) = unat n"
  shows "decode_runs dec n what out prev c
    = Inr (out @ expand rs, advance (length (enc_runs enc rs)) c)"
  using assms
proof (induction rs arbitrary: c out prev)
  case Nil
  then show ?case
    by (simp add: decode_runs.simps[of dec n what out prev c] of_nat_less_u32)
next
  case (Cons rx rs)
  obtain k x where rx: "rx = (k, x)" by force
  let ?c1 = "advance (length (leb128 k)) c"
  let ?c2 = "advance (length (enc x)) ?c1"
  have k: "0 < k" "follows (Some x) rs" "valid_runs rs" and prev: "prev \<noteq> Some x"
    using Cons.prems(3,4) by (auto simp: rx valid_runs_Cons follows_def)
  have le: "length out + k \<le> unat n" using Cons.prems(6) by (simp add: rx)
  then have "k < 2 ^ 32" using unat_lt_len[of n] by simp
  then have uk: "unat (of_nat k :: u32) = k" by (simp add: unat_of_nat_lt)
  then have k0: "(of_nat k :: u32) \<noteq> 0" using k(1) by (metis unat_0 neq0_conv)
  have r0: "rest c = leb128 (unat (of_nat k :: u32)) @ (enc x @ enc_runs enc rs @ r)"
    using Cons.prems(2) uk by (simp add: rx)
  have uv: "uvarint32 what c = Inr (of_nat k, ?c1)"
    using uvarint32_leb128[OF Cons.prems(1) r0, of what] uk by simp
  have wf1: "wf_cursor ?c1" and r1: "rest ?c1 = enc x @ (enc_runs enc rs @ r)"
    using wf_advance_append[OF Cons.prems(1) r0] rest_advance_append[OF r0] uk by simp_all
  have v: "dec ?c1 = Inr (x, ?c2)"
    using wf1 _ r1 by (rule reads_enc) (use Cons.prems(5) rx in simp)
  have wf2: "wf_cursor ?c2" and r2: "rest ?c2 = enc_runs enc rs @ r"
    using wf_advance_append[OF wf1 r1] rest_advance_append[OF r1] by simp_all
  have lt: "(of_nat (length out) :: u32) < n" using le k(1) by (simp add: of_nat_less_u32)
  have "decode_runs dec n what (out @ replicate k x) (Some x) ?c2
      = Inr ((out @ replicate k x) @ expand rs, advance (length (enc_runs enc rs)) ?c2)"
    using wf2 r2 k(3,2) by (rule Cons.IH) (use Cons.prems(5,6) rx in simp_all)
  with lt uv k0 v prev le uk show ?case
    by (simp add: decode_runs.simps[of dec n what out prev c] rx add.assoc)
qed

lemma decode_runs_canonical:
  assumes "wf_cursor c" "decode_runs dec n what out prev c = Inr (xs, c')" "length out \<le> unat n"
  shows "\<exists>rs. xs = out @ expand rs \<and> valid_runs rs \<and> follows prev rs \<and> list_all ok (map snd rs)
    \<and> length xs = unat n \<and> rest c = enc_runs enc rs @ rest c'
    \<and> c' = advance (length (enc_runs enc rs)) c \<and> wf_cursor c'"
  using assms
proof (induction "unat n - length out" arbitrary: out prev c rule: less_induct)
  case less
  show ?case
  proof (cases "(of_nat (length out) :: u32) < n")
    case False
    with less.prems have "xs = out" "c' = c" "length out = unat n"
      by (auto simp: decode_runs.simps[of dec n what out prev c] of_nat_less_u32)
    with less.prems show ?thesis
      by (intro exI[of _ "[]"]) (simp add: valid_runs_def follows_def)
  next
    case True
    from less.prems(2) True obtain k c1 x c2 where
      uv: "uvarint32 what c = Inr (k, c1)" and k: "k \<noteq> 0" and v: "dec c1 = Inr (x, c2)"
      and p: "prev \<noteq> Some x" and le: "\<not> length out + unat k > unat n"
      and rec: "decode_runs dec n what (out @ replicate (unat k) x) (Some x) c2 = Inr (xs, c')"
      by (auto simp: decode_runs.simps[of dec n what out prev c] and_then_eq_Inr split: if_splits)
    have c1: "rest c = leb128 (unat k) @ rest c1" "c1 = advance (length (leb128 (unat k))) c"
      using uvarint32_canonical[OF less.prems(1) uv] by auto
    have wf1: "wf_cursor c1" using wf_advance_append[OF less.prems(1) c1(1) refl] c1(2) by simp
    have c2: "ok x" "rest c1 = enc x @ rest c2" "c2 = advance (length (enc x)) c1"
      using reads_only_enc[OF wf1 v] by auto
    have wf2: "wf_cursor c2" using dec_wf[OF wf1 v] .
    have "unat n - length (out @ replicate (unat k) x) < unat n - length out"
      using run_progress[OF k le] by simp
    from less.hyps[OF this wf2 rec] le obtain rs where
      rs: "xs = (out @ replicate (unat k) x) @ expand rs" "valid_runs rs" "follows (Some x) rs"
        "list_all ok (map snd rs)" "length xs = unat n" "rest c2 = enc_runs enc rs @ rest c'"
        "c' = advance (length (enc_runs enc rs)) c2" "wf_cursor c'"
      by auto
    let ?rs = "(unat k, x) # rs"
    have "rest c = enc_runs enc ?rs @ rest c'" unfolding c1(1) c2(2) rs(6) by simp
    moreover have "c' = advance (length (enc_runs enc ?rs)) c"
      unfolding rs(7) c2(3) c1(2) by (simp add: add.assoc)
    moreover have "valid_runs ?rs" using k rs(2,3) by (simp add: valid_runs_Cons unat_gt_0)
    ultimately show ?thesis
      using rs(1,4,5,8) c2(1) p by (intro exI[of _ ?rs]) (simp add: follows_def)
  qed
qed

end

section \<open>The extra-data value codec\<close>

definition enc_extra :: "bytes \<Rightarrow> bytes" where
  "enc_extra bs = of_nat (length bs) # bs"

lemma read_extra_enc:
  assumes "wf_cursor c" "length bs \<le> 32" "rest c = enc_extra bs @ r"
  shows "read_extra c = Inr (bs, advance (length (enc_extra bs)) c)"
proof -
  have r0: "rest c = of_nat (length bs) # bs @ r" using assms(3) by (simp add: enc_extra_def)
  have len: "unat (of_nat (length bs) :: byte) = length bs"
    using assms(2) by (intro unat_of_nat_byte) simp
  have wf1: "wf_cursor (advance 1 c)"
    by (rule wf_advance_append[OF assms(1), of "[of_nat (length bs)]" "bs @ r"]) (simp_all add: r0)
  have "cursor_take ''extra_data'' (length bs) (advance 1 c) = Inr (bs, advance (length bs) (advance 1 c))"
    by (rule cursor_take_append[OF wf1, where r = r]) (simp_all add: rest_advance r0)
  with assms(2) len cursor_byte_Cons[OF assms(1) r0] show ?thesis
    by (simp add: read_extra_def max_extra_data_def enc_extra_def)
qed

lemma read_extra_canonical:
  assumes "wf_cursor c" "read_extra c = Inr (bs, c')"
  shows "length bs \<le> 32 \<and> rest c = enc_extra bs @ rest c' \<and> c' = advance (length (enc_extra bs)) c"
proof -
  from assms(2) obtain len c1 where b: "cursor_byte ''extra_data_length'' c = Inr (len, c1)"
    and le: "\<not> unat len > 32" and t: "cursor_take ''extra_data'' (unat len) c1 = Inr (bs, c')"
    by (auto simp: read_extra_def and_then_eq_Inr max_extra_data_def split: if_splits)
  note c1 = cursor_byte_Inr[OF assms(1) b]
  note c2 = cursor_take_Inr[OF c1(3) t]
  have "rest c = enc_extra bs @ rest c'" unfolding c1(1) c2(2) enc_extra_def by (simp add: c2(1) of_nat_unat_id)
  moreover have "c' = advance (length (enc_extra bs)) c" unfolding c2(3) c1(2) by (simp add: enc_extra_def c2(1))
  ultimately show ?thesis using le c2(1) by simp
qed

interpretation extra: canonical_codec enc_extra read_extra "\<lambda>bs. length bs \<le> 32"
  by unfold_locales (blast intro: read_extra_enc dest: read_extra_canonical)+

section \<open>The count, length and transaction columns\<close>

definition leb_column :: "nat list \<Rightarrow> bytes" where
  "leb_column ns = concat (map leb128 ns)"

lemma leb_column_simps [simp]:
  "leb_column [] = []" "leb_column (n # ns) = leb128 n @ leb_column ns"
  by (simp_all add: leb_column_def)

lemma leb_column_length: "length ns \<le> length (leb_column ns)"
proof (induction ns)
  case (Cons n ns)
  moreover have "1 \<le> length (leb128 n)" by (simp add: Suc_le_eq)
  ultimately show ?case by simp
qed simp

lemma unat_ucast_u32_u64: "unat (ucast (w :: u32) :: u64) = unat w"
  by (simp only: unsigned_ucast_eq) (simp add: take_bit_nat_eq_self less_trans[OF unat_lt_len])

lemma decode_counts_enc:
  assumes "wf_cursor c" "rest c = leb_column (map unat xs) @ r"
    "unat tot + sum_list (map unat xs) < 2 ^ 64"
  shows "\<exists>t. decode_counts (length xs) acc tot c
      = Inr ((acc @ xs, t), advance (length (leb_column (map unat xs))) c)
    \<and> unat t = unat tot + sum_list (map unat xs)"
  using assms
proof (induction xs arbitrary: c acc tot)
  case (Cons x xs)
  let ?c = "advance (length (leb128 (unat x))) c"
  have r0: "rest c = leb128 (unat x) @ (leb_column (map unat xs) @ r)" using Cons.prems(2) by simp
  have wf: "wf_cursor ?c" and r1: "rest ?c = leb_column (map unat xs) @ r"
    using wf_advance_append[OF Cons.prems(1) r0] rest_advance_append[OF r0] by simp_all
  have t: "checked_add_word tot (ucast x) = Some (tot + ucast x)"
    "unat (tot + ucast x) = unat tot + unat x"
    using Cons.prems(3) by (auto simp: checked_add_word_Some unat_add_no_overflow unat_ucast_u32_u64)
  from Cons.IH[OF wf r1, of "tot + ucast x" "acc @ [x]"] Cons.prems(3) t(2)
  obtain t' where "decode_counts (length xs) (acc @ [x]) (tot + ucast x) ?c
      = Inr ((acc @ x # xs, t'), advance (length (leb_column (map unat xs))) ?c)"
    "unat t' = unat tot + unat x + sum_list (map unat xs)"
    by auto
  then show ?case
    using uvarint32_leb128[OF Cons.prems(1) r0] t(1) by (intro exI[of _ t']) simp
qed simp

lemma decode_counts_canonical:
  assumes "wf_cursor c" "decode_counts n acc tot c = Inr ((ys, t), c')"
  shows "\<exists>xs. ys = acc @ xs \<and> length xs = n \<and> rest c = leb_column (map unat xs) @ rest c'
    \<and> c' = advance (length (leb_column (map unat xs))) c \<and> wf_cursor c'
    \<and> unat t = unat tot + sum_list (map unat xs)"
  using assms
proof (induction n arbitrary: c acc tot)
  case (Suc n)
  from Suc.prems(2) obtain x c1 tot1 where uv: "uvarint32 ''pure_transaction_counts'' c = Inr (x, c1)"
    and t1: "checked_add_word tot (ucast x) = Some tot1"
    and rec: "decode_counts n (acc @ [x]) tot1 c1 = Inr ((ys, t), c')"
    by (auto simp: and_then_eq_Inr)
  have c1: "rest c = leb128 (unat x) @ rest c1" "c1 = advance (length (leb128 (unat x))) c"
    using uvarint32_canonical[OF Suc.prems(1) uv] by auto
  have wf1: "wf_cursor c1" using wf_advance_append[OF Suc.prems(1) c1(1) refl] c1(2) by simp
  from Suc.IH[OF wf1 rec] obtain xs where xs: "ys = acc @ x # xs" "length xs = n"
    "rest c1 = leb_column (map unat xs) @ rest c'" "c' = advance (length (leb_column (map unat xs))) c1"
    "wf_cursor c'" "unat t = unat tot1 + sum_list (map unat xs)" by auto
  have "unat tot1 = unat tot + unat x"
    using checked_add_word_unat[OF t1] by (simp only: unat_ucast_u32_u64)
  with xs c1 show ?case by (intro exI[of _ "x # xs"]) (simp add: c1(1) xs(3,4))
qed simp

lemma decode_lengths_enc:
  fixes xs :: "u32 list"
  assumes "wf_cursor c" "rest c = leb_column (map unat xs) @ r" "0 \<notin> set xs"
    "unat tot + sum_list (map unat xs) < 2 ^ 64"
  shows "\<exists>t. decode_lengths (length xs) i acc tot c
      = Inr ((acc @ map unat xs, t), advance (length (leb_column (map unat xs))) c)
    \<and> unat t = unat tot + sum_list (map unat xs)"
  using assms
proof (induction xs arbitrary: c acc tot i)
  case (Cons x xs)
  let ?c = "advance (length (leb128 (unat x))) c"
  have r0: "rest c = leb128 (unat x) @ (leb_column (map unat xs) @ r)" using Cons.prems(2) by simp
  have wf: "wf_cursor ?c" and r1: "rest ?c = leb_column (map unat xs) @ r"
    using wf_advance_append[OF Cons.prems(1) r0] rest_advance_append[OF r0] by simp_all
  have t: "checked_add_word tot (ucast x) = Some (tot + ucast x)"
    "unat (tot + ucast x) = unat tot + unat x"
    using Cons.prems(4) by (auto simp: checked_add_word_Some unat_add_no_overflow unat_ucast_u32_u64)
  from Cons.IH[OF wf r1, of "tot + ucast x" "Suc i" "acc @ [unat x]"] Cons.prems(3,4) t(2)
  obtain t' where "decode_lengths (length xs) (Suc i) (acc @ [unat x]) (tot + ucast x) ?c
      = Inr ((acc @ unat x # map unat xs, t'), advance (length (leb_column (map unat xs))) ?c)"
    "unat t' = unat tot + unat x + sum_list (map unat xs)"
    by auto
  then show ?case
    using uvarint32_leb128[OF Cons.prems(1) r0] t(1) Cons.prems(3) by (intro exI[of _ t']) simp
qed simp

lemma decode_lengths_canonical:
  assumes "wf_cursor c" "decode_lengths n i acc tot c = Inr ((ys, t), c')"
  shows "\<exists>xs. ys = acc @ map unat xs \<and> length xs = n \<and> 0 \<notin> set xs
    \<and> rest c = leb_column (map unat xs) @ rest c'
    \<and> c' = advance (length (leb_column (map unat xs))) c \<and> wf_cursor c'
    \<and> unat t = unat tot + sum_list (map unat (xs :: u32 list))"
  using assms
proof (induction n arbitrary: c acc tot i)
  case (Suc n)
  from Suc.prems(2) obtain x c1 tot1 where uv: "uvarint32 ''pure_transaction_lengths'' c = Inr (x, c1)"
    and x0: "x \<noteq> 0" and t1: "checked_add_word tot (ucast x) = Some tot1"
    and rec: "decode_lengths n (Suc i) (acc @ [unat x]) tot1 c1 = Inr ((ys, t), c')"
    by (auto simp: and_then_eq_Inr split: if_splits)
  have c1: "rest c = leb128 (unat x) @ rest c1" "c1 = advance (length (leb128 (unat x))) c"
    using uvarint32_canonical[OF Suc.prems(1) uv] by auto
  have wf1: "wf_cursor c1" using wf_advance_append[OF Suc.prems(1) c1(1) refl] c1(2) by simp
  from Suc.IH[OF wf1 rec] obtain xs :: "u32 list" where xs: "ys = acc @ unat x # map unat xs" "length xs = n"
    "0 \<notin> set xs" "rest c1 = leb_column (map unat xs) @ rest c'"
    "c' = advance (length (leb_column (map unat xs))) c1"
    "wf_cursor c'" "unat t = unat tot1 + sum_list (map unat xs)" by auto
  have "unat tot1 = unat tot + unat x"
    using checked_add_word_unat[OF t1] by (simp only: unat_ucast_u32_u64)
  with xs c1 x0 show ?case by (intro exI[of _ "x # xs"]) (simp add: c1(1) xs(4,5))
qed simp

lemma take_transactions_enc:
  "wf_cursor c \<Longrightarrow> rest c = concat txs @ r \<Longrightarrow>
    take_transactions (map length txs) acc c = Inr (acc @ txs, advance (length (concat txs)) c)"
proof (induction txs arbitrary: c acc)
  case (Cons tx txs)
  let ?c = "advance (length tx) c"
  have r0: "rest c = tx @ (concat txs @ r)" using Cons.prems(2) by simp
  have "take_transactions (map length txs) (acc @ [tx]) ?c
      = Inr ((acc @ [tx]) @ txs, advance (length (concat txs)) ?c)"
    by (rule Cons.IH) (use wf_advance_append[OF Cons.prems(1) r0] rest_advance_append[OF r0] in simp_all)
  then show ?case using cursor_take_append[OF Cons.prems(1) r0] by simp
qed simp

lemma take_transactions_canonical:
  "wf_cursor c \<Longrightarrow> take_transactions lens acc c = Inr (ys, c') \<Longrightarrow>
    \<exists>txs. ys = acc @ txs \<and> map length txs = lens \<and> rest c = concat txs @ rest c'"
proof (induction lens arbitrary: c acc)
  case (Cons len lens)
  from Cons.prems(2) obtain tx c1 where t: "cursor_take ''pure_transaction_bytes'' len c = Inr (tx, c1)"
    and rec: "take_transactions lens (acc @ [tx]) c1 = Inr (ys, c')"
    by (auto simp: and_then_eq_Inr)
  note c1 = cursor_take_Inr[OF Cons.prems(1) t]
  from Cons.IH[OF c1(4) rec] obtain txs where
    "ys = acc @ tx # txs" "map length txs = lens" "rest c1 = concat txs @ rest c'" by auto
  with c1(1,2) show ?case by (intro exI[of _ "tx # txs"]) simp
qed simp

section \<open>The encoder in closed form\<close>

definition encodable :: "span_block list \<Rightarrow> bool" where
  "encodable blocks \<longleftrightarrow> blocks \<noteq> [] \<and> length blocks < 2 ^ 32 \<and>
     (\<forall>b \<in> set blocks. length (transactions b) < 2 ^ 32 \<and> length (extra_data b) \<le> max_extra_data \<and>
        (\<forall>tx \<in> set (transactions b). length tx < 2 ^ 32))"

definition all_txs :: "span_block list \<Rightarrow> bytes list" where
  "all_txs blocks = concat (map transactions blocks)"

definition span_bytes :: "span_block list \<Rightarrow> bytes" where
  "span_bytes blocks =
     payload_version_v0 # leb128 (length blocks)
     @ leb_column (map (\<lambda>b. length (transactions b)) blocks)
     @ enc_runs id (rle (map beneficiary blocks))
     @ enc_runs enc_extra (rle (map extra_data blocks))
     @ leb_column (map length (all_txs blocks))
     @ concat (all_txs blocks)"

lemma count_u32_Inr: "count_u32 what v = Inr n \<longleftrightarrow> v < 2 ^ 32 \<and> n = of_nat v"
  by (auto simp: count_u32_def)

lemma unat_of_nat_u32: "v < 2 ^ 32 \<Longrightarrow> unat (of_nat v :: u32) = v"
  by (simp add: unat_of_nat_lt)

lemma encode_counts_eq:
  "encode_counts out bs = Inr out' \<longleftrightarrow>
    (\<forall>b \<in> set bs. length (transactions b) < 2 ^ 32) \<and>
    out' = out @ leb_column (map (\<lambda>b. length (transactions b)) bs)"
  by (induction bs arbitrary: out)
    (auto simp: and_then_eq_Inr count_u32_Inr put_uvarint32_leb128 unat_of_nat_u32)

lemma encode_beneficiary_runs_eq:
  "encode_beneficiary_runs out rs = out @ enc_runs id (run_keys beneficiary rs)"
  by (induction out rs rule: encode_beneficiary_runs.induct)
    (simp_all add: run_keys_def put_uvarint32_leb128)

lemma extra_len_le:
  "l < 2 ^ 8 \<Longrightarrow> unat (of_nat l :: u8) > max_extra_data \<longleftrightarrow> l > max_extra_data"
  by (simp add: unat_of_nat_lt)

lemma encode_extra_runs_eq:
  "encode_extra_runs out rs = Inr out' \<longleftrightarrow>
    (\<forall>r \<in> set rs. length (extra_data (snd r)) \<le> max_extra_data) \<and>
    out' = out @ enc_runs enc_extra (run_keys extra_data rs)"
proof (induction out rs rule: encode_extra_runs.induct)
  case (2 out n b rs)
  show ?case
  proof (cases "length (extra_data b) \<le> max_extra_data")
    case True
    then have "\<not> length (extra_data b) \<ge> 2 ^ 8" by (simp add: max_extra_data_def)
    then show ?thesis
      using True 2 extra_len_le[of "length (extra_data b)"]
      by (auto simp: run_keys_def put_uvarint32_leb128 enc_extra_def)
  next
    case False
    then show ?thesis using extra_len_le[of "length (extra_data b)"] by (auto simp: Let_def)
  qed
qed (auto simp: run_keys_def)

lemma encode_lengths_eq:
  "encode_lengths out txs = Inr out' \<longleftrightarrow>
    (\<forall>tx \<in> set txs. length tx < 2 ^ 32) \<and> out' = out @ leb_column (map length txs)"
  by (induction txs arbitrary: out)
    (auto simp: and_then_eq_Inr count_u32_Inr put_uvarint32_leb128 unat_of_nat_u32)

lemma set_expand: "valid_runs rs \<Longrightarrow> set (expand rs) = set (map snd rs)"
  by (induction rs) (force simp: valid_runs_Cons)+

lemma set_rle: "set (map snd (rle xs)) = set xs"
  using set_expand[OF valid_runs_rle, of xs] by (simp only: expand_rle)

lemma runs_extra_bounded:
  assumes "length blocks < 2 ^ 32"
  shows "(\<forall>r \<in> set (runs blocks extra_data). length (extra_data (snd r)) \<le> m) \<longleftrightarrow>
    (\<forall>b \<in> set blocks. length (extra_data b) \<le> m)"
proof -
  have "set (map snd (run_keys extra_data (runs blocks extra_data))) = extra_data ` set blocks"
    using run_keys_runs[OF assms, of extra_data] set_rle[of "map extra_data blocks"] by simp
  then have "(\<lambda>r. extra_data (snd r)) ` set (runs blocks extra_data) = extra_data ` set blocks"
    by (simp add: run_keys_def image_image case_prod_unfold)
  then have "(\<forall>x \<in> (\<lambda>r. extra_data (snd r)) ` set (runs blocks extra_data). length x \<le> m) \<longleftrightarrow>
      (\<forall>x \<in> extra_data ` set blocks. length x \<le> m)" by (simp only:)
  then show ?thesis by (simp only: ball_simps)
qed

lemma encode_eq: "encode blocks = Inr bs \<longleftrightarrow> encodable blocks \<and> bs = span_bytes blocks"
proof (cases "blocks = [] \<or> length blocks \<ge> 2 ^ 32")
  case True
  then show ?thesis by (auto simp: encode_def encodable_def count_u32_def)
next
  case False
  then have len: "blocks \<noteq> []" "length blocks < 2 ^ 32" by auto
  have txs: "(\<forall>tx \<in> set (concat (map transactions blocks)). length tx < 2 ^ 32) \<longleftrightarrow>
      (\<forall>b \<in> set blocks. \<forall>tx \<in> set (transactions b). length tx < 2 ^ 32)" by auto
  have "encode blocks = Inr bs \<longleftrightarrow>
      (\<forall>b \<in> set blocks. length (transactions b) < 2 ^ 32) \<and>
      (\<forall>b \<in> set blocks. length (extra_data b) \<le> max_extra_data) \<and>
      (\<forall>b \<in> set blocks. \<forall>tx \<in> set (transactions b). length tx < 2 ^ 32) \<and> bs = span_bytes blocks"
    using len(2)
    by (simp only: encode_def len(1) if_False Let_def and_then_eq_Inr count_u32_Inr encode_counts_eq
        encode_extra_runs_eq encode_lengths_eq runs_extra_bounded txs encode_beneficiary_runs_eq
        run_keys_runs)
      (auto simp: span_bytes_def put_uvarint32_leb128 unat_of_nat_u32 all_txs_def)
  then show ?thesis unfolding encodable_def using len by blast
qed

section \<open>Decoding inverts encoding\<close>

definition columns :: "span_block list \<Rightarrow> decoded_span" where
  "columns blocks = \<lparr>block_tx_counts = map (\<lambda>b. of_nat (length (transactions b))) blocks,
     beneficiaries = map beneficiary blocks, extra_datas = map extra_data blocks,
     span_transactions = all_txs blocks\<rparr>"

text \<open>
  What the Rust types and the transaction format add to \<open>encodable\<close>: a beneficiary is a
  20-byte array, a raw transaction is not empty, and the payload fits the address space.
\<close>

definition well_typed_span :: "span_block list \<Rightarrow> bool" where
  "well_typed_span blocks \<longleftrightarrow>
     (\<forall>b \<in> set blocks. length (beneficiary b) = 20 \<and> [] \<notin> set (transactions b)) \<and>
     length (span_bytes blocks) < 2 ^ 64"

lemma step_over:
  assumes "wf_cursor c" "rest c = xs @ ys"
  shows "wf_cursor (advance (length xs) c)" "rest (advance (length xs) c) = ys"
    "remaining (advance (length xs) c) = length ys"
  using wf_advance_append[OF assms refl] rest_advance_append[OF assms(2) refl]
  by (simp_all add: length_rest[symmetric])

lemma sum_list_bound: "(\<And>x. x \<in> set xs \<Longrightarrow> x \<le> m) \<Longrightarrow> sum_list xs \<le> length xs * (m :: nat)"
proof (induction xs)
  case (Cons x xs)
  then have "x \<le> m" "sum_list xs \<le> length xs * m" by auto
  then show ?case by simp
qed simp

lemma sum_counts: "sum_list (map (\<lambda>b. length (transactions b)) blocks) = length (all_txs blocks)"
  by (simp add: all_txs_def length_concat comp_def)

lemma map_unat_of_nat_u32: "(\<And>x. x \<in> set xs \<Longrightarrow> f x < 2 ^ 32) \<Longrightarrow> map unat (map (\<lambda>x. of_nat (f x) :: u32) xs) = map f xs"
  by (auto simp: unat_of_nat_u32)

lemma decode_counts_blocks:
  assumes "encodable blocks" "wf_cursor c"
    "rest c = leb_column (map (\<lambda>b. length (transactions b)) blocks) @ r"
  shows "\<exists>t. decode_counts (length blocks) [] 0 c = Inr ((block_tx_counts (columns blocks), t),
      advance (length (leb_column (map (\<lambda>b. length (transactions b)) blocks))) c)
    \<and> unat t = length (all_txs blocks)"
proof -
  let ?xs = "map (\<lambda>b. of_nat (length (transactions b)) :: u32) blocks"
  have xs: "map unat ?xs = map (\<lambda>b. length (transactions b)) blocks"
    using assms(1) by (intro map_unat_of_nat_u32) (auto simp: encodable_def)
  have "sum_list (map (\<lambda>b. length (transactions b)) blocks) \<le> length blocks * (2 ^ 32 - 1)"
    using sum_list_bound[of "map (\<lambda>b. length (transactions b)) blocks" "2 ^ 32 - 1"] assms(1)
    by (fastforce simp: encodable_def)
  also have "\<dots> < 2 ^ 64" using assms(1) by (simp add: encodable_def)
  finally have "unat (0 :: u64) + sum_list (map unat ?xs) < 2 ^ 64" by (simp only: xs) simp
  from decode_counts_enc[OF assms(2) _ this, where r = r and acc = "[]"] assms(3) show ?thesis
    by (simp only: xs sum_counts) (simp add: columns_def)
qed

lemma decode_lengths_txs:
  assumes "\<And>tx. tx \<in> set txs \<Longrightarrow> length tx < 2 ^ 32 \<and> tx \<noteq> []" "wf_cursor c"
    "rest c = leb_column (map length txs) @ concat txs"
  shows "\<exists>t. decode_lengths (length txs) 0 [] 0 c
      = Inr ((map length txs, t), advance (length (leb_column (map length txs))) c)
    \<and> t = of_nat (length (concat txs))"
proof -
  let ?xs = "map (\<lambda>tx. of_nat (length tx) :: u32) txs"
  have xs: "map unat ?xs = map length txs"
    using assms(1) by (intro map_unat_of_nat_u32) auto
  have nz: "0 \<notin> set ?xs"
  proof
    assume "0 \<in> set ?xs"
    then obtain tx where "tx \<in> set txs" "(of_nat (length tx) :: u32) = 0" by auto
    with assms(1)[of tx] show False using unat_of_nat_u32[of "length tx"] by auto
  qed
  have sum: "sum_list (map unat ?xs) = length (concat txs)"
    by (simp only: xs) (simp add: length_concat)
  have "length (concat txs) < 2 ^ 64"
    using remaining_lt[OF assms(2)] assms(3) length_rest[of c] by simp
  then have "unat (0 :: u64) + sum_list (map unat ?xs) < 2 ^ 64" by (simp only: sum) simp
  from decode_lengths_enc[OF assms(2) _ nz this, where r = "concat txs" and acc = "[]" and i = 0] assms(3)
  obtain t where t: "decode_lengths (length txs) 0 [] 0 c
      = Inr ((map length txs, t), advance (length (leb_column (map length txs))) c)"
    "unat t = length (concat txs)"
    by (simp only: xs sum) (auto simp: length_concat)
  from t(2) have "t = of_nat (length (concat txs))" by (metis of_nat_unat_id)
  with t(1) show ?thesis by blast
qed

lemma txs_plausible:
  assumes "\<And>tx. tx \<in> set txs \<Longrightarrow> tx \<noteq> []"
  shows "length txs * 2 \<le> length (leb_column (map length txs) @ concat txs)"
proof -
  have "length txs \<le> length (concat txs)"
    using assms
  proof (induction txs)
    case (Cons tx txs)
    then have "length txs \<le> length (concat txs)" "1 \<le> length tx" by (simp_all add: Suc_le_eq)
    then show ?case by simp
  qed simp
  moreover have "length txs \<le> length (leb_column (map length txs))"
    using leb_column_length[of "map length txs"] by simp
  ultimately show ?thesis by simp
qed

lemma run_column:
  assumes "length xs < 2 ^ 32" "unat n = length xs"
  shows "length ([] :: 'a list) + sum_list (map fst (rle xs)) = unat n" "follows None (rle xs)"
  using assms(2) by (auto simp: sum_rle follows_def split: list.splits)

text \<open>
  The columns before the transactions are read back whatever the transactions are; what is left of
  the payload is the length column and the bytes.
\<close>

lemma decode_head:
  assumes enc: "encodable blocks" and ben: "\<forall>b \<in> set blocks. length (beneficiary b) = 20"
    and len: "length (span_bytes blocks) < 2 ^ 64"
  shows "\<exists>t c. wf_cursor c \<and> rest c = leb_column (map length (all_txs blocks)) @ concat (all_txs blocks)
    \<and> unat t = length (all_txs blocks)
    \<and> decode (span_bytes blocks) =
        and_then (check_plausible ''pure_transaction_counts'' t 2 c) (\<lambda>_.
        and_then (decode_lengths (unat t) 0 [] 0 c) (\<lambda>((lengths, total_bytes), c).
        if total_bytes \<noteq> of_nat (remaining c)
        then Inl (TxByteMismatch total_bytes (of_nat (remaining c)))
        else and_then (take_transactions lengths [] c) (\<lambda>(txs, c).
        if remaining c \<noteq> 0 then Inl (TrailingBytes (remaining c))
        else Inr \<lparr>block_tx_counts = block_tx_counts (columns blocks), beneficiaries = map beneficiary blocks,
                   extra_datas = map extra_data blocks, span_transactions = txs\<rparr>)))"
proof -
  let ?P2 = "leb_column (map (\<lambda>b. length (transactions b)) blocks)"
  let ?P3 = "enc_runs id (rle (map beneficiary blocks))"
  let ?P4 = "enc_runs enc_extra (rle (map extra_data blocks))"
  define n where "n = (of_nat (length blocks) :: u32)"
  have lb: "length blocks < 2 ^ 32" using enc by (simp add: encodable_def)
  then have n: "unat n = length blocks" by (simp add: n_def unat_of_nat_u32)
  then have n0: "n \<noteq> 0" using enc by (auto simp: encodable_def)
  define body where "body = tl (span_bytes blocks)"
  define c0 where "c0 = cursor_new body"
  have sb: "span_bytes blocks = payload_version_v0 # body" by (simp add: body_def span_bytes_def)
  have r0: "rest c0 = leb128 (unat n) @ (?P2 @ ?P3 @ ?P4 @ leb_column (map length (all_txs blocks))
      @ concat (all_txs blocks))"
    by (simp add: c0_def body_def span_bytes_def n)
  have wf0: "wf_cursor c0" using len by (simp add: c0_def body_def span_bytes_def)
  note s1 = step_over[OF wf0 r0]
  note s2 = step_over[OF s1(1,2)]
  note s3 = step_over[OF s2(1,2)]
  note s4 = step_over[OF s3(1,2)]
  have p1: "check_plausible ''block_count'' (ucast n) 1 (advance (length (leb128 (unat n))) c0) = Inr ()"
    using leb_column_length[of "map (\<lambda>b. length (transactions b)) blocks"]
    by (subst check_plausible_iff[OF s1(1)]) (simp_all add: unat_ucast_u32_u64 n s1(3)[unfolded n])
  obtain t where d2: "decode_counts (unat n) [] 0 (advance (length (leb128 (unat n))) c0)
      = Inr ((block_tx_counts (columns blocks), t), advance (length ?P2) (advance (length (leb128 (unat n))) c0))"
    and t: "unat t = length (all_txs blocks)"
    using decode_counts_blocks[OF enc s1(1,2)] by (auto simp: n)
  have d3: "decode_runs (take_array 20 ''beneficiary'') n ''beneficiary'' [] None
        (advance (length ?P2) (advance (length (leb128 (unat n))) c0))
      = Inr (map beneficiary blocks,
          advance (length ?P3) (advance (length ?P2) (advance (length (leb128 (unat n))) c0)))"
    using arr.decode_runs_enc[OF s2(1,2) valid_runs_rle run_column(2) _ run_column(1), of n 20] ben n lb
    by (simp add: expand_rle list_all_iff set_rle[unfolded set_map] del: advance_advance)
  have d4: "decode_runs read_extra n ''extra_data'' [] None
        (advance (length ?P3) (advance (length ?P2) (advance (length (leb128 (unat n))) c0)))
      = Inr (map extra_data blocks, advance (length ?P4)
          (advance (length ?P3) (advance (length ?P2) (advance (length (leb128 (unat n))) c0))))"
    using extra.decode_runs_enc[OF s3(1,2) valid_runs_rle run_column(2) _ run_column(1), of n] enc n lb
    by (simp add: expand_rle list_all_iff set_rle[unfolded set_map] encodable_def max_extra_data_def
        del: advance_advance)
  show ?thesis
    using uvarint32_leb128[OF wf0 r0] p1 d2 d3 d4 n0 s4(1,2) t
    by (intro exI[of _ t] exI[of _ "advance (length ?P4)
          (advance (length ?P3) (advance (length ?P2) (advance (length (leb128 (unat n))) c0)))"] conjI)
      (simp_all add: decode_def sb c0_def[symmetric] del: advance_advance)
qed

lemma decode_span_bytes:
  assumes enc: "encodable blocks" and wt: "well_typed_span blocks"
  shows "decode (span_bytes blocks) = Inr (columns blocks)"
proof -
  let ?txs = "all_txs blocks"
  let ?P5 = "leb_column (map length ?txs)"
  obtain t c where wf: "wf_cursor c" and r: "rest c = ?P5 @ concat ?txs" and t: "unat t = length ?txs"
    and d: "decode (span_bytes blocks) =
        and_then (check_plausible ''pure_transaction_counts'' t 2 c) (\<lambda>_.
        and_then (decode_lengths (unat t) 0 [] 0 c) (\<lambda>((lengths, total_bytes), c).
        if total_bytes \<noteq> of_nat (remaining c)
        then Inl (TxByteMismatch total_bytes (of_nat (remaining c)))
        else and_then (take_transactions lengths [] c) (\<lambda>(txs, c).
        if remaining c \<noteq> 0 then Inl (TrailingBytes (remaining c))
        else Inr \<lparr>block_tx_counts = block_tx_counts (columns blocks), beneficiaries = map beneficiary blocks,
                   extra_datas = map extra_data blocks, span_transactions = txs\<rparr>)))"
    using decode_head[OF enc] wt by (auto simp: well_typed_span_def)
  have tx_ok: "length tx < 2 ^ 32 \<and> tx \<noteq> []" if "tx \<in> set ?txs" for tx
    using that enc wt by (auto simp: all_txs_def encodable_def well_typed_span_def)
  note s = step_over[OF wf r]
  have "check_plausible ''pure_transaction_counts'' t 2 c = Inr ()"
    using txs_plausible[of ?txs] tx_ok by (subst check_plausible_iff[OF wf]) (simp_all add: t r length_rest[symmetric])
  moreover have "decode_lengths (unat t) 0 [] 0 c
      = Inr ((map length ?txs, of_nat (length (concat ?txs))), advance (length ?P5) c)"
    using decode_lengths_txs[OF tx_ok wf r] by (auto simp: t)
  moreover have "take_transactions (map length ?txs) [] (advance (length ?P5) c)
      = Inr (?txs, advance (length (concat ?txs)) (advance (length ?P5) c))"
    using take_transactions_enc[OF s(1), of ?txs "[]" "[]"] s(2) by simp
  moreover have "remaining (advance (length (concat ?txs)) (advance (length ?P5) c)) = 0"
    using step_over(3)[OF s(1), of "concat ?txs" "[]"] s(2) by simp
  ultimately show ?thesis using d s(3) by (simp add: columns_def del: advance_advance)
qed

text \<open>A length column with a zero in it is never accepted.\<close>

lemma decode_lengths_zero:
  fixes xs :: "u32 list"
  shows "wf_cursor c \<Longrightarrow> rest c = leb_column (map unat xs) @ r \<Longrightarrow> 0 \<in> set xs \<Longrightarrow>
    \<exists>e. decode_lengths (length xs) i acc tot c = Inl e"
proof (induction xs arbitrary: c i acc tot)
  case (Cons x xs)
  have r0: "rest c = leb128 (unat x) @ (leb_column (map unat xs) @ r)" using Cons.prems(2) by simp
  note s = step_over[OF Cons.prems(1) r0]
  have IH: "x \<noteq> 0 \<Longrightarrow> \<exists>e. decode_lengths (length xs) (Suc i) (acc @ [unat x]) t
      (advance (length (leb128 (unat x))) c) = Inl e" for t
    using Cons.IH[OF s(1,2)] Cons.prems(3) by auto
  show ?case
    using uvarint32_leb128[OF Cons.prems(1) r0] IH
    by (cases "x = 0"; cases "checked_add_word tot (ucast x)") (auto simp: ok_or_def)
qed simp

section \<open>The decoder accepts only canonical encodings\<close>

text \<open>The blocks a decoded span stands for: its transactions sliced by the count column.\<close>

fun rebuild :: "u32 list \<Rightarrow> bytes list \<Rightarrow> bytes list \<Rightarrow> bytes list \<Rightarrow> span_block list" where
  "rebuild (n # ns) (b # bs) (e # es) txs =
     \<lparr>beneficiary = b, extra_data = e, transactions = take (unat n) txs\<rparr>
     # rebuild ns bs es (drop (unat n) txs)"
| "rebuild _ _ _ _ = []"

definition blocks_of :: "decoded_span \<Rightarrow> span_block list" where
  "blocks_of d = rebuild (block_tx_counts d) (beneficiaries d) (extra_datas d) (span_transactions d)"

lemma rebuild_columns:
  assumes "length bs = length ns" "length es = length ns" "sum_list (map unat ns) = length txs"
  shows "map beneficiary (rebuild ns bs es txs) = bs" "map extra_data (rebuild ns bs es txs) = es"
    "map (\<lambda>b. length (transactions b)) (rebuild ns bs es txs) = map unat ns"
    "all_txs (rebuild ns bs es txs) = txs" "length (rebuild ns bs es txs) = length ns"
proof -
  have "map beneficiary (rebuild ns bs es txs) = bs \<and> map extra_data (rebuild ns bs es txs) = es \<and>
    map (\<lambda>b. length (transactions b)) (rebuild ns bs es txs) = map unat ns \<and>
    all_txs (rebuild ns bs es txs) = txs \<and> length (rebuild ns bs es txs) = length ns"
    using assms by (induction ns bs es txs rule: rebuild.induct) (auto simp: all_txs_def)
  then show "map beneficiary (rebuild ns bs es txs) = bs" "map extra_data (rebuild ns bs es txs) = es"
    "map (\<lambda>b. length (transactions b)) (rebuild ns bs es txs) = map unat ns"
    "all_txs (rebuild ns bs es txs) = txs" "length (rebuild ns bs es txs) = length ns" by blast+
qed

text \<open>What a successful decode establishes about the payload, column by column.\<close>

definition column_bytes :: "decoded_span \<Rightarrow> bytes" where
  "column_bytes d =
     payload_version_v0 # leb128 (block_count d) @ leb_column (map unat (block_tx_counts d))
     @ enc_runs id (rle (beneficiaries d)) @ enc_runs enc_extra (rle (extra_datas d))
     @ leb_column (map length (span_transactions d)) @ concat (span_transactions d)"

definition valid_span :: "decoded_span \<Rightarrow> bool" where
  "valid_span d \<longleftrightarrow> 0 < block_count d \<and> block_count d < 2 ^ 32
     \<and> length (beneficiaries d) = block_count d \<and> length (extra_datas d) = block_count d
     \<and> sum_list (map unat (block_tx_counts d)) = length (span_transactions d)
     \<and> (\<forall>b \<in> set (beneficiaries d). length b = 20)
     \<and> (\<forall>e \<in> set (extra_datas d). length e \<le> max_extra_data)
     \<and> (\<forall>tx \<in> set (span_transactions d). 0 < length tx \<and> length tx < 2 ^ 32)"

lemma unat_list_bounds:
  assumes "map length txs = map unat (xs :: u32 list)" "0 \<notin> set xs"
  shows "\<forall>tx \<in> set txs. 0 < length tx \<and> length tx < 2 ^ 32"
proof
  fix tx assume "tx \<in> set txs"
  then have "length tx \<in> set (map unat xs)" by (metis assms(1) image_eqI set_map)
  then obtain x where x: "x \<in> set xs" "length tx = unat x" by auto
  then have "x \<noteq> 0" using assms(2) by auto
  then have "0 < unat x" by (simp add: unat_gt_0)
  then show "0 < length tx \<and> length tx < 2 ^ 32" using x(2) unat_lt_len[of x] by simp
qed

lemma runs_values:
  assumes "valid_runs rs" "xs = [] @ expand rs" "list_all P (map snd rs)"
  shows "rle xs = rs" "\<forall>x \<in> set xs. P x"
  using assms by (simp_all add: rle_expand set_expand[unfolded set_map] list_all_iff)

lemma decode_columns:
  assumes "decode p = Inr d" "length p < 2 ^ 64"
  shows "p = column_bytes d \<and> valid_span d"
proof -
  from assms(1) obtain body n c1 counts total_txs c2 bens c3 extras c4 lens total_bytes c5 txs c6 where
    p: "p = payload_version_v0 # body" and n0: "n \<noteq> 0"
    and d1: "uvarint32 ''block_count'' (cursor_new body) = Inr (n, c1)"
    and d2: "decode_counts (unat n) [] 0 c1 = Inr ((counts, total_txs), c2)"
    and d3: "decode_runs (take_array 20 ''beneficiary'') n ''beneficiary'' [] None c2 = Inr (bens, c3)"
    and d4: "decode_runs read_extra n ''extra_data'' [] None c3 = Inr (extras, c4)"
    and d5: "decode_lengths (unat total_txs) 0 [] 0 c4 = Inr ((lens, total_bytes), c5)"
    and d6: "take_transactions lens [] c5 = Inr (txs, c6)"
    and rem: "remaining c6 = 0"
    and d: "d = \<lparr>block_tx_counts = counts, beneficiaries = bens, extra_datas = extras, span_transactions = txs\<rparr>"
    by (auto simp: decode_def and_then_eq_Inr split: list.splits if_splits)
  have wf0: "wf_cursor (cursor_new body)" using assms(2) p by simp
  have r0: "rest (cursor_new body) = leb128 (unat n) @ rest c1"
    and c1: "c1 = advance (length (leb128 (unat n))) (cursor_new body)"
    using uvarint32_canonical[OF wf0 d1] by blast+
  have wf1: "wf_cursor c1" unfolding c1 using wf0 r0 refl by (rule wf_advance_append)
  from decode_counts_canonical[OF wf1 d2] have
    s2: "length counts = unat n" "rest c1 = leb_column (map unat counts) @ rest c2" "wf_cursor c2"
      "unat total_txs = sum_list (map unat counts)" by auto
  from arr.decode_runs_canonical[OF s2(3) d3] obtain rb where
    s3: "bens = [] @ expand rb" "valid_runs rb" "list_all (\<lambda>bs. length bs = 20) (map snd rb)"
      "length bens = unat n" "rest c2 = enc_runs id rb @ rest c3" "wf_cursor c3" by auto
  from extra.decode_runs_canonical[OF s3(6) d4] obtain re where
    s4: "extras = [] @ expand re" "valid_runs re" "list_all (\<lambda>bs. length bs \<le> 32) (map snd re)"
      "length extras = unat n" "rest c3 = enc_runs enc_extra re @ rest c4" "wf_cursor c4" by auto
  from decode_lengths_canonical[OF s4(6) d5] obtain ls :: "u32 list" where
    s5: "lens = map unat ls" "length ls = unat total_txs" "0 \<notin> set ls"
      "rest c4 = leb_column (map unat ls) @ rest c5" "wf_cursor c5" by auto
  from take_transactions_canonical[OF s5(5) d6] s5(1) have
    s6: "map length txs = map unat ls" "rest c5 = concat txs @ rest c6" by auto
  have r6: "rest c6 = []" using rem length_rest[of c6] by simp
  have "length txs = length ls" using s6(1) by (metis length_map)
  then have sum: "sum_list (map unat counts) = length txs" using s2(4) s5(2) by simp
  have "p = column_bytes d"
    unfolding p column_bytes_def block_count_def d
    using r0[unfolded rest_new] s2(1,2) s3(5) s4(5) s5(4) s6 r6 runs_values(1)[OF s3(2,1,3)] runs_values(1)[OF s4(2,1,3)]
    by simp
  moreover have "valid_span d"
    unfolding valid_span_def block_count_def d
    using n0 s2(1) unat_lt_len[of n] s3(4) s4(4) sum runs_values(2)[OF s3(2,1,3)]
      runs_values(2)[OF s4(2,1,3)] unat_list_bounds[OF s6(1) s5(3)]
    by (simp add: max_extra_data_def unat_gt_0)
  ultimately show ?thesis ..
qed

lemma blocks_of_columns:
  assumes "valid_span d"
  shows "columns (blocks_of d) = d" "span_bytes (blocks_of d) = column_bytes d" "encodable (blocks_of d)"
proof -
  let ?b = "blocks_of d"
  have r: "map beneficiary ?b = beneficiaries d" "map extra_data ?b = extra_datas d"
    "map (\<lambda>b. length (transactions b)) ?b = map unat (block_tx_counts d)"
    "all_txs ?b = span_transactions d" "length ?b = block_count d"
    using assms rebuild_columns[of "beneficiaries d" "block_tx_counts d" "extra_datas d" "span_transactions d"]
    by (simp_all add: blocks_of_def valid_span_def block_count_def)
  have "map (\<lambda>b. of_nat (length (transactions b)) :: u32) ?b = map of_nat (map (\<lambda>b. length (transactions b)) ?b)"
    by simp
  also have "\<dots> = block_tx_counts d" unfolding r(3) by (simp add: comp_def of_nat_unat_id del: of_nat_unat)
  finally show "columns ?b = d" using r by (simp add: columns_def)
  show "span_bytes ?b = column_bytes d"
    unfolding span_bytes_def column_bytes_def r ..
  have "length (transactions b) < 2 ^ 32" if "b \<in> set ?b" for b
  proof -
    have "length (transactions b) \<in> set (map unat (block_tx_counts d))" using that r(3) by (metis image_eqI list.set_map)
    then show ?thesis using unat_lt_len[where 'a = 32] by auto
  qed
  moreover have "length (extra_data b) \<le> max_extra_data" if "b \<in> set ?b" for b
    using that assms r(2) by (metis image_eqI list.set_map valid_span_def)
  moreover have "length tx < 2 ^ 32" if "b \<in> set ?b" "tx \<in> set (transactions b)" for b tx
  proof -
    have "tx \<in> set (all_txs ?b)" using that by (auto simp: all_txs_def)
    then show ?thesis using assms r(4) by (auto simp: valid_span_def)
  qed
  ultimately show "encodable ?b" using assms r(5) by (auto simp: encodable_def valid_span_def)
qed

section \<open>Properties\<close>

text \<open>
  C9. Decoding inverts encoding: a payload \<open>encode\<close> produces from well-typed blocks is
  accepted by \<open>decode\<close>, and the decoded columns are exactly the blocks' transaction counts,
  beneficiaries, extra data and transactions, in order.
\<close>

theorem span_round_trip:
  assumes "encode blocks = Inr bs" "well_typed_span blocks"
  shows "decode bs = Inr (columns blocks)"
  using assms decode_span_bytes by (auto simp: encode_eq)

definition example_blocks :: "span_block list" where
  "example_blocks =
     [\<lparr>beneficiary = replicate 20 0x11, extra_data = [], transactions = [[0x02, 0xf8, 0x6c]]\<rparr>,
      \<lparr>beneficiary = replicate 20 0x11, extra_data = [0x07], transactions = []\<rparr>]"

lemma example_blocks_ok: "encodable example_blocks" "well_typed_span example_blocks"
  by (simp_all add: example_blocks_def encodable_def well_typed_span_def span_bytes_def all_txs_def
      max_extra_data_def leb128_small enc_extra_def)

theorem span_round_trip_witness:
  "\<exists>bs. encode example_blocks = Inr bs \<and> decode bs = Inr (columns example_blocks)"
proof -
  have e: "encode example_blocks = Inr (span_bytes example_blocks)"
    using example_blocks_ok(1) by (simp add: encode_eq)
  show ?thesis using e span_round_trip[OF e example_blocks_ok(2)] by blast
qed

text \<open>
  C7. The decoder is canonical: every payload \<open>decode\<close> accepts is the encoding of the blocks
  it decodes to, so no two different payloads decode to the same span.
\<close>

theorem span_decode_canonical:
  assumes "decode p = Inr d" "length p < 2 ^ 64"
  shows "encode (blocks_of d) = Inr p \<and> columns (blocks_of d) = d"
  using decode_columns[OF assms] blocks_of_columns[of d] by (auto simp: encode_eq)

theorem span_decode_canonical_witness:
  "\<exists>p d. decode p = Inr d \<and> encode (blocks_of d) = Inr p \<and> columns (blocks_of d) = d"
proof -
  let ?p = "span_bytes example_blocks"
  have d: "decode ?p = Inr (columns example_blocks)"
    using example_blocks_ok by (rule decode_span_bytes)
  have len: "length ?p < 2 ^ 64" using example_blocks_ok(2) by (simp add: well_typed_span_def)
  show ?thesis using d span_decode_canonical[OF d len] by blast
qed

text \<open>
  C33. The encoder does not check the grammar's rule that a transaction is not empty: such a span
  is encoded without an error, and the payload is one the decoder always rejects.
\<close>

theorem encode_accepts_empty_transaction:
  assumes "encodable blocks" "\<forall>b \<in> set blocks. length (beneficiary b) = 20"
    and "length (span_bytes blocks) < 2 ^ 64" "[] \<in> set (all_txs blocks)"
  shows "\<exists>p e. encode blocks = Inr p \<and> decode p = Inl e"
proof -
  let ?xs = "map (\<lambda>tx. of_nat (length tx) :: u32) (all_txs blocks)"
  have xs: "map unat ?xs = map length (all_txs blocks)"
    using assms(1) by (intro map_unat_of_nat_u32) (auto simp: encodable_def all_txs_def)
  have z: "0 \<in> set ?xs" using assms(4) by force
  obtain t c K where wf: "wf_cursor c" and r: "rest c = leb_column (map length (all_txs blocks)) @ concat (all_txs blocks)"
    and t: "unat t = length (all_txs blocks)"
    and d: "decode (span_bytes blocks) = and_then (check_plausible ''pure_transaction_counts'' t 2 c) (\<lambda>_.
      and_then (decode_lengths (unat t) 0 [] 0 c) K)"
    using decode_head[OF assms(1-3)] by (elim exE conjE) (rule that)
  from decode_lengths_zero[OF wf _ z, of "concat (all_txs blocks)" 0 "[]" 0] r
  obtain e where "decode_lengths (unat t) 0 [] 0 c = Inl e" by (auto simp only: xs t length_map)
  with d have "\<exists>e. decode (span_bytes blocks) = Inl e"
    by (cases "check_plausible ''pure_transaction_counts'' t 2 c") auto
  then show ?thesis using assms(1) by (auto simp: encode_eq)
qed

definition empty_tx_blocks :: "span_block list" where
  "empty_tx_blocks = [\<lparr>beneficiary = replicate 20 0x11, extra_data = [], transactions = [[0x02, 0xf8, 0x6c], []]\<rparr>]"

theorem encode_accepts_empty_transaction_witness:
  "\<exists>p e. encode empty_tx_blocks = Inr p \<and> decode p = Inl e"
  by (rule encode_accepts_empty_transaction)
    (simp_all add: empty_tx_blocks_def encodable_def all_txs_def max_extra_data_def span_bytes_def
      leb128_small enc_extra_def)

end
