(* ===== verification/Container_Codec.thy ===== *)
theory Container_Codec
  imports Span_Codec
begin

text \<open>
  The EEZ message stream of \<^verbatim>\<open>crates/eez-payload-codec/src/container.rs\<close>: one
  \<open>ChainOperation\<close> carrying the block span, then one \<open>Initiate | Call | Return | Finish\<close>
  bracket per action. The \<open>warn!\<close> log lines have no effect on the result and are not
  modelled. The lemmas show that decoding inverts encoding, that whatever is accepted re-encodes to
  a stream of the same meaning that is no longer, and that no action leaves the stream's own rollup
  and Layer 1.
\<close>

section \<open>Data\<close>

definition stream_version :: u8 where "stream_version = 0x00"
definition msg_chain_operation :: u8 where "msg_chain_operation = 2"
definition msg_initiate :: u8 where "msg_initiate = 3"
definition msg_call :: u8 where "msg_call = 4"
definition msg_return_success :: u8 where "msg_return_success = 6"
definition msg_return_fail :: u8 where "msg_return_fail = 7"
definition msg_finish :: u8 where "msg_finish = 10"

definition value_bytes :: nat where "value_bytes = 32"

record action =
  act_source_rollup_id :: u64
  act_target_rollup_id :: u64
  act_source_address :: bytes
  act_target_address :: bytes
  act_value :: bytes
  act_gas :: u64
  act_data :: bytes
  act_success :: bool
  act_return_data :: bytes

record decoded_container =
  con_rollup_id :: u64
  con_span :: decoded_span
  con_actions :: "action list"

section \<open>Field helpers\<close>

definition validate_target_rollup :: "u64 \<Rightarrow> u64 \<Rightarrow> unit codec_result" where
  "validate_target_rollup rollup_id target =
     (if target \<noteq> 0 \<and> target \<noteq> rollup_id then Inl (InvalidTargetRollup rollup_id target) else Inr ())"

definition expect_message :: "u8 \<Rightarrow> cursor \<Rightarrow> (unit \<times> cursor) codec_result" where
  "expect_message expected c =
     and_then (cursor_byte ''message type'' c) (\<lambda>(b, c').
       if b \<noteq> expected then Inl (UnexpectedMessage expected) else Inr ((), c'))"

definition put_bytes :: "bytes \<Rightarrow> bytes \<Rightarrow> bytes codec_result" where
  "put_bytes out v =
     (if length v < 2 ^ 32
      then Inr (put_varint out (ucast (of_nat (length v) :: u32)) @ v)
      else Inl (ValueTooLarge ''bytes length'' (of_nat (length v))))"

definition take_bytes :: "string \<Rightarrow> cursor \<Rightarrow> (bytes \<times> cursor) codec_result" where
  "take_bytes what c = and_then (varint what c) (\<lambda>(len, c'). cursor_take what (unat len) c')"

definition reversed :: "bytes \<Rightarrow> bytes" where
  "reversed v = rev v"

section \<open>Encoding\<close>

definition encode_action :: "bytes \<Rightarrow> action \<Rightarrow> bytes codec_result" where
  "encode_action out a =
     and_then (put_bytes (out @ [msg_initiate] @ le_bytes 8 (act_source_rollup_id a)) []) (\<lambda>out.
     and_then (put_bytes (out @ [msg_call] @ le_bytes 8 (act_target_rollup_id a)
         @ act_source_address a @ act_target_address a @ reversed (act_value a)
         @ le_bytes 8 (act_gas a)) (act_data a)) (\<lambda>out.
     and_then (put_bytes (out @ [if act_success a then msg_return_success else msg_return_fail])
         (act_return_data a)) (\<lambda>out.
     Inr (out @ [msg_finish]))))"

fun encode_actions :: "bytes \<Rightarrow> action list \<Rightarrow> bytes codec_result" where
  "encode_actions out [] = Inr out"
| "encode_actions out (a # as) = and_then (encode_action out a) (\<lambda>out. encode_actions out as)"

fun validate_targets :: "u64 \<Rightarrow> action list \<Rightarrow> unit codec_result" where
  "validate_targets rollup_id [] = Inr ()"
| "validate_targets rollup_id (a # as) =
     and_then (validate_target_rollup rollup_id (act_target_rollup_id a)) (\<lambda>_. validate_targets rollup_id as)"

definition encode_container :: "u64 \<Rightarrow> span_block list \<Rightarrow> action list \<Rightarrow> bytes codec_result" where
  "encode_container rollup_id blocks actions =
     and_then (encode blocks) (\<lambda>operations.
     and_then (validate_targets rollup_id actions) (\<lambda>_.
     and_then (put_bytes ([stream_version, msg_chain_operation] @ le_bytes 8 rollup_id) operations) (\<lambda>out.
     encode_actions out actions)))"

section \<open>Decoding\<close>

definition return_outcome :: "u8 \<Rightarrow> bool codec_result" where
  "return_outcome tag =
     (if tag = msg_return_success then Inr True
      else if tag = msg_return_fail then Inr False
      else Inl (UnknownMessage tag))"

definition decode_action :: "u64 \<Rightarrow> cursor \<Rightarrow> (action \<times> cursor) codec_result" where
  "decode_action rollup_id c =
     and_then (expect_message msg_initiate c) (\<lambda>(_, c).
     and_then (take_array 8 ''initiate chain_id'' c) (\<lambda>(source_rollup, c).
     and_then (take_bytes ''tx_data'' c) (\<lambda>(tx_data, c).
     if tx_data \<noteq> [] then Inl NonEmptyTransactionData else
     and_then (expect_message msg_call c) (\<lambda>(_, c).
     and_then (take_array 8 ''to_chain'' c) (\<lambda>(target_rollup, c).
     and_then (validate_target_rollup rollup_id (of_le_bytes target_rollup)) (\<lambda>_.
     and_then (take_array 20 ''from_address'' c) (\<lambda>(source_address, c).
     and_then (take_array 20 ''to_address'' c) (\<lambda>(target_address, c).
     and_then (take_array value_bytes ''value'' c) (\<lambda>(v, c).
     and_then (take_array 8 ''gas'' c) (\<lambda>(gas, c).
     and_then (take_bytes ''data'' c) (\<lambda>(data, c).
     and_then (cursor_byte ''return message'' c) (\<lambda>(tag, c).
     and_then (return_outcome tag) (\<lambda>success.
     and_then (take_bytes ''return_data'' c) (\<lambda>(return_data, c).
     and_then (expect_message msg_finish c) (\<lambda>(_, c).
     Inr (\<lparr>act_source_rollup_id = of_le_bytes source_rollup,
           act_target_rollup_id = of_le_bytes target_rollup,
           act_source_address = source_address, act_target_address = target_address,
           act_value = reversed v, act_gas = of_le_bytes gas, act_data = data,
           act_success = success, act_return_data = return_data\<rparr>, c))))))))))))))))"

text \<open>Every reader of the stream moves forward inside the body; the loop over actions ends because of it.\<close>

lemma cursor_take_forward:
  "cursor_take what n c = Inr (bs, c') \<Longrightarrow>
    cur_body c' = cur_body c \<and> cur_at c' = cur_at c + n \<and> cur_at c' \<le> length (cur_body c)"
  by (auto simp: cursor_take_def Let_def split: if_splits)

lemma cursor_byte_forward:
  "cursor_byte what c = Inr (b, c') \<Longrightarrow>
    cur_body c' = cur_body c \<and> cur_at c' = Suc (cur_at c) \<and> cur_at c' \<le> length (cur_body c)"
  by (auto simp: cursor_byte_def and_then_eq_Inr dest: cursor_take_forward)

lemma expect_message_forward:
  "expect_message m c = Inr (u, c') \<Longrightarrow>
    cur_body c' = cur_body c \<and> cur_at c' = Suc (cur_at c) \<and> cur_at c' \<le> length (cur_body c)"
  by (auto simp: expect_message_def and_then_eq_Inr split: if_splits dest: cursor_byte_forward)

lemma varint_loop_forward:
  "varint_loop what i acc c = Inr (v, c') \<Longrightarrow>
    cur_body c' = cur_body c \<and> cur_at c < cur_at c' \<and> cur_at c' \<le> length (cur_body c)"
proof (induction what i acc c arbitrary: v c' rule: varint_loop.induct)
  case (1 what i acc c)
  from "1.prems" have i: "i < max_uvarint32_bytes"
    by (simp add: varint_loop.simps[of what i acc c] split: if_splits)
  with "1.prems" obtain b c1 where b: "cursor_byte what c = Inr (b, c1)"
    by (auto simp: varint_loop.simps[of what i acc c] and_then_eq_Inr)
  note f = cursor_byte_forward[OF b]
  let ?acc = "acc OR push_bit (7 * i) (ucast (b AND 0x7f :: byte))"
  have "c' = c1 \<or> varint_loop what (Suc i) ?acc c1 = Inr (v, c')"
    using "1.prems" i b by (auto simp: varint_loop.simps[of what i acc c] Let_def split: if_splits)
  then show ?case
  proof
    assume "c' = c1"
    then show ?thesis using f by simp
  next
    assume rec: "varint_loop what (Suc i) ?acc c1 = Inr (v, c')"
    have "\<not> (i = max_uvarint32_bytes - 1 \<and> (ucast (b AND 0x7f :: byte) :: u64) > 0x0f)"
      "b AND 0x80 \<noteq> 0 \<or> c' = c1"
      using "1.prems" i b by (auto simp: varint_loop.simps[of what i acc c] Let_def split: if_splits)
    then show ?thesis
      using "1.IH"[OF i b refl refl _ refl _ rec] f by (cases "b AND 0x80 = 0") auto
  qed
qed

lemma take_bytes_forward:
  assumes "take_bytes what c = Inr (v, c')"
  shows "cur_body c' = cur_body c \<and> cur_at c < cur_at c' \<and> cur_at c' \<le> length (cur_body c)"
proof -
  from assms obtain l c1 where v: "varint what c = Inr (l, c1)" and t: "cursor_take what (unat l) c1 = Inr (v, c')"
    by (auto simp: take_bytes_def and_then_eq_Inr)
  from varint_loop_forward[OF v[unfolded varint_def]] cursor_take_forward[OF t] show ?thesis by auto
qed

lemma take_array_forward:
  "take_array n what c = Inr (bs, c') \<Longrightarrow>
    cur_body c' = cur_body c \<and> cur_at c' = cur_at c + n \<and> cur_at c' \<le> length (cur_body c)"
  by (auto simp: take_array_def dest: cursor_take_forward)

lemma return_outcome_Inr:
  "return_outcome tag = Inr s \<longleftrightarrow> tag = (if s then msg_return_success else msg_return_fail)"
  by (auto simp: return_outcome_def msg_return_success_def msg_return_fail_def)

lemma decode_action_elim:
  assumes "decode_action rollup_id c = Inr (a, c')"
  obtains c1 sr c2 c3 c4 tr c5 sa c6 ta c7 v c8 g c9 d c10 tag c11 s rd c12 where
    "expect_message msg_initiate c = Inr ((), c1)" "take_array 8 ''initiate chain_id'' c1 = Inr (sr, c2)"
    "take_bytes ''tx_data'' c2 = Inr ([], c3)" "expect_message msg_call c3 = Inr ((), c4)"
    "take_array 8 ''to_chain'' c4 = Inr (tr, c5)" "validate_target_rollup rollup_id (of_le_bytes tr) = Inr ()"
    "take_array 20 ''from_address'' c5 = Inr (sa, c6)" "take_array 20 ''to_address'' c6 = Inr (ta, c7)"
    "take_array value_bytes ''value'' c7 = Inr (v, c8)" "take_array 8 ''gas'' c8 = Inr (g, c9)"
    "take_bytes ''data'' c9 = Inr (d, c10)" "cursor_byte ''return message'' c10 = Inr (tag, c11)"
    "return_outcome tag = Inr s"
    "take_bytes ''return_data'' c11 = Inr (rd, c12)" "expect_message msg_finish c12 = Inr ((), c')"
    "a = \<lparr>act_source_rollup_id = of_le_bytes sr, act_target_rollup_id = of_le_bytes tr,
           act_source_address = sa, act_target_address = ta, act_value = reversed v,
           act_gas = of_le_bytes g, act_data = d, act_success = s,
           act_return_data = rd\<rparr>"
  using assms
  by (auto simp: decode_action_def and_then_eq_Inr split: if_splits)

lemma decode_action_forward:
  assumes "decode_action rollup_id c = Inr (a, c')"
  shows "cur_body c' = cur_body c \<and> cur_at c < cur_at c' \<and> cur_at c' \<le> length (cur_body c)"
  using assms
  by (elim decode_action_elim)
    (auto dest!: expect_message_forward take_array_forward take_bytes_forward cursor_byte_forward)

function decode_actions :: "u64 \<Rightarrow> action list \<Rightarrow> cursor \<Rightarrow> (action list \<times> cursor) codec_result" where
  "decode_actions rollup_id actions c =
     (if remaining c \<noteq> 0 then
        and_then (decode_action rollup_id c) (\<lambda>(a, c'). decode_actions rollup_id (actions @ [a]) c')
      else Inr (actions, c))"
  by pat_completeness auto
termination
  by (relation "measure (\<lambda>(_, _, c). remaining c)")
    (auto simp: remaining_def dest!: decode_action_forward)

declare decode_actions.simps [simp del]

definition decode_container :: "bytes \<Rightarrow> decoded_container codec_result" where
  "decode_container payload = (case payload of
     [] \<Rightarrow> Inl Empty
   | version # body \<Rightarrow>
      if version \<noteq> stream_version then Inl (UnsupportedVersion version)
      else and_then (expect_message msg_chain_operation (cursor_new body)) (\<lambda>(_, c).
        and_then (take_array 8 ''chain_id'' c) (\<lambda>(rid, c).
        and_then (take_bytes ''operations'' c) (\<lambda>(operations, c).
        and_then (decode operations) (\<lambda>span.
        and_then (decode_actions (of_le_bytes rid) [] c) (\<lambda>(actions, c).
        Inr \<lparr>con_rollup_id = of_le_bytes rid, con_span = span, con_actions = actions\<rparr>))))))"

section \<open>Field codecs\<close>

definition enc_bytes :: "bytes \<Rightarrow> bytes" where
  "enc_bytes v = leb128 (length v) @ v"

lemma put_bytes_Inr: "put_bytes out v = Inr out' \<longleftrightarrow> length v < 2 ^ 32 \<and> out' = out @ enc_bytes v"
  by (auto simp: put_bytes_def put_varint_leb128 enc_bytes_def unat_ucast_u32_u64 unat_of_nat_u32)

lemma take_bytes_enc:
  assumes "wf_cursor c" "length v < 2 ^ 32" "rest c = enc_bytes v @ r"
  shows "take_bytes what c = Inr (v, advance (length (enc_bytes v)) c)"
proof -
  let ?n = "of_nat (length v) :: u32"
  have n: "unat ?n = length v" using assms(2) by (rule unat_of_nat_u32)
  have r0: "rest c = leb128 (unat ?n) @ (v @ r)" using assms(3) by (simp add: enc_bytes_def n)
  note s = step_over[OF assms(1) r0]
  have "cursor_take what (length v) (advance (length (leb128 (unat ?n))) c)
      = Inr (v, advance (length v) (advance (length (leb128 (unat ?n))) c))"
    by (rule cursor_take_append[OF s(1,2) refl])
  then show ?thesis
    using varint_leb128[OF assms(1) r0, of what] by (simp add: take_bytes_def n enc_bytes_def)
qed

lemma take_bytes_consumes:
  assumes "wf_cursor c" "take_bytes what c = Inr (v, c')"
  shows "length v < 2 ^ 32 \<and> (\<exists>p. rest c = p @ rest c' \<and> c' = advance (length p) c
    \<and> length (enc_bytes v) \<le> length p)"
proof -
  from assms(2) obtain l c1 where v: "varint what c = Inr (l, c1)" and t: "cursor_take what (unat l) c1 = Inr (v, c')"
    by (auto simp: take_bytes_def and_then_eq_Inr)
  obtain p where p: "rest c = p @ rest c1" "c1 = advance (length p) c" "length (leb128 (unat l)) \<le> length p"
    using varint_consumes[OF assms(1) v] by blast
  have wf1: "wf_cursor c1" unfolding p(2) using assms(1) p(1) refl by (rule wf_advance_append)
  note s = cursor_take_Inr[OF wf1 t]
  have "rest c = (p @ v) @ rest c'" unfolding p(1) s(2) by simp
  moreover have "c' = advance (length (p @ v)) c" unfolding s(3) p(2) by (simp add: s(1))
  moreover have "length (enc_bytes v) \<le> length (p @ v)" using p(3) s(1) by (simp add: enc_bytes_def)
  ultimately show ?thesis using s(1) unat_lt_len[of l] by auto
qed

interpretation bytes_field: field_codec enc_bytes "take_bytes what" "\<lambda>v. length v < 2 ^ 32" for what
  by unfold_locales (blast intro: take_bytes_enc dest: take_bytes_consumes)+

section \<open>The action bracket\<close>

definition enc_action :: "action \<Rightarrow> bytes" where
  "enc_action a =
     [msg_initiate] @ le_bytes 8 (act_source_rollup_id a) @ enc_bytes []
     @ [msg_call] @ le_bytes 8 (act_target_rollup_id a) @ act_source_address a @ act_target_address a
     @ reversed (act_value a) @ le_bytes 8 (act_gas a) @ enc_bytes (act_data a)
     @ [if act_success a then msg_return_success else msg_return_fail] @ enc_bytes (act_return_data a)
     @ [msg_finish]"

definition ok_action :: "u64 \<Rightarrow> action \<Rightarrow> bool" where
  "ok_action rollup_id a \<longleftrightarrow>
     length (act_source_address a) = 20 \<and> length (act_target_address a) = 20
     \<and> length (act_value a) = value_bytes
     \<and> (act_target_rollup_id a = 0 \<or> act_target_rollup_id a = rollup_id)
     \<and> length (act_data a) < 2 ^ 32 \<and> length (act_return_data a) < 2 ^ 32"

lemma expect_message_enc:
  assumes "wf_cursor c" "rest c = [m] @ r"
  shows "expect_message m c = Inr ((), advance 1 c)"
  using cursor_byte_Cons[OF assms(1), of m r] assms(2) by (simp add: expect_message_def)

lemma expect_message_Inr:
  assumes "wf_cursor c" "expect_message m c = Inr (u, c')"
  shows "rest c = [m] @ rest c'" "wf_cursor c'" "c' = advance 1 c"
  using assms cursor_byte_Inr[OF assms(1), of "''message type''" m c']
  by (auto simp: expect_message_def and_then_eq_Inr split: if_splits)

lemma take_array_enc:
  assumes "wf_cursor c" "rest c = v @ r" "length v = n"
  shows "take_array n what c = Inr (v, advance (length v) c)"
  using cursor_take_append[OF assms] assms(3) by (simp add: take_array_def)

lemma of_le_bytes_u64 [simp]: "of_le_bytes (le_bytes 8 w) = (w :: u64)"
  by (rule of_le_bytes_le_bytes) simp

lemma le_bytes_u64: "length bs = 8 \<Longrightarrow> le_bytes 8 (of_le_bytes bs :: u64) = bs"
  using le_bytes_of_le_bytes[of bs, where 'a = 64] by simp

lemma decode_action_enc:
  assumes wf0: "wf_cursor c" and ok: "ok_action rollup_id a" and r0: "rest c = enc_action a @ r"
  shows "decode_action rollup_id c = Inr (a, advance (length (enc_action a)) c)"
proof -
  let ?tag = "if act_success a then msg_return_success else msg_return_fail"
  note r0 = r0[unfolded enc_action_def append_assoc]
  note o = ok[unfolded ok_action_def]
  note s1 = step_over[OF wf0 r0]
  note s2 = step_over[OF s1(1,2)]
  note s3 = step_over[OF s2(1,2)]
  note s4 = step_over[OF s3(1,2)]
  note s5 = step_over[OF s4(1,2)]
  note s6 = step_over[OF s5(1,2)]
  note s7 = step_over[OF s6(1,2)]
  note s8 = step_over[OF s7(1,2)]
  note s9 = step_over[OF s8(1,2)]
  note s10 = step_over[OF s9(1,2)]
  note s11 = step_over[OF s10(1,2)]
  note s12 = step_over[OF s11(1,2)]
  have tag: "return_outcome ?tag = Inr (act_success a)" by (simp add: return_outcome_Inr)
  have "decode_action rollup_id c =
    Inr (a\<lparr>act_value := reversed (reversed (act_value a))\<rparr>,
      advance 1 (advance (length (enc_bytes (act_return_data a))) (advance 1
       (advance (length (enc_bytes (act_data a))) (advance 8 (advance 32 (advance 20 (advance 20
       (advance 8 (advance 1 (advance (length (enc_bytes [])) (advance 8 (advance 1 c)))))))))))))"
    using expect_message_enc[OF wf0 r0]
      take_array_enc[OF s1(1,2), of 8 "''initiate chain_id''"]
      take_bytes_enc[OF s2(1) _ s2(2), of "''tx_data''"]
      expect_message_enc[OF s3(1,2)]
      take_array_enc[OF s4(1,2), of 8 "''to_chain''"]
      take_array_enc[OF s5(1,2), of 20 "''from_address''"]
      take_array_enc[OF s6(1,2), of 20 "''to_address''"]
      take_array_enc[OF s7(1,2), of value_bytes "''value''"]
      take_array_enc[OF s8(1,2), of 8 "''gas''"]
      take_bytes_enc[OF s9(1) _ s9(2), of "''data''"]
      cursor_byte_Cons[OF s10(1) s10(2)[unfolded append.simps], of "''return message''"]
      take_bytes_enc[OF s11(1) _ s11(2), of "''return_data''"]
      expect_message_enc[OF s12(1), of msg_finish r] s12(2) o tag
    by (simp add: decode_action_def validate_target_rollup_def value_bytes_def reversed_def del: advance_advance)
  also have "\<dots> = Inr (a, advance (length (enc_action a)) c)"
    using o by (simp add: enc_action_def reversed_def value_bytes_def add_ac)
  finally show ?thesis .
qed

text \<open>Conversely an accepted bracket is well typed, and no shorter than its re-encoding.\<close>

lemma forward_prefix:
  assumes "wf_cursor c" "cur_body c' = cur_body c" "cur_at c + n \<le> cur_at c'" "cur_at c' \<le> length (cur_body c)"
  shows "\<exists>p. rest c = p @ rest c' \<and> c' = advance (length p) c \<and> n \<le> length p"
proof (intro exI conjI)
  let ?p = "take (cur_at c' - cur_at c) (rest c)"
  have len: "length ?p = cur_at c' - cur_at c" using assms by (simp add: rest_def)
  have "rest c' = drop (cur_at c' - cur_at c) (rest c)" using assms by (simp add: rest_def)
  then show "rest c = ?p @ rest c'" by simp
  show "c' = advance (length ?p) c" unfolding len using assms by (simp add: advance_def)
  show "n \<le> length ?p" unfolding len using assms by simp
qed

lemma wf_cursor_forward:
  "wf_cursor c \<Longrightarrow> cur_body c' = cur_body c \<Longrightarrow> cur_at c' \<le> length (cur_body c) \<Longrightarrow> wf_cursor c'"
  by (simp add: wf_cursor_def)

lemma take_bytes_covers:
  assumes "wf_cursor c" "take_bytes what c = Inr (v, c')"
  shows "length v < 2 ^ 32 \<and> cur_at c + length (enc_bytes v) \<le> cur_at c'"
  using take_bytes_consumes[OF assms] by (auto simp: advance_def)

lemma take_array_length: "take_array n what c = Inr (v, c') \<Longrightarrow> length v = n"
  by (auto simp: take_array_def cursor_take_def Let_def split: if_splits)

lemma length_enc_action:
  assumes "ok_action rollup_id a"
  shows "length (enc_action a) = 100 + length (enc_bytes []) + length (enc_bytes (act_data a))
    + length (enc_bytes (act_return_data a))"
  using assms by (simp add: enc_action_def ok_action_def value_bytes_def reversed_def)

lemma decode_action_consumes:
  assumes wf: "wf_cursor c" and d: "decode_action rollup_id c = Inr (a, c')"
  shows "ok_action rollup_id a \<and>
    (\<exists>p. rest c = p @ rest c' \<and> c' = advance (length p) c \<and> length (enc_action a) \<le> length p)"
  using d
proof (rule decode_action_elim, goal_cases)
  case (1 c1 sr c2 c3 c4 tr c5 sa c6 ta c7 v c8 g c9 d c10 tag c11 s rd c12)
  note fwd = expect_message_forward[OF 1(1)] take_array_forward[OF 1(2)] take_bytes_forward[OF 1(3)]
    expect_message_forward[OF 1(4)] take_array_forward[OF 1(5)] take_array_forward[OF 1(7)]
    take_array_forward[OF 1(8)] take_array_forward[OF 1(9)] take_array_forward[OF 1(10)]
    take_bytes_forward[OF 1(11)] cursor_byte_forward[OF 1(12)] take_bytes_forward[OF 1(14)]
    expect_message_forward[OF 1(15)]
  have "wf_cursor c2" "wf_cursor c9" "wf_cursor c11"
    by (rule wf_cursor_forward[OF wf]; use fwd in simp)+
  note cov = take_bytes_covers[OF this(1) 1(3)] take_bytes_covers[OF this(2) 1(11)]
    take_bytes_covers[OF this(3) 1(14)]
  have ok: "ok_action rollup_id a"
    using 1(6,16) cov 1(7-9)[THEN take_array_length]
    by (auto simp: ok_action_def validate_target_rollup_def reversed_def split: if_splits)
  have "cur_at c + length (enc_action a) \<le> cur_at c'"
    using fwd cov 1(16) unfolding length_enc_action[OF ok] by (simp add: value_bytes_def)
  with ok fwd show ?case by (intro conjI forward_prefix[OF wf]) simp_all
qed

interpretation bracket: field_codec enc_action "decode_action rollup_id" "ok_action rollup_id" for rollup_id
  by unfold_locales (blast intro: decode_action_enc dest: decode_action_consumes)+

lemma encode_action_Inr:
  "encode_action out a = Inr out' \<longleftrightarrow>
     length (act_data a) < 2 ^ 32 \<and> length (act_return_data a) < 2 ^ 32 \<and> out' = out @ enc_action a"
  by (auto simp: encode_action_def and_then_eq_Inr put_bytes_Inr enc_action_def)

lemma encode_actions_Inr:
  "encode_actions out as = Inr out' \<longleftrightarrow>
     (\<forall>a \<in> set as. length (act_data a) < 2 ^ 32 \<and> length (act_return_data a) < 2 ^ 32)
     \<and> out' = out @ concat (map enc_action as)"
  by (induction as arbitrary: out) (auto simp: and_then_eq_Inr encode_action_Inr)

lemma validate_targets_Inr:
  "validate_targets rollup_id as = Inr () \<longleftrightarrow>
     (\<forall>a \<in> set as. act_target_rollup_id a = 0 \<or> act_target_rollup_id a = rollup_id)"
  by (induction as) (auto simp: and_then_eq_Inr validate_target_rollup_def)

lemma decode_actions_enc:
  "wf_cursor c \<Longrightarrow> list_all (ok_action rollup_id) as \<Longrightarrow> rest c = concat (map enc_action as) \<Longrightarrow>
    decode_actions rollup_id acc c = Inr (acc @ as, advance (length (rest c)) c)"
proof (induction as arbitrary: acc c)
  case Nil
  then have "remaining c = 0" by (simp add: length_rest[symmetric])
  with Nil show ?case by (simp add: decode_actions.simps advance_def)
next
  case (Cons a as)
  have r: "rest c = enc_action a @ concat (map enc_action as)" using Cons.prems(3) by simp
  have "remaining c \<noteq> 0" unfolding length_rest[symmetric] r by (simp add: enc_action_def)
  moreover have "decode_action rollup_id c = Inr (a, advance (length (enc_action a)) c)"
    using Cons.prems(1) _ r by (rule decode_action_enc) (use Cons.prems(2) in simp)
  moreover note step_over[OF Cons.prems(1) r]
  ultimately show ?case
    using Cons.IH[of "advance (length (enc_action a)) c" "acc @ [a]"] Cons.prems(2)
    by (subst decode_actions.simps) (simp add: r)
qed

lemma decode_actions_consumes:
  "wf_cursor c \<Longrightarrow> decode_actions rollup_id acc c = Inr (xs, c') \<Longrightarrow>
    \<exists>as. xs = acc @ as \<and> list_all (ok_action rollup_id) as \<and> rest c' = []
      \<and> length (concat (map enc_action as)) \<le> length (rest c)"
proof (induction rollup_id acc c rule: decode_actions.induct)
  case (1 rollup_id acc c)
  show ?case
  proof (cases "remaining c = 0")
    case True
    with "1.prems" show ?thesis
      by (auto simp: decode_actions.simps[of rollup_id acc c] length_rest[symmetric])
  next
    case False
    with "1.prems"(2) obtain a c1 where d: "decode_action rollup_id c = Inr (a, c1)"
      and rec: "decode_actions rollup_id (acc @ [a]) c1 = Inr (xs, c')"
      by (auto simp: decode_actions.simps[of rollup_id acc c] and_then_eq_Inr)
    obtain p where p: "ok_action rollup_id a" "rest c = p @ rest c1" "length (enc_action a) \<le> length p"
      using decode_action_consumes[OF "1.prems"(1) d] by blast
    from "1.IH"[OF False d refl bracket.dec_wf[OF "1.prems"(1) d] rec] p show ?thesis
      by (auto simp: list_all_iff)
  qed
qed

section \<open>The stream\<close>

definition stream_bytes :: "u64 \<Rightarrow> bytes \<Rightarrow> action list \<Rightarrow> bytes" where
  "stream_bytes rollup_id operations actions =
     stream_version # [msg_chain_operation] @ le_bytes 8 rollup_id @ enc_bytes operations
     @ concat (map enc_action actions)"

text \<open>What the Rust types say of an action: its addresses and its value are fixed-size arrays.\<close>

definition well_typed_action :: "action \<Rightarrow> bool" where
  "well_typed_action a \<longleftrightarrow> length (act_source_address a) = 20 \<and> length (act_target_address a) = 20
     \<and> length (act_value a) = value_bytes"

lemma encode_container_Inr:
  assumes "list_all well_typed_action actions"
  shows "encode_container rollup_id blocks actions = Inr bs \<longleftrightarrow>
    (\<exists>operations. encode blocks = Inr operations \<and> length operations < 2 ^ 32
      \<and> list_all (ok_action rollup_id) actions \<and> bs = stream_bytes rollup_id operations actions)"
  using assms
  by (auto simp: encode_container_def and_then_eq_Inr validate_targets_Inr put_bytes_Inr encode_actions_Inr
      stream_bytes_def list_all_iff ok_action_def well_typed_action_def)

lemma decode_stream_bytes:
  assumes ops: "decode operations = Inr s" "length operations < 2 ^ 32"
    and ok: "list_all (ok_action rollup_id) actions"
    and len: "length (stream_bytes rollup_id operations actions) < 2 ^ 64"
  shows "decode_container (stream_bytes rollup_id operations actions)
    = Inr \<lparr>con_rollup_id = rollup_id, con_span = s, con_actions = actions\<rparr>"
proof -
  let ?b = "[msg_chain_operation] @ le_bytes 8 rollup_id @ enc_bytes operations @ concat (map enc_action actions)"
  let ?c = "cursor_new ?b"
  have wf: "wf_cursor ?c" using len by (simp add: stream_bytes_def)
  have r: "rest ?c = ?b" by simp
  note s1 = step_over[OF wf r]
  note s2 = step_over[OF s1(1,2)]
  note s3 = step_over[OF s2(1,2)]
  show ?thesis
    using expect_message_enc[OF wf r] take_array_enc[OF s1(1,2), of 8 "''chain_id''"]
      take_bytes_enc[OF s2(1) ops(2) s2(2), of "''operations''"] ops(1)
      decode_actions_enc[OF s3(1) ok s3(2), of "[]"]
    by (simp add: decode_container_def stream_bytes_def del: advance_advance)
qed

lemma decode_container_elim:
  assumes d: "decode_container p = Inr d" and len: "length p < 2 ^ 64"
  obtains operations where "decode operations = Inr (con_span d)" "length operations < 2 ^ 32"
    "list_all (ok_action (con_rollup_id d)) (con_actions d)"
    "length (stream_bytes (con_rollup_id d) operations (con_actions d)) \<le> length p"
proof -
  from d obtain body where p: "p = stream_version # body"
    by (auto simp: decode_container_def split: list.splits if_splits)
  from d obtain c1 rid c2 ops c3 s as c4 where e:
    "expect_message msg_chain_operation (cursor_new body) = Inr ((), c1)"
    "take_array 8 ''chain_id'' c1 = Inr (rid, c2)" "take_bytes ''operations'' c2 = Inr (ops, c3)"
    "decode ops = Inr s" "decode_actions (of_le_bytes rid) [] c3 = Inr (as, c4)"
    "d = \<lparr>con_rollup_id = of_le_bytes rid, con_span = s, con_actions = as\<rparr>"
    by (auto simp: decode_container_def p and_then_eq_Inr)
  have wf: "wf_cursor (cursor_new body)" using len p by simp
  note f = expect_message_forward[OF e(1)] take_array_forward[OF e(2)] take_bytes_forward[OF e(3)]
  have wf2: "wf_cursor c2" and wf3: "wf_cursor c3" by (rule wf_cursor_forward[OF wf]; use f in simp)+
  note cov = take_bytes_covers[OF wf2 e(3)]
  from decode_actions_consumes[OF wf3 e(5)] have a: "list_all (ok_action (of_le_bytes rid)) as"
    "length (concat (map enc_action as)) \<le> length (rest c3)" by auto
  have "length (stream_bytes (of_le_bytes rid) ops as) \<le> length p"
    using f cov a(2) by (auto simp: stream_bytes_def p rest_def cursor_new_def)
  with e(4,6) a(1) cov that show thesis by simp
qed

lemma ok_action_well_typed: "ok_action rollup_id a \<Longrightarrow> well_typed_action a"
  by (simp add: ok_action_def well_typed_action_def)

section \<open>Properties\<close>

text \<open>
  C8. The message stream round-trips: whatever \<open>encode_container\<close> emits for well-typed blocks
  and actions, \<open>decode_container\<close> accepts, returning the same rollup id, the blocks' columns and
  the same actions in the same order.
\<close>

theorem container_round_trip:
  assumes "encode_container rollup_id blocks actions = Inr bs"
    and "well_typed_span blocks" "list_all well_typed_action actions" "length bs < 2 ^ 64"
  shows "decode_container bs
    = Inr \<lparr>con_rollup_id = rollup_id, con_span = columns blocks, con_actions = actions\<rparr>"
  using assms decode_span_bytes decode_stream_bytes by (auto simp: encode_container_Inr encode_eq)

definition example_action :: action where
  "example_action = \<lparr>act_source_rollup_id = 0, act_target_rollup_id = 7,
     act_source_address = replicate 20 0xaa, act_target_address = replicate 20 0xbb,
     act_value = replicate 32 0, act_gas = 21000, act_data = [0x01, 0x02], act_success = True,
     act_return_data = []\<rparr>"

lemma example_stream:
  "encode_container 7 example_blocks [example_action]
     = Inr (stream_bytes 7 (span_bytes example_blocks) [example_action])"
  "length (stream_bytes 7 (span_bytes example_blocks) [example_action]) < 2 ^ 64"
  "list_all well_typed_action [example_action]"
proof -
  have s: "length (span_bytes example_blocks) < 128"
    by (simp add: example_blocks_def span_bytes_def all_txs_def leb128_small enc_extra_def)
  show wt: "list_all well_typed_action [example_action]"
    by (simp add: example_action_def well_typed_action_def value_bytes_def)
  show "encode_container 7 example_blocks [example_action]
     = Inr (stream_bytes 7 (span_bytes example_blocks) [example_action])"
    using example_blocks_ok(1) s unfolding encode_container_Inr[OF wt] encode_eq
    by (simp add: example_action_def ok_action_def value_bytes_def)
  show "length (stream_bytes 7 (span_bytes example_blocks) [example_action]) < 2 ^ 64"
    using s by (simp add: stream_bytes_def enc_bytes_def enc_action_def leb128_small example_action_def reversed_def)
qed

theorem container_round_trip_witness:
  "\<exists>bs. encode_container 7 example_blocks [example_action] = Inr bs \<and> decode_container bs
    = Inr \<lparr>con_rollup_id = 7, con_span = columns example_blocks, con_actions = [example_action]\<rparr>"
  using example_stream(1)
    container_round_trip[OF example_stream(1) example_blocks_ok(2) example_stream(3,2)] by blast

text \<open>
  C23. Accepting a stream is sound up to redundant length bytes: every stream \<open>decode_container\<close>
  accepts can be encoded again from what was decoded, the new stream decodes to the same container,
  and it is never longer than the stream that was read.
\<close>

theorem container_normalises:
  assumes "decode_container p = Inr d" "length p < 2 ^ 64"
  shows "\<exists>q. encode_container (con_rollup_id d) (blocks_of (con_span d)) (con_actions d) = Inr q
    \<and> decode_container q = Inr d \<and> length q \<le> length p"
proof (rule decode_container_elim[OF assms])
  fix operations
  let ?q = "stream_bytes (con_rollup_id d) operations (con_actions d)"
  assume e: "decode operations = Inr (con_span d)" "length operations < 2 ^ 32"
    "list_all (ok_action (con_rollup_id d)) (con_actions d)" "length ?q \<le> length p"
  have "encode (blocks_of (con_span d)) = Inr operations"
    using decode_columns[OF e(1)] blocks_of_columns[of "con_span d"] e(2) by (auto simp: encode_eq)
  moreover have "list_all well_typed_action (con_actions d)"
    using e(3) by (auto simp: list_all_iff intro: ok_action_well_typed)
  moreover have "decode_container ?q = Inr d"
    using decode_stream_bytes[OF e(1-3)] e(4) assms(2) by simp
  ultimately show ?thesis using e by (auto simp: encode_container_Inr)
qed

theorem container_normalises_witness:
  "\<exists>p d q. decode_container p = Inr d
    \<and> encode_container (con_rollup_id d) (blocks_of (con_span d)) (con_actions d) = Inr q
    \<and> decode_container q = Inr d \<and> length q \<le> length p"
proof -
  have d: "decode_container (stream_bytes 7 (span_bytes example_blocks) [example_action])
    = Inr \<lparr>con_rollup_id = 7, con_span = columns example_blocks, con_actions = [example_action]\<rparr>"
    using decode_stream_bytes[OF decode_span_bytes[OF example_blocks_ok]] example_stream
    by (simp add: encode_container_Inr encode_eq)
  show ?thesis using d container_normalises[OF d example_stream(2)] by blast
qed



end
