(* ===== verification/Abi_Types.thy ===== *)
theory Abi_Types
  imports Prelude
begin

text \<open>
  The data of \<^verbatim>\<open>crates/eez-protocol\<close>: rollup ids, call modes, outcomes and executed
  actions (\<^verbatim>\<open>rollup_id.rs\<close>, \<^verbatim>\<open>action.rs\<close>, \<^verbatim>\<open>types.rs\<close>), the Solidity
  structs of \<^verbatim>\<open>abi.rs\<close>, and the errors of \<^verbatim>\<open>error.rs\<close>. Solidity integers
  are words of their width, \<open>bytes\<close> are byte lists, an \<open>int192\<close> is a 192-bit word read
  in two's complement.

  Keccak and the ABI coder are library code of the repository's dependencies. They are the fields of
  the record \<open>alloy\<close>, an argument of every definition that calls them; what a theorem needs of
  them is a hypothesis on that record.
\<close>

section \<open>Rollup ids, call modes and outcomes\<close>

type_synonym rollup_id = u64

definition MAINNET :: rollup_id where "MAINNET = 0"

definition is_mainnet :: "rollup_id \<Rightarrow> bool" where
  "is_mainnet r \<longleftrightarrow> r = MAINNET"

datatype call_mode = Mutable | Static

definition from_is_static :: "bool \<Rightarrow> call_mode" where
  "from_is_static b = (if b then Static else Mutable)"

definition is_static :: "call_mode \<Rightarrow> bool" where
  "is_static m = (case m of Static \<Rightarrow> True | Mutable \<Rightarrow> False)"

lemma is_static_from_is_static [simp]: "is_static (from_is_static b) = b"
  by (simp add: is_static_def from_is_static_def)

datatype execution_outcome =
    Pending
  | Resolved (resolved_return_data: bytes) (resolved_gas_used: u64) (resolved_success: bool)

fun is_success :: "execution_outcome \<Rightarrow> bool" where
  "is_success (Resolved _ _ s) = s"
| "is_success Pending = False"

fun is_pending :: "execution_outcome \<Rightarrow> bool" where
  "is_pending Pending = True"
| "is_pending (Resolved _ _ _) = False"

fun return_data :: "execution_outcome \<Rightarrow> bytes option" where
  "return_data Pending = None"
| "return_data (Resolved d _ _) = Some d"

fun gas_used :: "execution_outcome \<Rightarrow> u64 option" where
  "gas_used Pending = None"
| "gas_used (Resolved _ g _) = Some g"

record executed_action =
  ea_call_mode :: call_mode
  ea_target_address :: address
  ea_target_rollup_id :: rollup_id
  ea_source_rollup_id :: rollup_id
  ea_source_address :: address
  ea_data :: bytes
  ea_value :: u256
  ea_outcome :: execution_outcome
  ea_revert_span :: "u32 option"

section \<open>Errors\<close>

text \<open>
  \<open>ProtocolError\<close>. A message built by \<open>format!\<close> is kept as its constant part and the
  numbers put into it.
\<close>

datatype protocol_error =
    EmptyCalls
  | UnknownTarget rollup_id
  | InvalidEncoding string "nat list"
  | Unsupported string

type_synonym 'a protocol_result = "protocol_error + 'a"

section \<open>Solidity structs\<close>

record rollup_update =
  ru_rollupId :: u64
  ru_etherDelta :: "192 word"
  ru_currentRoot :: b256
  ru_newRoot :: b256

record expected_root =
  er_rollupId :: u64
  er_root :: b256

record l2_to_l1_call =
  revertNextNCalls :: "16 word"
  isStatic :: bool
  call_gas :: u64
  sourceAddress :: address
  sourceRollupId :: u64
  targetAddress :: address
  call_value :: u256
  call_data :: bytes

record expected_l1_to_l2_call =
  expectedL1toL2Hash :: b256
  exp_l2ToL1Calls :: "l2_to_l1_call list"
  revertedOrStaticRollingHash :: b256
  exp_success :: bool
  exp_returnData :: bytes

record execution_entry =
  rollupUpdates :: "rollup_update list"
  proxyEntryHash :: b256
  l2ToL1Calls :: "l2_to_l1_call list"
  expectedL1ToL2Calls :: "expected_l1_to_l2_call list"
  rollingHash :: b256
  destinationRollupId :: u64
  entry_success :: bool
  returnData :: bytes

record static_execution_entry =
  st_expectedRoots :: "expected_root list"
  st_proxyEntryHash :: b256
  st_l2ToL1Calls :: "l2_to_l1_call list"
  st_rollingHash :: b256
  st_destinationRollupId :: u64
  st_success :: bool
  st_returnData :: bytes

record rollup_proof_systems =
  rps_rollupId :: u64
  proofSystemIndexes :: "u64 list"

record evm_batch =
  expectedRootPerRollup :: "expected_root list"
  entries :: "execution_entry list"
  staticEntries :: "static_execution_entry list"
  immediateEntryCount :: u256
  immediateStaticEntryCount :: u256
  proofSystems :: "address list"
  rollupIdsWithProofSystems :: "rollup_proof_systems list"
  blobIndices :: "u256 list"
  batch_callData :: bytes
  proofs :: "bytes list"
  blockNumber :: u64
  bindMsgSenderInPublicInput :: bool

definition default_batch :: evm_batch where
  "default_batch = \<lparr>expectedRootPerRollup = [], entries = [], staticEntries = [],
     immediateEntryCount = 0, immediateStaticEntryCount = 0, proofSystems = [],
     rollupIdsWithProofSystems = [], blobIndices = [], batch_callData = [], proofs = [],
     blockNumber = 0, bindMsgSenderInPublicInput = False\<rparr>"

text \<open>The L2 family. Its call struct has the fields of \<open>L2ToL1CallSol\<close> in the same order.\<close>

type_synonym cross_chain_call = l2_to_l1_call

record expected_outgoing_call =
  expectedOutgoingHash :: b256
  out_incomingCalls :: "cross_chain_call list"
  out_revertedOrStaticRollingHash :: b256
  out_success :: bool
  out_returnData :: bytes

record l2_execution_entry =
  l2_proxyEntryHash :: b256
  incomingCalls :: "cross_chain_call list"
  expectedOutgoingCalls :: "expected_outgoing_call list"
  l2_rollingHash :: b256
  l2_success :: bool
  l2_returnData :: bytes

record l2_static_execution_entry =
  l2s_expectedEntryIndex :: u256
  l2s_proxyEntryHash :: b256
  l2s_incomingCalls :: "cross_chain_call list"
  l2s_rollingHash :: b256
  l2s_success :: bool
  l2s_returnData :: bytes

section \<open>System transactions\<close>

text \<open>The wire body of \<^verbatim>\<open>crates/eez-primitives\<close>: no signature, no sender, no gas fields.\<close>

record system_transaction =
  stx_chain_id :: u64
  stx_nonce :: u64
  stx_to :: address
  stx_value :: u256
  stx_input :: bytes

section \<open>Library code the protocol calls\<close>

type_synonym call_params = "bool \<times> address \<times> u64 \<times> address \<times> u64 \<times> u256 \<times> u64 \<times> bytes"

record alloy =
  keccak256 :: "bytes \<Rightarrow> b256"
  encode_call_params :: "call_params \<Rightarrow> bytes"
  encode_entry :: "execution_entry \<Rightarrow> bytes"
  encode_incoming_call :: "l2_execution_entry list \<times> l2_static_execution_entry list \<Rightarrow> bytes"
  decode_incoming_call :: "bytes \<Rightarrow> (l2_execution_entry list \<times> l2_static_execution_entry list) option"
  encode_post_batch :: "evm_batch \<Rightarrow> bytes"
  decode_post_batch :: "bytes \<Rightarrow> evm_batch option"
  encode_load_table :: "l2_execution_entry list \<times> l2_static_execution_entry list \<Rightarrow> bytes"
  encode_static_entry :: "static_execution_entry \<Rightarrow> bytes"
  encode_hash_list :: "b256 list \<Rightarrow> bytes"
  encode_custom_data :: "u64 \<times> bytes \<Rightarrow> bytes"
  encode_fold_step :: "b256 \<times> u64 \<times> b256 \<Rightarrow> bytes"
  rlp_encode_system_tx :: "system_transaction \<Rightarrow> bytes"
  rlp_decode_system_tx :: "bytes \<Rightarrow> (system_transaction \<times> bytes) option"
  execute_incoming_selector :: bytes
  decode_load_table :: "bytes \<Rightarrow> (l2_execution_entry list \<times> l2_static_execution_entry list) option"
  encode_batch_args :: "evm_batch \<Rightarrow> bytes"

section \<open>Signed balance deltas\<close>

text \<open>
  \<open>I192::checked_from_sign_and_abs\<close> at a positive sign: the magnitude, unless its top bit is set.
\<close>

definition i192_from_abs :: "192 word \<Rightarrow> 192 word option" where
  "i192_from_abs m = (if bit m 191 then None else Some m)"

definition u256_to_i192 :: "u256 \<Rightarrow> 192 word option" where
  "u256_to_i192 v = (if drop_bit 192 v \<noteq> 0 then None else i192_from_abs (ucast v))"

lemma drop_bit_192_zero: "drop_bit 192 (v :: u256) = 0 \<longleftrightarrow> uint v < 2 ^ 192"
proof -
  have "drop_bit 192 v = 0 \<longleftrightarrow> uint (drop_bit 192 v) = 0" by (rule unsigned_eq_0_iff[symmetric])
  also have "uint (drop_bit 192 v) = uint v div 2 ^ 192"
    using take_bit_int_eq_self[of "uint v" 256] unsigned_less[of v, where 'a = int]
    by (simp only: unsigned_drop_bit_eq) (simp add: drop_bit_eq_div)
  also have "uint v div 2 ^ 192 = 0 \<longleftrightarrow> uint v < 2 ^ 192"
    using zdiv_eq_0_iff[of "uint v" "2 ^ 192"] by auto
  finally show ?thesis .
qed

lemma uint_ucast_192: "uint (v :: u256) < 2 ^ 192 \<Longrightarrow> uint (ucast v :: 192 word) = uint v"
  by (simp only: unsigned_ucast_eq) (simp add: take_bit_int_eq_self)

lemma bit_191: "bit (m :: 192 word) 191 \<longleftrightarrow> 2 ^ 191 \<le> uint m"
proof -
  have "bit m 191 \<longleftrightarrow> bit (uint m) 191" by (simp add: bit_uint_iff)
  also have "\<dots> \<longleftrightarrow> odd (uint m div 2 ^ 191)" by (simp only: bit_iff_odd)
  also have "uint m div 2 ^ 191 = (if 2 ^ 191 \<le> uint m then 1 else 0)"
  proof (cases "2 ^ 191 \<le> uint m")
    case True
    have u: "uint m < 2 * 2 ^ 191" using unsigned_less[of m, where 'a = int] by simp
    have "uint m div 2 ^ 191 = 1 + (uint m - 2 ^ 191) div 2 ^ 191"
      using div_add_self1[of "2 ^ 191 :: int" "uint m - 2 ^ 191"] by simp
    also have "(uint m - 2 ^ 191) div 2 ^ 191 = 0"
      using True u by (intro div_pos_pos_trivial) auto
    finally show ?thesis using True by simp
  next
    case False
    then show ?thesis by (simp add: div_pos_pos_trivial)
  qed
  finally show ?thesis by simp
qed

lemma sint_192: "\<not> bit (m :: 192 word) 191 \<Longrightarrow> sint m = uint m"
  using signed_take_bit_int_eq_self[of 191 "uint m"] order_trans[of "- (2 ^ 191)" 0 "uint m"]
  by (simp add: bit_191 sint_uint)

lemma u256_to_i192_sint:
  "map_option sint (u256_to_i192 v) = (if uint v < 2 ^ 191 then Some (uint v) else None)"
proof (cases "uint v < 2 ^ 192")
  case True
  then show ?thesis
    using drop_bit_192_zero[of v] bit_191[of "ucast v"] sint_192[of "ucast v"] uint_ucast_192[OF True]
    by (auto simp: u256_to_i192_def i192_from_abs_def)
next
  case False
  then show ?thesis using drop_bit_192_zero[of v] by (auto simp: u256_to_i192_def)
qed

section \<open>Property\<close>

text \<open>
  C31. The conversion of an ether amount into the signed \<open>int192\<close> balance delta is exact: it
  fails precisely on the amounts above \<open>int192::MAX\<close>, and otherwise the delta, read as a
  signed number, is the amount.
\<close>

theorem u256_to_i192_exact:
  "map_option sint (u256_to_i192 v) = (if uint v < 2 ^ 191 then Some (uint v) else None)"
  by (rule u256_to_i192_sint)

end
