(* ===== verification/Rolling_Hash.thy ===== *)
theory Rolling_Hash
  imports Abi_Types
begin

text \<open>
  The cross-chain call hash (\<^verbatim>\<open>action.rs\<close>), the rolling-hash accumulators
  (\<^verbatim>\<open>rolling_hash.rs\<close>) and the storage layout of registered proxies
  (\<^verbatim>\<open>authorized_proxies.rs\<close>). The lemmas show what these hashes bind: as long as
  Keccak has no collision among the strings that were actually hashed, a rolling hash determines the
  state updates, the proxy entry hash and the whole sequence of events folded into it.
\<close>

section \<open>Call hashes\<close>

record call_hash_input =
  chi_call_mode :: call_mode
  chi_source_address :: address
  chi_source_rollup_id :: rollup_id
  chi_target_address :: address
  chi_target_rollup_id :: rollup_id
  chi_value :: u256
  chi_data :: bytes

definition call_hash_params :: "call_hash_input \<Rightarrow> u64 \<Rightarrow> call_params" where
  "call_hash_params i gas =
     (is_static (chi_call_mode i), chi_source_address i, chi_source_rollup_id i,
      chi_target_address i, chi_target_rollup_id i, chi_value i, gas, chi_data i)"

definition cross_chain_call_hash :: "alloy \<Rightarrow> call_hash_input \<Rightarrow> u64 \<Rightarrow> b256" where
  "cross_chain_call_hash A i gas = keccak256 A (encode_call_params A (call_hash_params i gas))"

definition l2_outbound_call_hash :: "alloy \<Rightarrow> call_hash_input \<Rightarrow> u64 \<Rightarrow> b256" where
  "l2_outbound_call_hash A i gas = cross_chain_call_hash A i gas"

definition common_cross_chain_call_hash :: "alloy \<Rightarrow> call_hash_input \<Rightarrow> b256" where
  "common_cross_chain_call_hash A i = cross_chain_call_hash A i 0"

section \<open>Accumulators\<close>

definition CALL_BEGIN :: u8 where "CALL_BEGIN = 1"
definition CALL_END :: u8 where "CALL_END = 2"
definition NESTED_BEGIN :: u8 where "NESTED_BEGIN = 3"
definition NESTED_END :: u8 where "NESTED_END = 4"
definition CALL_NOT_FOUND :: u8 where "CALL_NOT_FOUND = 5"

definition as_slice :: "b256 \<Rightarrow> bytes" where
  "as_slice h = be_bytes 32 h"

definition u8_from_bool :: "bool \<Rightarrow> u8" where
  "u8_from_bool b = (if b then 1 else 0)"

definition hash_parts :: "alloy \<Rightarrow> bytes list \<Rightarrow> b256" where
  "hash_parts A parts = keccak256 A (concat parts)"

record entry_rolling_hash =
  rolling_hash :: b256

fun fold_states :: "alloy \<Rightarrow> b256 \<Rightarrow> (u64 \<times> b256) list \<Rightarrow> b256" where
  "fold_states A previous [] = previous"
| "fold_states A previous ((rollup_id, current_root) # us) =
     fold_states A (hash_parts A [as_slice previous, be_bytes 8 rollup_id, as_slice current_root]) us"

definition seed_for_l1 :: "alloy \<Rightarrow> (u64 \<times> b256) list \<Rightarrow> b256 \<Rightarrow> entry_rolling_hash" where
  "seed_for_l1 A state_updates proxy_entry_hash =
     (let states_hash = fold_states A 0 state_updates
      in \<lparr>rolling_hash = hash_parts A [as_slice states_hash, as_slice proxy_entry_hash]\<rparr>)"

definition seed_for_l2 :: "alloy \<Rightarrow> b256 \<Rightarrow> entry_rolling_hash" where
  "seed_for_l2 A proxy_entry_hash =
     \<lparr>rolling_hash = hash_parts A [as_slice 0, as_slice proxy_entry_hash]\<rparr>"

definition current :: "entry_rolling_hash \<Rightarrow> b256" where
  "current s = rolling_hash s"

definition call_begin :: "alloy \<Rightarrow> b256 \<Rightarrow> entry_rolling_hash \<Rightarrow> entry_rolling_hash" where
  "call_begin A call_hash s =
     s\<lparr>rolling_hash := hash_parts A [as_slice (rolling_hash s), [CALL_BEGIN], as_slice call_hash]\<rparr>"

definition call_end :: "alloy \<Rightarrow> bool \<Rightarrow> bytes \<Rightarrow> entry_rolling_hash \<Rightarrow> entry_rolling_hash" where
  "call_end A ok rd s =
     s\<lparr>rolling_hash := hash_parts A [as_slice (rolling_hash s), [CALL_END], [u8_from_bool ok], rd]\<rparr>"

definition nested_begin :: "alloy \<Rightarrow> b256 \<Rightarrow> entry_rolling_hash \<Rightarrow> entry_rolling_hash" where
  "nested_begin A call_hash s =
     s\<lparr>rolling_hash := hash_parts A [as_slice (rolling_hash s), [NESTED_BEGIN], as_slice call_hash]\<rparr>"

definition nested_end :: "alloy \<Rightarrow> entry_rolling_hash \<Rightarrow> entry_rolling_hash" where
  "nested_end A s = s\<lparr>rolling_hash := hash_parts A [as_slice (rolling_hash s), [NESTED_END]]\<rparr>"

definition call_not_found :: "alloy \<Rightarrow> b256 \<Rightarrow> entry_rolling_hash \<Rightarrow> entry_rolling_hash" where
  "call_not_found A call_hash s =
     s\<lparr>rolling_hash := hash_parts A [as_slice (rolling_hash s), [CALL_NOT_FOUND], as_slice call_hash]\<rparr>"

record static_call_rolling_hash =
  static_rolling_hash :: b256

definition static_new :: static_call_rolling_hash where
  "static_new = \<lparr>static_rolling_hash = 0\<rparr>"

definition static_current :: "static_call_rolling_hash \<Rightarrow> b256" where
  "static_current s = static_rolling_hash s"

definition static_append :: "alloy \<Rightarrow> bool \<Rightarrow> bytes \<Rightarrow> static_call_rolling_hash \<Rightarrow> static_call_rolling_hash" where
  "static_append A ok rd s =
     s\<lparr>static_rolling_hash := hash_parts A [as_slice (static_rolling_hash s), [u8_from_bool ok], rd]\<rparr>"

section \<open>Registered proxies\<close>

definition EEZ_AUTHORIZED_PROXIES_SLOT :: u8 where "EEZ_AUTHORIZED_PROXIES_SLOT = 0"
definition EEZL2_AUTHORIZED_PROXIES_SLOT :: u8 where "EEZL2_AUTHORIZED_PROXIES_SLOT = 0"

record proxy_info =
  original_address :: address
  original_rollup_id :: rollup_id

definition proxy_mapping_data :: "address \<Rightarrow> u8 \<Rightarrow> bytes" where
  "proxy_mapping_data addr slot = replicate 12 0 @ be_bytes 20 addr @ replicate 31 0 @ [slot]"

definition proxy_mapping_key :: "alloy \<Rightarrow> address \<Rightarrow> u8 \<Rightarrow> b256" where
  "proxy_mapping_key A addr slot = keccak256 A (proxy_mapping_data addr slot)"

definition decode_proxy_value :: "u256 \<Rightarrow> proxy_info option" where
  "decode_proxy_value v =
     (let bs = be_bytes 32 v in
      if bs ! 31 \<noteq> 1 then None
      else Some \<lparr>original_address = of_be_bytes (take 20 (drop 11 bs)),
                 original_rollup_id = of_be_bytes (take 8 (drop 3 bs))\<rparr>)"

section \<open>Hash chains\<close>

text \<open>
  Every accumulator above is a chain: each step hashes the previous digest followed by the bytes of
  one step, starting from zero. \<open>links\<close> collects the strings hashed on the way.
\<close>

fun gchain :: "alloy \<Rightarrow> (b256 \<Rightarrow> 'e \<Rightarrow> bytes) \<Rightarrow> b256 \<Rightarrow> 'e list \<Rightarrow> b256" where
  "gchain A mk h [] = h"
| "gchain A mk h (x # xs) = gchain A mk (keccak256 A (mk h x)) xs"

fun glinks :: "alloy \<Rightarrow> (b256 \<Rightarrow> 'e \<Rightarrow> bytes) \<Rightarrow> b256 \<Rightarrow> 'e list \<Rightarrow> bytes set" where
  "glinks A mk h [] = {}"
| "glinks A mk h (x # xs) = insert (mk h x) (glinks A mk (keccak256 A (mk h x)) xs)"

definition collision_free :: "alloy \<Rightarrow> bytes set \<Rightarrow> bool" where
  "collision_free A S \<longleftrightarrow> inj_on (keccak256 A) S \<and> 0 \<notin> keccak256 A ` S"

lemma collision_free_mono: "collision_free A T \<Longrightarrow> S \<subseteq> T \<Longrightarrow> collision_free A S"
  by (auto simp: collision_free_def intro: inj_on_subset)

lemma collision_freeD:
  "collision_free A S \<Longrightarrow> x \<in> S \<Longrightarrow> y \<in> S \<Longrightarrow> keccak256 A x = keccak256 A y \<Longrightarrow> x = y"
  by (auto simp: collision_free_def dest: inj_onD)

lemma gchain_append: "gchain A mk h (xs @ ys) = gchain A mk (gchain A mk h xs) ys"
  by (induction xs arbitrary: h) simp_all

lemma glinks_append: "glinks A mk h (xs @ ys) = glinks A mk h xs \<union> glinks A mk (gchain A mk h xs) ys"
  by (induction xs arbitrary: h) auto

lemma gchain_nonzero:
  "collision_free A (glinks A mk 0 xs) \<Longrightarrow> gchain A mk 0 xs = 0 \<Longrightarrow> xs = []"
  by (cases xs rule: rev_exhaust) (auto simp: collision_free_def gchain_append glinks_append image_iff)

text \<open>The interface of a link: its bytes determine the previous digest and the step.\<close>

locale linked_steps =
  fixes mk :: "b256 \<Rightarrow> 'e \<Rightarrow> bytes"
  assumes mk_inject: "mk g x = mk h y \<Longrightarrow> g = h \<and> x = y"
begin

lemma chain_inject:
  assumes "collision_free A (glinks A mk 0 xs \<union> glinks A mk 0 ys)" "gchain A mk 0 xs = gchain A mk 0 ys"
  shows "xs = ys"
  using assms
proof (induction xs arbitrary: ys rule: rev_induct)
  case Nil
  then show ?case using gchain_nonzero[of A mk ys] by (metis gchain.simps(1) glinks.simps(1) sup_bot_left)
next
  case (snoc x xs)
  show ?case
  proof (cases ys rule: rev_exhaust)
    case Nil
    then show ?thesis using snoc.prems gchain_nonzero[of A mk "xs @ [x]"] by simp
  next
    case (snoc zs z)
    let ?g = "mk (gchain A mk 0 xs) x" and ?h = "mk (gchain A mk 0 zs) z"
    have "keccak256 A ?g = keccak256 A ?h" using snoc.prems(2) snoc by (simp add: gchain_append)
    moreover have "?g \<in> glinks A mk 0 (xs @ [x]) \<union> glinks A mk 0 ys" "?h \<in> glinks A mk 0 (xs @ [x]) \<union> glinks A mk 0 ys"
      using snoc by (simp_all add: glinks_append)
    ultimately have "?g = ?h" using collision_freeD[OF snoc.prems(1)] by blast
    then have eq: "gchain A mk 0 xs = gchain A mk 0 zs" "x = z" using mk_inject by blast+
    have "collision_free A (glinks A mk 0 xs \<union> glinks A mk 0 zs)"
      using snoc.prems(1) by (rule collision_free_mono) (auto simp: snoc glinks_append)
    from snoc.IH[OF this eq(1)] show ?thesis using snoc eq(2) by simp
  qed
qed

end

definition slice_link :: "b256 \<Rightarrow> bytes \<Rightarrow> bytes" where
  "slice_link h x = as_slice h @ x"

abbreviation chain :: "alloy \<Rightarrow> b256 \<Rightarrow> bytes list \<Rightarrow> b256" where
  "chain A \<equiv> gchain A slice_link"

abbreviation links :: "alloy \<Rightarrow> b256 \<Rightarrow> bytes list \<Rightarrow> bytes set" where
  "links A \<equiv> glinks A slice_link"

lemmas slice_chain_simps = gchain.simps glinks.simps slice_link_def gchain_append glinks_append

lemma as_slice_inject [simp]: "as_slice g = as_slice h \<longleftrightarrow> g = h"
  by (simp add: as_slice_def be_bytes_inject)

lemma length_as_slice [simp]: "length (as_slice h) = 32"
  by (simp add: as_slice_def)

interpretation slices: linked_steps slice_link
  by unfold_locales (simp add: slice_link_def)

text \<open>
  The interface of one accumulator: the step bytes of its items determine the item. What a chain of
  such items binds is proved once.
\<close>

locale step_encoding =
  fixes step :: "'e \<Rightarrow> bytes"
  assumes step_inject: "step a = step b \<Longrightarrow> a = b"
begin

lemma steps_inject: "map step xs = map step ys \<Longrightarrow> xs = ys"
  using step_inject by (induction xs arbitrary: ys) auto

lemma items_bound:
  assumes "collision_free A (links A 0 (map step xs) \<union> links A 0 (map step ys))"
    "chain A 0 (map step xs) = chain A 0 (map step ys)"
  shows "xs = ys"
  by (rule steps_inject, rule slices.chain_inject) (rule assms)+

end

datatype event =
    Call_begin b256
  | Call_end bool bytes
  | Nested_begin b256
  | Nested_end
  | Call_not_found b256

fun apply_event :: "alloy \<Rightarrow> event \<Rightarrow> entry_rolling_hash \<Rightarrow> entry_rolling_hash" where
  "apply_event A (Call_begin h) = call_begin A h"
| "apply_event A (Call_end ok rd) = call_end A ok rd"
| "apply_event A (Nested_begin h) = nested_begin A h"
| "apply_event A Nested_end = nested_end A"
| "apply_event A (Call_not_found h) = call_not_found A h"

fun event_step :: "event \<Rightarrow> bytes" where
  "event_step (Call_begin h) = CALL_BEGIN # as_slice h"
| "event_step (Call_end ok rd) = CALL_END # u8_from_bool ok # rd"
| "event_step (Nested_begin h) = NESTED_BEGIN # as_slice h"
| "event_step Nested_end = [NESTED_END]"
| "event_step (Call_not_found h) = CALL_NOT_FOUND # as_slice h"

definition state_step :: "u64 \<times> b256 \<Rightarrow> bytes" where
  "state_step u = be_bytes 8 (fst u) @ as_slice (snd u)"

definition static_step :: "bool \<times> bytes \<Rightarrow> bytes" where
  "static_step r = u8_from_bool (fst r) # snd r"

lemmas event_tags = CALL_BEGIN_def CALL_END_def NESTED_BEGIN_def NESTED_END_def CALL_NOT_FOUND_def

lemma u8_from_bool_inject [simp]: "u8_from_bool a = u8_from_bool b \<longleftrightarrow> a = b"
  by (auto simp: u8_from_bool_def)

lemma event_step_inject: "event_step a = event_step b \<Longrightarrow> a = b"
  by (cases a; cases b) (auto simp: event_tags)

lemma state_step_inject: "state_step a = state_step b \<Longrightarrow> a = b"
  using be_bytes_inject[of 8 "fst a" "fst b"] by (auto simp: state_step_def prod_eq_iff)

interpretation ev: step_encoding event_step
  by unfold_locales (rule event_step_inject)

interpretation st: step_encoding state_step
  by unfold_locales (rule state_step_inject)

interpretation sr: step_encoding static_step
  by unfold_locales (auto simp: static_step_def)

lemma rolling_hash_apply_event [simp]:
  "rolling_hash (apply_event A e s) = keccak256 A (as_slice (rolling_hash s) @ event_step e)"
  by (cases e) (simp_all add: call_begin_def call_end_def nested_begin_def nested_end_def
      call_not_found_def hash_parts_def)

lemma current_fold_events:
  "current (fold (apply_event A) es s) = chain A (rolling_hash s) (map event_step es)"
  by (induction es arbitrary: s) (simp_all add: current_def slice_link_def)

lemma fold_states_chain: "fold_states A h us = chain A h (map state_step us)"
  by (induction A h us rule: fold_states.induct) (simp_all add: hash_parts_def state_step_def slice_link_def)

lemma static_fold_chain:
  "static_current (fold (\<lambda>(ok, rd). static_append A ok rd) rs s) = chain A (static_rolling_hash s) (map static_step rs)"
  by (induction rs arbitrary: s) (auto simp: static_current_def static_append_def hash_parts_def static_step_def slice_link_def)

text \<open>The steps of a whole entry: its state updates, its proxy entry hash, its events.\<close>

definition transcript :: "(u64 \<times> b256) list \<Rightarrow> b256 \<Rightarrow> event list \<Rightarrow> bytes list" where
  "transcript us p es = map state_step us @ [as_slice p] @ map event_step es"

lemma transcript_l1: "current (fold (apply_event A) es (seed_for_l1 A us p)) = chain A 0 (transcript us p es)"
  by (simp add: current_fold_events seed_for_l1_def transcript_def gchain_append fold_states_chain hash_parts_def slice_link_def)

lemma transcript_l2: "current (fold (apply_event A) es (seed_for_l2 A p)) = chain A 0 (transcript [] p es)"
  by (simp add: current_fold_events seed_for_l2_def transcript_def hash_parts_def slice_link_def)

lemma transcript_inject:
  "transcript us p es = transcript us' p' es' \<Longrightarrow> us = us' \<and> p = p' \<and> es = es'"
proof (induction us arbitrary: us')
  case Nil
  then show ?case
    by (cases us') (auto simp: transcript_def state_step_def dest!: ev.steps_inject arg_cong[of "as_slice p" _ length])
next
  case (Cons u us)
  then show ?case
  proof (cases us')
    case Nil
    with Cons.prems show ?thesis
      by (auto simp: transcript_def state_step_def dest!: arg_cong[of _ "as_slice p'" length])
  next
    case (Cons v vs)
    with Cons.prems have "state_step u = state_step v" "transcript us p es = transcript vs p' es'"
      by (simp_all add: transcript_def)
    with Cons.IH[of vs] Cons show ?thesis by (auto dest: state_step_inject)
  qed
qed

section \<open>Call hashes bind the call\<close>

lemma is_static_inject [simp]: "is_static a = is_static b \<longleftrightarrow> a = b"
  by (cases a; cases b) (simp_all add: is_static_def)

lemma call_hash_params_inject:
  "call_hash_params (i :: call_hash_input) g = call_hash_params j h \<longleftrightarrow> i = j \<and> g = h"
  by (cases i; cases j) (auto simp: call_hash_params_def)

lemma call_hash_binds:
  assumes "inj (encode_call_params A)"
    and "collision_free A {encode_call_params A (call_hash_params i g), encode_call_params A (call_hash_params j h)}"
    and "cross_chain_call_hash A i g = cross_chain_call_hash A j h"
  shows "i = j \<and> g = h"
proof -
  have "encode_call_params A (call_hash_params i g) = encode_call_params A (call_hash_params j h)"
    using assms(2,3) by (auto simp: collision_free_def cross_chain_call_hash_def dest: inj_onD)
  then show ?thesis using assms(1) by (simp add: inj_eq call_hash_params_inject)
qed

section \<open>An example instance\<close>

text \<open>
  A concrete instance for the witnesses: a digest made of the length of its input and its 32nd byte
  (the last byte of the previous digest in a chain), and an ABI coder that concatenates fixed-width
  fields.
\<close>

definition example_digest :: "bytes \<Rightarrow> nat" where
  "example_digest bs = Suc (length bs + 1000 * (if 32 \<le> length bs then unat (bs ! 31) else 0))"

definition example_alloy :: alloy where
  "example_alloy = \<lparr>
     keccak256 = (\<lambda>bs. of_nat (example_digest bs)),
     encode_call_params = (\<lambda>(s, sa, sr, ta, tr, v, g, d).
       u8_from_bool s # be_bytes 20 sa @ be_bytes 8 sr @ be_bytes 20 ta @ be_bytes 8 tr
       @ be_bytes 32 v @ be_bytes 8 g @ d),
     encode_entry = (\<lambda>e. be_bytes 32 (rollingHash e)),
     encode_incoming_call = (\<lambda>_. []), decode_incoming_call = (\<lambda>_. None),
     encode_post_batch = (\<lambda>_. []), decode_post_batch = (\<lambda>_. None),
     encode_load_table = (\<lambda>_. []), encode_static_entry = (\<lambda>e. be_bytes 32 (st_rollingHash e)),
     encode_hash_list = (\<lambda>hs. replicate (length hs) 1 @ 0 # concat (map (be_bytes 32) hs)),
     encode_custom_data = (\<lambda>(r, d). be_bytes 8 r @ d),
     encode_fold_step = (\<lambda>(acc, r, vk). be_bytes 32 acc @ be_bytes 8 r @ be_bytes 32 vk),
     rlp_encode_system_tx = (\<lambda>tx. be_bytes 8 (stx_chain_id tx) @ be_bytes 8 (stx_nonce tx) @ be_bytes 20 (stx_to tx)
       @ be_bytes 32 (stx_value tx) @ stx_input tx),
     rlp_decode_system_tx = (\<lambda>_. None),
     execute_incoming_selector = [1, 2, 3, 4], decode_load_table = (\<lambda>_. None),
     encode_batch_args = (\<lambda>_. [])\<rparr>"

lemma example_alloy_encodes: "inj (encode_call_params example_alloy)"
  by (auto simp: inj_def example_alloy_def be_bytes_inject append_eq_append_conv)

lemma hd_le_bytes: "0 < n \<Longrightarrow> le_bytes n w ! 0 = ucast w"
  by (cases n) simp_all

lemma as_slice_last: "as_slice h ! 31 = ucast h"
  by (simp add: as_slice_def be_bytes_def rev_nth hd_le_bytes)

lemma example_digest_chain [simp]:
  "example_digest (as_slice h @ x) = Suc (32 + length x + 1000 * unat (ucast h :: u8))"
  by (simp add: example_digest_def nth_append as_slice_last)

lemma example_alloy_keccak: "keccak256 example_alloy bs = of_nat (example_digest bs)"
  by (simp add: example_alloy_def)

lemma example_alloy_collision_free:
  assumes "inj_on example_digest S" "\<forall>bs \<in> S. length bs < 2 ^ 64"
  shows "collision_free example_alloy S"
proof -
  have u: "unat (keccak256 example_alloy bs) = example_digest bs" if "bs \<in> S" for bs
  proof -
    have "unat (bs ! 31) < 2 ^ 8" using unat_lt_len[of "bs ! 31"] by simp
    then have "example_digest bs < 2 ^ 256" using assms(2) that by (force simp: example_digest_def)
    then show ?thesis unfolding example_alloy_keccak by (intro unat_of_nat_lt) simp
  qed
  have "inj_on (keccak256 example_alloy) S"
  proof (rule inj_onI)
    fix x y assume xy: "x \<in> S" "y \<in> S" "keccak256 example_alloy x = keccak256 example_alloy y"
    then have "example_digest x = example_digest y" using u[of x] u[of y] by simp
    then show "x = y" using assms(1) xy by (auto dest: inj_onD)
  qed
  moreover have "0 \<notin> keccak256 example_alloy ` S"
  proof
    assume "0 \<in> keccak256 example_alloy ` S"
    then obtain x where "x \<in> S" "keccak256 example_alloy x = 0" by auto
    with u[of x] show False by (simp add: example_digest_def)
  qed
  ultimately show ?thesis by (simp add: collision_free_def)
qed

lemma example_alloy_lengths:
  assumes "inj_on length S" "\<forall>bs \<in> S. length bs < 1000"
  shows "collision_free example_alloy S"
proof (rule example_alloy_collision_free)
  show "inj_on example_digest S"
  proof (rule inj_onI)
    fix x y assume xy: "x \<in> S" "y \<in> S" "example_digest x = example_digest y"
    define k l where "k = (if 32 \<le> length x then unat (x ! 31) else 0)"
      and "l = (if 32 \<le> length y then unat (y ! 31) else 0)"
    have "length x + 1000 * k = length y + 1000 * l" using xy(3) unfolding example_digest_def k_def l_def by simp
    then have "length x = length y" using assms(2) xy(1,2) by (metis mod_less mod_mult_self2)
    then show "x = y" using assms(1) xy by (auto dest: inj_onD)
  qed
qed (use assms(2) in fastforce)

section \<open>Properties\<close>



text \<open>
  C8. The two seeds separate the chains: an L1 entry that carries at least one state update never
  has the rolling hash of an L2 entry, whatever the proxy hashes and events are.
\<close>

theorem l1_l2_rolling_hash_separated:
  assumes "collision_free A (links A 0 (transcript us p es) \<union> links A 0 (transcript [] p' es'))" "us \<noteq> []"
  shows "current (fold (apply_event A) es (seed_for_l1 A us p)) \<noteq> current (fold (apply_event A) es' (seed_for_l2 A p'))"
  using slices.chain_inject[OF assms(1)] transcript_inject[of us p es "[]" p' es'] assms(2)
  by (auto simp: transcript_l1 transcript_l2)

theorem l1_l2_rolling_hash_separated_witness:
  "current (fold (apply_event example_alloy) [Nested_end] (seed_for_l1 example_alloy [(1, 2)] 3))
   \<noteq> current (fold (apply_event example_alloy) [Call_begin 5] (seed_for_l2 example_alloy 3))"
proof -
  let ?t = "transcript [(1, 2)] 3 [Nested_end]" and ?t' = "transcript [] 3 [Call_begin 5]"
  have "collision_free example_alloy (links example_alloy 0 ?t \<union> links example_alloy 0 ?t')"
    by (rule example_alloy_collision_free)
      (simp_all add: transcript_def state_step_def inj_on_def example_alloy_keccak slice_link_def)
  from l1_l2_rolling_hash_separated[OF this] show ?thesis by simp
qed

text \<open>
  C9. The static-call accumulator binds the ordered list of results, each with its success flag and
  its raw return data, although it carries neither tags nor lengths.
\<close>

theorem static_rolling_hash_binds:
  assumes "collision_free A (links A 0 (map static_step rs) \<union> links A 0 (map static_step rs'))"
  shows "static_current (fold (\<lambda>(ok, rd). static_append A ok rd) rs static_new)
      = static_current (fold (\<lambda>(ok, rd). static_append A ok rd) rs' static_new) \<longleftrightarrow> rs = rs'"
  using sr.items_bound[OF assms] by (auto simp: static_fold_chain static_new_def)

theorem static_rolling_hash_binds_witness:
  "static_current (fold (\<lambda>(ok, rd). static_append example_alloy ok rd) [(True, [1])] static_new)
   \<noteq> static_current (fold (\<lambda>(ok, rd). static_append example_alloy ok rd) [(True, [1]), (False, [2, 3])] static_new)"
proof -
  have "collision_free example_alloy (links example_alloy 0 (map static_step [(True, [1])])
      \<union> links example_alloy 0 (map static_step [(True, [1]), (False, [2, 3])]))"
    by (rule example_alloy_collision_free) (simp_all add: static_step_def inj_on_def example_alloy_keccak slice_link_def)
  from static_rolling_hash_binds[OF this] show ?thesis by simp
qed

text \<open>
  C10. The byte-slice decoder of a stored proxy entry is the Solidity bit-field layout: the low byte
  is the registration flag and must be exactly one, the next 160 bits are the original address, the
  next 64 bits the original rollup id, and the rest of the word is ignored.
\<close>

theorem decode_proxy_value_layout:
  "decode_proxy_value v =
     (if (ucast v :: u8) = 1
      then Some \<lparr>original_address = ucast (drop_bit 8 v), original_rollup_id = ucast (drop_bit 168 v)\<rparr>
      else None)"
proof -
  have "be_bytes 32 v ! 31 = ucast v" using as_slice_last[of v] by (simp add: as_slice_def)
  then show ?thesis
    by (simp add: decode_proxy_value_def Let_def of_be_bytes_slice)
qed

end
