(* ===== verification/Entries.thy ===== *)
theory Entries
  imports Rolling_Hash
begin

text \<open>
  Construction and decoding of execution entries, \<^verbatim>\<open>crates/eez-protocol/src/entries/mod.rs\<close>:
  the source-chain table, the immediate L1 entries, the finalisation of L1 rolling hashes, the inbound
  sidecar, the calldata decoder and the roles of settled entries. Log lines are not modelled.
\<close>

section \<open>The supported profile\<close>

definition UNSUCCESSFUL_CALL :: string where
  "UNSUCCESSFUL_CALL = ''unsuccessful cross-chain calls are not supported''"
definition STATIC_CALL :: string where
  "STATIC_CALL = ''static cross-chain calls are not supported''"
definition REVERT_SPAN :: string where
  "REVERT_SPAN = ''cross-chain call revert spans are not supported''"
definition NESTED_CALL :: string where
  "NESTED_CALL = ''nested cross-chain calls are not supported''"
definition SELF_CALL :: string where
  "SELF_CALL = ''same-chain cross-chain calls are not supported''"

definition supported_return_data :: "executed_action \<Rightarrow> bytes protocol_result" where
  "supported_return_data call =
     (if is_pending (ea_outcome call)
      then Inl (InvalidEncoding ''recorded cross-chain call still has a pending outcome'' [])
      else if ea_call_mode call = Static then Inl (Unsupported STATIC_CALL)
      else if ea_revert_span call \<noteq> None then Inl (Unsupported REVERT_SPAN)
      else case ea_outcome call of
          Resolved rd _ True \<Rightarrow> Inr rd
        | Resolved _ _ False \<Rightarrow> Inl (Unsupported UNSUCCESSFUL_CALL)
        | Pending \<Rightarrow> Inl (InvalidEncoding ''recorded cross-chain call still has a pending outcome'' []))"

definition supported_top_level_return_data :: "executed_action \<Rightarrow> rollup_id \<Rightarrow> bytes protocol_result" where
  "supported_top_level_return_data call source_rollup_id =
     and_then (supported_return_data call) (\<lambda>rd.
       if ea_source_rollup_id call \<noteq> source_rollup_id then Inl (Unsupported NESTED_CALL) else Inr rd)"

fun ensure_materializable_calls :: "executed_action list \<Rightarrow> unit protocol_result" where
  "ensure_materializable_calls [] = Inr ()"
| "ensure_materializable_calls (call # calls) =
     (if ea_source_rollup_id call = ea_target_rollup_id call then Inl (Unsupported SELF_CALL)
      else and_then (supported_return_data call) (\<lambda>_. ensure_materializable_calls calls))"

definition ensure_source_side_calls :: "executed_action list \<Rightarrow> rollup_id \<Rightarrow> unit protocol_result" where
  "ensure_source_side_calls calls source_rollup_id =
     (if list_ex (\<lambda>call. ea_source_rollup_id call \<noteq> source_rollup_id) calls
      then Inl (Unsupported NESTED_CALL) else Inr ())"

definition ensure_supported_flat_call :: "l2_to_l1_call \<Rightarrow> unit protocol_result" where
  "ensure_supported_flat_call call =
     (if revertNextNCalls call \<noteq> 0 then Inl (Unsupported REVERT_SPAN)
      else if isStatic call then Inl (Unsupported STATIC_CALL)
      else if call_gas call \<noteq> 0
      then Inl (Unsupported ''explicit cross-chain call gas limits are not supported'')
      else Inr ())"

definition l1_call_from_action :: "executed_action \<Rightarrow> l2_to_l1_call" where
  "l1_call_from_action call = \<lparr>revertNextNCalls = 0, isStatic = False, call_gas = 0,
     sourceAddress = ea_source_address call, sourceRollupId = ea_source_rollup_id call,
     targetAddress = ea_target_address call, call_value = ea_value call, call_data = ea_data call\<rparr>"

definition source_side_call_hash :: "alloy \<Rightarrow> executed_action \<Rightarrow> b256" where
  "source_side_call_hash A call = common_cross_chain_call_hash A
     \<lparr>chi_call_mode = ea_call_mode call, chi_source_address = ea_source_address call,
      chi_source_rollup_id = ea_source_rollup_id call, chi_target_address = ea_target_address call,
      chi_target_rollup_id = ea_target_rollup_id call, chi_value = ea_value call, chi_data = ea_data call\<rparr>"

definition batch_with_entries :: "execution_entry list \<Rightarrow> nat \<Rightarrow> evm_batch" where
  "batch_with_entries es immediate_count =
     default_batch\<lparr>entries := es, immediateEntryCount := of_nat immediate_count\<rparr>"

section \<open>Building batches\<close>

definition source_entry :: "alloy \<Rightarrow> rollup_id \<Rightarrow> executed_action \<Rightarrow> execution_entry protocol_result" where
  "source_entry A source_rollup_id call =
     and_then (supported_return_data call) (\<lambda>rd.
       let proxy_entry_hash = source_side_call_hash A call;
           rh = (if is_mainnet source_rollup_id then 0 else current (seed_for_l2 A proxy_entry_hash))
       in Inr \<lparr>rollupUpdates = [], proxyEntryHash = proxy_entry_hash, l2ToL1Calls = [],
            expectedL1ToL2Calls = [], rollingHash = rh, destinationRollupId = ea_target_rollup_id call,
            entry_success = True, returnData = rd\<rparr>)"

definition build_batch :: "alloy \<Rightarrow> executed_action list \<Rightarrow> rollup_id \<Rightarrow> evm_batch protocol_result" where
  "build_batch A recorded source_rollup_id =
     and_then (ensure_materializable_calls recorded) (\<lambda>_.
     let group = filter (\<lambda>call. ea_source_rollup_id call = source_rollup_id
                              \<or> ea_target_rollup_id call = source_rollup_id) recorded in
     and_then (ensure_source_side_calls group source_rollup_id) (\<lambda>_.
     and_then (map_result (source_entry A source_rollup_id) group) (\<lambda>es.
     Inr (batch_with_entries es 0))))"

definition l1_postbatch_entry :: "rollup_id \<Rightarrow> executed_action \<Rightarrow> execution_entry protocol_result" where
  "l1_postbatch_entry source_rollup_id call =
     and_then (supported_top_level_return_data call source_rollup_id) (\<lambda>rd.
       if \<not> is_mainnet (ea_target_rollup_id call)
       then Inl (Unsupported ''L1 post-batch entries only support L2-to-L1 calls'')
       else Inr \<lparr>rollupUpdates = [], proxyEntryHash = 0, l2ToL1Calls = [l1_call_from_action call],
              expectedL1ToL2Calls = [], rollingHash = 0, destinationRollupId = source_rollup_id,
              entry_success = True, returnData = rd\<rparr>)"

definition build_l1_postbatch :: "executed_action list \<Rightarrow> rollup_id \<Rightarrow> evm_batch protocol_result" where
  "build_l1_postbatch calls source_rollup_id =
     and_then (map_result (l1_postbatch_entry source_rollup_id) calls) (\<lambda>es.
       Inr (batch_with_entries es (length es)))"

definition build_l1_settlement_only :: "rollup_id \<Rightarrow> evm_batch" where
  "build_l1_settlement_only rollup_id = batch_with_entries
     [\<lparr>rollupUpdates = [], proxyEntryHash = 0, l2ToL1Calls = [], expectedL1ToL2Calls = [],
       rollingHash = 0, destinationRollupId = rollup_id, entry_success = True, returnData = []\<rparr>] 1"

definition build_l1_inbound_entry ::
    "alloy \<Rightarrow> address \<Rightarrow> u256 \<Rightarrow> bytes \<Rightarrow> address \<Rightarrow> rollup_id \<Rightarrow> bytes \<Rightarrow> evm_batch" where
  "build_l1_inbound_entry A target v data source destination_rollup_id rd =
     batch_with_entries
      [\<lparr>rollupUpdates = [],
        proxyEntryHash = common_cross_chain_call_hash A
          \<lparr>chi_call_mode = Mutable, chi_source_address = source, chi_source_rollup_id = MAINNET,
           chi_target_address = target, chi_target_rollup_id = destination_rollup_id,
           chi_value = v, chi_data = data\<rparr>,
        l2ToL1Calls = [], expectedL1ToL2Calls = [], rollingHash = 0,
        destinationRollupId = destination_rollup_id, entry_success = True, returnData = rd\<rparr>] 0"

section \<open>Finalising L1 rolling hashes\<close>

definition l1_flat_call_hash :: "alloy \<Rightarrow> l2_to_l1_call \<Rightarrow> b256" where
  "l1_flat_call_hash A call = common_cross_chain_call_hash A
     \<lparr>chi_call_mode = Mutable, chi_source_address = sourceAddress call,
      chi_source_rollup_id = sourceRollupId call, chi_target_address = targetAddress call,
      chi_target_rollup_id = MAINNET, chi_value = call_value call, chi_data = call_data call\<rparr>"

definition finalize_entry :: "alloy \<Rightarrow> nat \<Rightarrow> execution_entry \<Rightarrow> execution_entry protocol_result" where
  "finalize_entry A entry_index entry =
     (if rollupUpdates entry = []
      then Inl (InvalidEncoding ''L1 entry has no RollupUpdates'' [entry_index])
      else if \<not> entry_success entry then Inl (Unsupported UNSUCCESSFUL_CALL)
      else if expectedL1ToL2Calls entry \<noteq> [] then Inl (Unsupported NESTED_CALL)
      else if length (l2ToL1Calls entry) > 1
      then Inl (Unsupported ''multiple flat calls in one L1 entry are not supported'')
      else
        let seed = seed_for_l1 A (map (\<lambda>u. (ru_rollupId u, ru_currentRoot u)) (rollupUpdates entry))
                     (proxyEntryHash entry) in
        and_then (case l2ToL1Calls entry of
            [] \<Rightarrow> Inr seed
          | call # _ \<Rightarrow> and_then (ensure_supported_flat_call call) (\<lambda>_.
              Inr (call_end A (entry_success entry) (returnData entry)
                    (call_begin A (l1_flat_call_hash A call) seed)))) (\<lambda>rh.
        let entry' = entry\<lparr>rollingHash := current rh\<rparr> in
        Inr (if proxyEntryHash entry = 0 then entry'\<lparr>returnData := []\<rparr> else entry')))"

text \<open>
  The loop updates the entries in place and stops at the first error, leaving the entries before it
  finalised: the result is the mutated list together with the outcome.
\<close>

fun finalize_from :: "alloy \<Rightarrow> nat \<Rightarrow> execution_entry list \<Rightarrow> execution_entry list \<times> unit protocol_result" where
  "finalize_from A i [] = ([], Inr ())"
| "finalize_from A i (e # es) = (case finalize_entry A i e of
     Inl err \<Rightarrow> (e # es, Inl err)
   | Inr e' \<Rightarrow> (let (es', r) = finalize_from A (Suc i) es in (e' # es', r)))"

definition finalize_l1_rolling_hashes :: "alloy \<Rightarrow> evm_batch \<Rightarrow> evm_batch \<times> unit protocol_result" where
  "finalize_l1_rolling_hashes A batch =
     (if staticEntries batch \<noteq> [] then (batch, Inl (Unsupported STATIC_CALL))
      else let (es, r) = finalize_from A 0 (entries batch) in (batch\<lparr>entries := es\<rparr>, r))"

definition outbound_ether_out :: "execution_entry \<Rightarrow> u256 option" where
  "outbound_ether_out entry =
     (if expectedL1ToL2Calls entry \<noteq> [] then None
      else case l2ToL1Calls entry of
          [] \<Rightarrow> Some 0
        | [call] \<Rightarrow> Some (if entry_success entry then call_value call else 0)
        | _ \<Rightarrow> None)"

section \<open>Incoming and outbound L2 entries\<close>

record incoming_entry =
  inc_target :: address
  inc_source :: address
  inc_value :: u256
  inc_data :: bytes
  inc_source_rollup_id :: rollup_id
  inc_l2_rollup_id :: rollup_id
  inc_return_data :: bytes
  inc_success :: bool

definition incoming_call_hash :: "alloy \<Rightarrow> incoming_entry \<Rightarrow> b256" where
  "incoming_call_hash A entry = common_cross_chain_call_hash A
     \<lparr>chi_call_mode = Mutable, chi_source_address = inc_source entry,
      chi_source_rollup_id = inc_source_rollup_id entry, chi_target_address = inc_target entry,
      chi_target_rollup_id = inc_l2_rollup_id entry, chi_value = inc_value entry, chi_data = inc_data entry\<rparr>"

definition build_l2_incoming_entry :: "alloy \<Rightarrow> incoming_entry \<Rightarrow> l2_execution_entry protocol_result" where
  "build_l2_incoming_entry A entry =
     (if \<not> inc_success entry then Inl (Unsupported UNSUCCESSFUL_CALL)
      else let call_hash = incoming_call_hash A entry;
               rh = call_end A True (inc_return_data entry)
                      (call_begin A call_hash (seed_for_l2 A call_hash)) in
        Inr \<lparr>l2_proxyEntryHash = call_hash,
             incomingCalls = [\<lparr>revertNextNCalls = 0, isStatic = False, call_gas = 0,
               sourceAddress = inc_source entry, sourceRollupId = inc_source_rollup_id entry,
               targetAddress = inc_target entry, call_value = inc_value entry, call_data = inc_data entry\<rparr>],
             expectedOutgoingCalls = [], l2_rollingHash = current rh, l2_success = True,
             l2_returnData = inc_return_data entry\<rparr>)"

record outbound_entry =
  out_target :: address
  out_source :: address
  out_value :: u256
  out_data :: bytes
  out_l2_rollup_id :: rollup_id
  out_return_data :: bytes
  out_ok :: bool

definition build_l2_outbound_entry :: "alloy \<Rightarrow> outbound_entry \<Rightarrow> l2_execution_entry protocol_result" where
  "build_l2_outbound_entry A entry =
     (if \<not> out_ok entry then Inl (Unsupported UNSUCCESSFUL_CALL)
      else let proxy_entry_hash = l2_outbound_call_hash A
             \<lparr>chi_call_mode = Mutable, chi_source_address = out_source entry,
              chi_source_rollup_id = out_l2_rollup_id entry, chi_target_address = out_target entry,
              chi_target_rollup_id = MAINNET, chi_value = out_value entry, chi_data = out_data entry\<rparr> 0 in
        Inr \<lparr>l2_proxyEntryHash = proxy_entry_hash, incomingCalls = [], expectedOutgoingCalls = [],
             l2_rollingHash = current (seed_for_l2 A proxy_entry_hash), l2_success = True,
             l2_returnData = out_return_data entry\<rparr>)"

datatype inbound_sidecar = InboundSidecar (as_abi_entry: execution_entry)

definition inbound_sidecar_new :: "alloy \<Rightarrow> incoming_entry \<Rightarrow> inbound_sidecar protocol_result" where
  "inbound_sidecar_new A entry =
     (if is_mainnet (inc_l2_rollup_id entry) \<or> inc_source_rollup_id entry = inc_l2_rollup_id entry
      then Inl (Unsupported ''inbound sidecars require a different, non-L1 destination rollup'')
      else and_then (build_l2_incoming_entry A entry) (\<lambda>l2_entry.
        let call = incomingCalls l2_entry ! 0 in
        Inr (InboundSidecar \<lparr>rollupUpdates = [], proxyEntryHash = l2_proxyEntryHash l2_entry,
          l2ToL1Calls = [\<lparr>revertNextNCalls = 0, isStatic = False, call_gas = 0,
            sourceAddress = sourceAddress call, sourceRollupId = sourceRollupId call,
            targetAddress = targetAddress call, call_value = call_value call, call_data = call_data call\<rparr>],
          expectedL1ToL2Calls = [], rollingHash = l2_rollingHash l2_entry,
          destinationRollupId = inc_l2_rollup_id entry, entry_success = True,
          returnData = l2_returnData l2_entry\<rparr>)))"

definition encoded :: "alloy \<Rightarrow> inbound_sidecar \<Rightarrow> bytes" where
  "encoded A s = encode_entry A (as_abi_entry s)"

definition sidecar_incoming_entry :: "inbound_sidecar \<Rightarrow> incoming_entry" where
  "sidecar_incoming_entry s =
     (let call = l2ToL1Calls (as_abi_entry s) ! 0 in
      \<lparr>inc_target = targetAddress call, inc_source = sourceAddress call, inc_value = call_value call,
       inc_data = call_data call, inc_source_rollup_id = sourceRollupId call,
       inc_l2_rollup_id = destinationRollupId (as_abi_entry s),
       inc_return_data = returnData (as_abi_entry s), inc_success = True\<rparr>)"

definition inbound_sidecar_try_from :: "alloy \<Rightarrow> execution_entry \<Rightarrow> inbound_sidecar protocol_result" where
  "inbound_sidecar_try_from A entry = (case l2ToL1Calls entry of
     [call] \<Rightarrow>
       and_then (inbound_sidecar_new A \<lparr>inc_target = targetAddress call, inc_source = sourceAddress call,
           inc_value = call_value call, inc_data = call_data call,
           inc_source_rollup_id = sourceRollupId call, inc_l2_rollup_id = destinationRollupId entry,
           inc_return_data = returnData entry, inc_success = entry_success entry\<rparr>) (\<lambda>sidecar.
         if encoded A sidecar \<noteq> encode_entry A entry
         then Inl (InvalidEncoding ''noncanonical inbound sidecar (shape or L2 hashes differ)'' [])
         else Inr sidecar)
   | _ \<Rightarrow> Inl (InvalidEncoding ''inbound sidecar must contain exactly one incoming call'' []))"

definition inbound_target_entry :: "alloy \<Rightarrow> rollup_id \<Rightarrow> executed_action \<Rightarrow> execution_entry protocol_result" where
  "inbound_target_entry A target_rollup_id call =
     and_then (supported_return_data call) (\<lambda>rd.
       if ea_target_rollup_id call \<noteq> target_rollup_id \<or> ea_source_rollup_id call = target_rollup_id
       then Inl (Unsupported ''inbound sidecars only support top-level calls from another rollup'')
       else and_then (inbound_sidecar_new A
           \<lparr>inc_target = ea_target_address call, inc_source = ea_source_address call,
            inc_value = ea_value call, inc_data = ea_data call,
            inc_source_rollup_id = ea_source_rollup_id call, inc_l2_rollup_id = target_rollup_id,
            inc_return_data = rd, inc_success = True\<rparr>) (\<lambda>sidecar.
         Inr (as_abi_entry sidecar)))"

definition build_inbound_target_entries :: "alloy \<Rightarrow> executed_action list \<Rightarrow> rollup_id \<Rightarrow> evm_batch protocol_result" where
  "build_inbound_target_entries A calls target_rollup_id =
     and_then (map_result (inbound_target_entry A target_rollup_id) calls) (\<lambda>es.
       Inr (batch_with_entries es 0))"

section \<open>Calldata\<close>

definition encode_execute_incoming :: "alloy \<Rightarrow> l2_execution_entry \<Rightarrow> bytes" where
  "encode_execute_incoming A entry = encode_incoming_call A ([entry], [])"

record decoded_inbound =
  dec_target :: address
  dec_value :: u256
  dec_data :: bytes
  dec_source :: address
  dec_return_data :: bytes
  dec_success :: bool

definition decode_inbound :: "alloy \<Rightarrow> bytes \<Rightarrow> decoded_inbound option" where
  "decode_inbound A calldata = (case decode_incoming_call A calldata of
     None \<Rightarrow> None
   | Some (es, statics) \<Rightarrow>
      if length es \<noteq> 1 \<or> statics \<noteq> [] then None
      else let entry = hd es in
        if \<not> l2_success entry \<or> l2_proxyEntryHash entry = 0 \<or> length (incomingCalls entry) \<noteq> 1
           \<or> expectedOutgoingCalls entry \<noteq> [] then None
        else let incoming = hd (incomingCalls entry) in
          if revertNextNCalls incoming \<noteq> 0 \<or> isStatic incoming \<or> call_gas incoming \<noteq> 0 then None
          else let rh = call_end A (l2_success entry) (l2_returnData entry)
                 (call_begin A (l2_proxyEntryHash entry) (seed_for_l2 A (l2_proxyEntryHash entry))) in
            if current rh \<noteq> l2_rollingHash entry then None
            else Some \<lparr>dec_target = targetAddress incoming, dec_value = call_value incoming,
              dec_data = call_data incoming, dec_source = sourceAddress incoming,
              dec_return_data = l2_returnData entry, dec_success = l2_success entry\<rparr>)"

definition decode_inbound_return_data :: "alloy \<Rightarrow> bytes \<Rightarrow> bytes option" where
  "decode_inbound_return_data A calldata = map_option dec_return_data (decode_inbound A calldata)"

definition encode_postbatch :: "alloy \<Rightarrow> evm_batch \<Rightarrow> bytes" where
  "encode_postbatch A batch = encode_post_batch A batch"

definition decode_postbatch :: "alloy \<Rightarrow> bytes \<Rightarrow> evm_batch option" where
  "decode_postbatch A calldata = decode_post_batch A calldata"

section \<open>Entry roles\<close>

datatype entry_role =
    Anchor
  | Outbound nat
  | Inbound nat

fun roles_from :: "u64 \<Rightarrow> nat \<Rightarrow> nat \<Rightarrow> execution_entry list \<Rightarrow> entry_role option list" where
  "roles_from rollup_id outbound inbound [] = []"
| "roles_from rollup_id outbound inbound (entry # es) =
     (if \<not> list_ex (\<lambda>u. ru_rollupId u = rollup_id) (rollupUpdates entry)
      then None # roles_from rollup_id outbound inbound es
      else if proxyEntryHash entry \<noteq> 0
      then Some (Inbound inbound) # roles_from rollup_id outbound (Suc inbound) es
      else if l2ToL1Calls entry = []
      then Some Anchor # roles_from rollup_id outbound inbound es
      else Some (Outbound outbound) # roles_from rollup_id (Suc outbound) inbound es)"

definition entry_roles :: "execution_entry list \<Rightarrow> u64 \<Rightarrow> entry_role option list" where
  "entry_roles es rollup_id = roles_from rollup_id 0 0 es"

section \<open>What the builders accept\<close>

definition materializable :: "executed_action \<Rightarrow> bool" where
  "materializable call \<longleftrightarrow> ea_source_rollup_id call \<noteq> ea_target_rollup_id call
     \<and> ea_call_mode call = Mutable \<and> ea_revert_span call = None \<and> is_success (ea_outcome call)"

lemma call_mode_not_Static [simp]: "m \<noteq> Static \<longleftrightarrow> m = Mutable"
  by (cases m) simp_all

lemma supported_return_data_Inr:
  "supported_return_data call = Inr rd \<longleftrightarrow> ea_call_mode call = Mutable \<and> ea_revert_span call = None
     \<and> is_success (ea_outcome call) \<and> return_data (ea_outcome call) = Some rd"
  by (cases "ea_outcome call") (auto simp: supported_return_data_def split: bool.splits)

lemma is_success_return_data: "is_success out \<Longrightarrow> \<exists>rd. return_data out = Some rd"
  by (cases out) simp_all

lemma ensure_materializable_calls_Inr:
  "ensure_materializable_calls calls = Inr () \<longleftrightarrow> (\<forall>c \<in> set calls. materializable c)"
  by (induction calls) (auto simp: and_then_eq_Inr supported_return_data_Inr materializable_def dest: is_success_return_data)

definition table_entry :: "alloy \<Rightarrow> rollup_id \<Rightarrow> executed_action \<Rightarrow> execution_entry" where
  "table_entry A sid call = \<lparr>rollupUpdates = [], proxyEntryHash = source_side_call_hash A call,
     l2ToL1Calls = [], expectedL1ToL2Calls = [],
     rollingHash = (if sid = 0 then 0 else chain A 0 (transcript [] (source_side_call_hash A call) [])),
     destinationRollupId = ea_target_rollup_id call, entry_success = True,
     returnData = the (return_data (ea_outcome call))\<rparr>"

lemma source_entry_materializable:
  assumes "materializable call"
  shows "source_entry A sid call = Inr (table_entry A sid call)"
proof -
  obtain rd where rd: "return_data (ea_outcome call) = Some rd"
    using assms is_success_return_data by (auto simp: materializable_def)
  then have "supported_return_data call = Inr rd"
    using assms by (simp add: supported_return_data_Inr materializable_def)
  then show ?thesis using rd transcript_l2[of A "[]"]
    by (simp add: source_entry_def table_entry_def is_mainnet_def MAINNET_def Let_def)
qed

lemma map_source_entry:
  "\<forall>c \<in> set cs. materializable c \<Longrightarrow> map_result (source_entry A sid) cs = Inr (map (table_entry A sid) cs)"
  by (rule map_result_total) (simp add: source_entry_materializable)

section \<open>Ranks\<close>

definition updates_rollup :: "u64 \<Rightarrow> execution_entry \<Rightarrow> bool" where
  "updates_rollup rid e \<longleftrightarrow> rid \<in> ru_rollupId ` set (rollupUpdates e)"

definition inbound_of :: "u64 \<Rightarrow> execution_entry \<Rightarrow> bool" where
  "inbound_of rid e \<longleftrightarrow> updates_rollup rid e \<and> proxyEntryHash e \<noteq> 0"

definition outbound_of :: "u64 \<Rightarrow> execution_entry \<Rightarrow> bool" where
  "outbound_of rid e \<longleftrightarrow> updates_rollup rid e \<and> proxyEntryHash e = 0 \<and> l2ToL1Calls e \<noteq> []"

definition role_at :: "u64 \<Rightarrow> execution_entry list \<Rightarrow> nat \<Rightarrow> entry_role option" where
  "role_at rid es i =
     (if inbound_of rid (es ! i) then Some (Inbound (length (filter (inbound_of rid) (take i es))))
      else if outbound_of rid (es ! i) then Some (Outbound (length (filter (outbound_of rid) (take i es))))
      else if updates_rollup rid (es ! i) then Some Anchor else None)"

lemma roles_from_nth:
  "i < length es \<Longrightarrow> roles_from rid ob ib es ! i =
     (if inbound_of rid (es ! i) then Some (Inbound (ib + length (filter (inbound_of rid) (take i es))))
      else if outbound_of rid (es ! i) then Some (Outbound (ob + length (filter (outbound_of rid) (take i es))))
      else if updates_rollup rid (es ! i) then Some Anchor else None)"
proof (induction es arbitrary: i ob ib)
  case (Cons e es)
  have ex: "list_ex (\<lambda>u. ru_rollupId u = rid) (rollupUpdates e) \<longleftrightarrow> updates_rollup rid e"
    by (auto simp: list_ex_iff updates_rollup_def)
  show ?case
    using Cons by (cases i) (auto simp: ex inbound_of_def[of rid e] outbound_of_def[of rid e])
qed simp

lemma length_roles_from [simp]: "length (roles_from rid ob ib es) = length es"
  by (induction rid ob ib es rule: roles_from.induct) simp_all

section \<open>Finalisation\<close>

text \<open>The events an L1 entry folds, and the strings hashed for it.\<close>

definition entry_states :: "execution_entry \<Rightarrow> (u64 \<times> b256) list" where
  "entry_states e = map (\<lambda>u. (ru_rollupId u, ru_currentRoot u)) (rollupUpdates e)"

definition entry_events :: "alloy \<Rightarrow> execution_entry \<Rightarrow> event list" where
  "entry_events A e = (case l2ToL1Calls e of
     [] \<Rightarrow> [] | call # _ \<Rightarrow> [Call_begin (l1_flat_call_hash A call), Call_end (entry_success e) (returnData e)])"

definition flat_call_input :: "l2_to_l1_call \<Rightarrow> call_hash_input" where
  "flat_call_input call = \<lparr>chi_call_mode = Mutable, chi_source_address = sourceAddress call,
      chi_source_rollup_id = sourceRollupId call, chi_target_address = targetAddress call,
      chi_target_rollup_id = MAINNET, chi_value = call_value call, chi_data = call_data call\<rparr>"

definition entry_preimages :: "alloy \<Rightarrow> execution_entry \<Rightarrow> bytes set" where
  "entry_preimages A e = links A 0 (transcript (entry_states e) (proxyEntryHash e) (entry_events A e))
     \<union> (\<lambda>call. encode_call_params A (call_hash_params (flat_call_input call) 0)) ` set (l2ToL1Calls e)"

definition plain_call :: "l2_to_l1_call \<Rightarrow> bool" where
  "plain_call call \<longleftrightarrow> revertNextNCalls call = 0 \<and> \<not> isStatic call \<and> call_gas call = 0"

definition finalizable :: "execution_entry \<Rightarrow> bool" where
  "finalizable e \<longleftrightarrow> rollupUpdates e \<noteq> [] \<and> entry_success e \<and> expectedL1ToL2Calls e = []
     \<and> length (l2ToL1Calls e) \<le> 1 \<and> list_all plain_call (l2ToL1Calls e)"

definition finalized :: "alloy \<Rightarrow> execution_entry \<Rightarrow> execution_entry" where
  "finalized A e = e\<lparr>rollingHash := chain A 0 (transcript (entry_states e) (proxyEntryHash e) (entry_events A e)),
     returnData := (if proxyEntryHash e = 0 then [] else returnData e)\<rparr>"

lemma ensure_supported_flat_call_Inr: "ensure_supported_flat_call c = Inr () \<longleftrightarrow> plain_call c"
  by (simp add: ensure_supported_flat_call_def plain_call_def)

lemma l1_flat_call_hash_eq: "l1_flat_call_hash A c = cross_chain_call_hash A (flat_call_input c) 0"
  by (simp add: l1_flat_call_hash_def common_cross_chain_call_hash_def flat_call_input_def)

lemma finalize_entry_Inr: "finalize_entry A i e = Inr f \<longleftrightarrow> finalizable e \<and> f = finalized A e"
proof (cases "l2ToL1Calls e")
  case Nil
  then show ?thesis using transcript_l1[of A "[]" "entry_states e" "proxyEntryHash e"]
    by (auto simp: finalize_entry_def finalizable_def finalized_def Let_def entry_states_def entry_events_def)
next
  case (Cons c cs)
  then show ?thesis
    using transcript_l1[of A "entry_events A e" "entry_states e" "proxyEntryHash e"]
      ensure_supported_flat_call_Inr[of c]
    by (cases "ensure_supported_flat_call c")
      (auto simp: finalize_entry_def finalizable_def finalized_def Let_def entry_states_def entry_events_def)
qed

lemma finalize_from_Inr:
  "finalize_from A i es = (fs, Inr ()) \<longleftrightarrow> list_all finalizable es \<and> fs = map (finalized A) es"
proof (induction es arbitrary: i fs)
  case (Cons e es)
  show ?case
  proof (cases "finalize_entry A i e")
    case (Inl err)
    then have "\<not> finalizable e" using finalize_entry_Inr[of A i e] by auto
    with Inl show ?thesis by simp
  next
    case (Inr f)
    then have "finalizable e" "f = finalized A e" using finalize_entry_Inr[of A i e] by auto
    with Inr Cons[of "Suc i"] show ?thesis
      by (cases "finalize_from A (Suc i) es") (auto split: prod.splits)
  qed
qed auto

lemma plain_call_eqI:
  assumes "plain_call c" "plain_call d" "flat_call_input c = flat_call_input d"
  shows "c = (d :: l2_to_l1_call)"
  using assms by (cases c; cases d) (simp add: plain_call_def flat_call_input_def)

lemma finalized_call_bound:
  assumes enc: "inj (encode_call_params A)" and fin: "finalizable e" "finalizable e'"
    and cf: "collision_free A (entry_preimages A e \<union> entry_preimages A e')"
    and ev: "entry_events A e = entry_events A e'"
  shows "l2ToL1Calls e = l2ToL1Calls e' \<and> (l2ToL1Calls e \<noteq> [] \<longrightarrow> returnData e = returnData e')"
proof (cases "l2ToL1Calls e")
  case Nil
  with ev show ?thesis by (auto simp: entry_events_def split: list.splits)
next
  case (Cons c cs)
  with ev obtain d ds where d: "l2ToL1Calls e' = d # ds" and h: "l1_flat_call_hash A c = l1_flat_call_hash A d"
    and rd: "returnData e = returnData e'"
    by (auto simp: entry_events_def split: list.splits)
  have "collision_free A {encode_call_params A (call_hash_params (flat_call_input c) 0),
      encode_call_params A (call_hash_params (flat_call_input d) 0)}"
    by (rule collision_free_mono[OF cf]) (auto simp: entry_preimages_def Cons d)
  from call_hash_binds[OF enc this] h have "flat_call_input c = flat_call_input d"
    by (simp add: l1_flat_call_hash_eq)
  then have "c = d" using fin Cons d by (intro plain_call_eqI) (auto simp: finalizable_def)
  then show ?thesis using fin Cons d rd by (auto simp: finalizable_def)
qed

section \<open>Sidecars\<close>

definition entry_incoming :: "execution_entry \<Rightarrow> incoming_entry" where
  "entry_incoming e = (let call = hd (l2ToL1Calls e) in
     \<lparr>inc_target = targetAddress call, inc_source = sourceAddress call, inc_value = call_value call,
      inc_data = call_data call, inc_source_rollup_id = sourceRollupId call,
      inc_l2_rollup_id = destinationRollupId e, inc_return_data = returnData e, inc_success = entry_success e\<rparr>)"

definition sidecar_entry :: "alloy \<Rightarrow> incoming_entry \<Rightarrow> execution_entry" where
  "sidecar_entry A i = \<lparr>rollupUpdates = [], proxyEntryHash = incoming_call_hash A i,
     l2ToL1Calls = [\<lparr>revertNextNCalls = 0, isStatic = False, call_gas = 0, sourceAddress = inc_source i,
       sourceRollupId = inc_source_rollup_id i, targetAddress = inc_target i, call_value = inc_value i,
       call_data = inc_data i\<rparr>],
     expectedL1ToL2Calls = [],
     rollingHash = chain A 0 (transcript [] (incoming_call_hash A i)
       [Call_begin (incoming_call_hash A i), Call_end True (inc_return_data i)]),
     destinationRollupId = inc_l2_rollup_id i, entry_success = True, returnData = inc_return_data i\<rparr>"

definition deliverable :: "incoming_entry \<Rightarrow> bool" where
  "deliverable i \<longleftrightarrow> inc_l2_rollup_id i \<noteq> 0 \<and> inc_source_rollup_id i \<noteq> inc_l2_rollup_id i \<and> inc_success i"

lemma inbound_sidecar_new_Inr:
  "inbound_sidecar_new A i = Inr s \<longleftrightarrow> deliverable i \<and> s = InboundSidecar (sidecar_entry A i)"
  using transcript_l2[of A "[Call_begin (incoming_call_hash A i), Call_end True (inc_return_data i)]" "incoming_call_hash A i"]
  by (auto simp: inbound_sidecar_new_def deliverable_def build_l2_incoming_entry_def sidecar_entry_def
      is_mainnet_def MAINNET_def Let_def)

lemma entry_incoming_sidecar:
  "inc_success i \<Longrightarrow> entry_incoming (sidecar_entry A i) = (i :: incoming_entry)"
  by (cases i) (simp add: entry_incoming_def sidecar_entry_def Let_def)

lemma inbound_sidecar_try_from_Inr:
  "inbound_sidecar_try_from A e = Inr s \<longleftrightarrow> length (l2ToL1Calls e) = 1 \<and> deliverable (entry_incoming e)
     \<and> s = InboundSidecar (sidecar_entry A (entry_incoming e))
     \<and> encode_entry A (sidecar_entry A (entry_incoming e)) = encode_entry A e"
proof (cases "length (l2ToL1Calls e) = 1")
  case True
  then obtain call where "l2ToL1Calls e = [call]" by (cases "l2ToL1Calls e") auto
  then have "inbound_sidecar_try_from A e = and_then (inbound_sidecar_new A (entry_incoming e)) (\<lambda>sidecar.
      if encoded A sidecar \<noteq> encode_entry A e
      then Inl (InvalidEncoding ''noncanonical inbound sidecar (shape or L2 hashes differ)'' [])
      else Inr sidecar)"
    by (simp add: inbound_sidecar_try_from_def entry_incoming_def Let_def)
  then show ?thesis using True by (auto simp: and_then_eq_Inr inbound_sidecar_new_Inr encoded_def)
next
  case False
  then show ?thesis by (auto simp: inbound_sidecar_try_from_def split: list.splits)
qed

section \<open>Properties\<close>

text \<open>
  C22. Equal rolling hashes mean equal entries: when two batches are finalised, two of their L1
  entries can only carry the same rolling hash if they update the same rollups from the same roots in
  the same order, have the same proxy entry hash and make the same call with the same result, unless
  Keccak collides on a string hashed for one of them.
\<close>

theorem finalized_entries_bound:
  assumes "finalize_l1_rolling_hashes A b = (b', Inr ())" "finalize_l1_rolling_hashes A c = (c', Inr ())"
    and "m < length (entries b)" "n < length (entries c)"
    and "inj (encode_call_params A)"
    and "collision_free A (entry_preimages A (entries b ! m) \<union> entry_preimages A (entries c ! n))"
    and "rollingHash (entries b' ! m) = rollingHash (entries c' ! n)"
  shows "entry_states (entries b ! m) = entry_states (entries c ! n)
    \<and> proxyEntryHash (entries b' ! m) = proxyEntryHash (entries c' ! n)
    \<and> l2ToL1Calls (entries b' ! m) = l2ToL1Calls (entries c' ! n)
    \<and> (l2ToL1Calls (entries b' ! m) \<noteq> [] \<longrightarrow> returnData (entries b ! m) = returnData (entries c ! n))"
proof -
  let ?e = "entries b ! m" and ?f = "entries c ! n"
  have fin: "list_all finalizable (entries b)" "entries b' = map (finalized A) (entries b)"
    "list_all finalizable (entries c)" "entries c' = map (finalized A) (entries c)"
    using assms(1,2) by (auto simp: finalize_l1_rolling_hashes_def finalize_from_Inr split: if_splits prod.splits)
  have ok: "finalizable ?e" "finalizable ?f" using fin assms(3,4) by (auto simp: list_all_length)
  have "chain A 0 (transcript (entry_states ?e) (proxyEntryHash ?e) (entry_events A ?e))
      = chain A 0 (transcript (entry_states ?f) (proxyEntryHash ?f) (entry_events A ?f))"
    using assms(3,4,7) fin by (simp add: finalized_def)
  moreover have "collision_free A (links A 0 (transcript (entry_states ?e) (proxyEntryHash ?e) (entry_events A ?e))
      \<union> links A 0 (transcript (entry_states ?f) (proxyEntryHash ?f) (entry_events A ?f)))"
    by (rule collision_free_mono[OF assms(6)]) (auto simp: entry_preimages_def)
  ultimately have "entry_states ?e = entry_states ?f \<and> proxyEntryHash ?e = proxyEntryHash ?f
      \<and> entry_events A ?e = entry_events A ?f"
    by (blast dest: slices.chain_inject transcript_inject)
  with finalized_call_bound[OF assms(5) ok assms(6)] show ?thesis
    using assms(3,4) fin by (simp add: finalized_def)
qed

definition example_update :: rollup_update where
  "example_update = \<lparr>ru_rollupId = 1, ru_etherDelta = 0, ru_currentRoot = 2, ru_newRoot = 3\<rparr>"

definition example_call :: l2_to_l1_call where
  "example_call = \<lparr>revertNextNCalls = 0, isStatic = False, call_gas = 0, sourceAddress = 4,
     sourceRollupId = 1, targetAddress = 5, call_value = 6, call_data = [7]\<rparr>"

definition example_entry :: execution_entry where
  "example_entry = \<lparr>rollupUpdates = [example_update], proxyEntryHash = 0, l2ToL1Calls = [example_call],
     expectedL1ToL2Calls = [], rollingHash = 0, destinationRollupId = 1, entry_success = True,
     returnData = [8, 9]\<rparr>"

lemma example_entry_collision_free: "collision_free example_alloy (entry_preimages example_alloy example_entry)"
  by (rule example_alloy_lengths)
    (simp_all add: slice_link_def entry_preimages_def transcript_def state_step_def entry_states_def entry_events_def
      example_entry_def example_update_def example_call_def inj_on_def example_alloy_def
      call_hash_params_def flat_call_input_def)

theorem finalized_entries_bound_witness:
  "let b = batch_with_entries [example_entry] 1 in
   snd (finalize_l1_rolling_hashes example_alloy b) = Inr ()
   \<and> l2ToL1Calls (entries (fst (finalize_l1_rolling_hashes example_alloy b)) ! 0) = [example_call]"
proof -
  let ?b = "batch_with_entries [example_entry] 1"
  have "finalize_from example_alloy 0 [example_entry] = (map (finalized example_alloy) [example_entry], Inr ())"
    unfolding finalize_from_Inr
    by (simp add: finalizable_def example_entry_def plain_call_def example_call_def)
  then have b: "finalize_l1_rolling_hashes example_alloy ?b
      = (?b\<lparr>entries := [finalized example_alloy example_entry]\<rparr>, Inr ())"
    by (simp add: finalize_l1_rolling_hashes_def batch_with_entries_def default_batch_def)
  have len: "0 < length (entries ?b)" by (simp add: batch_with_entries_def)
  have e0: "entries ?b ! 0 = example_entry" by (simp add: batch_with_entries_def)
  have cf: "collision_free example_alloy (entry_preimages example_alloy (entries ?b ! 0)
      \<union> entry_preimages example_alloy (entries ?b ! 0))"
    unfolding e0 using example_entry_collision_free by simp
  note finalized_entries_bound[OF b b len len example_alloy_encodes cf refl]
  then show ?thesis using b by (simp add: Let_def finalized_def) (simp add: example_entry_def)
qed



text \<open>
  C13. Roles are ranks: the ordinal of an inbound (outbound) entry of a rollup is the number of
  inbound (outbound) entries of that rollup before it, an entry of another rollup has no role, and so
  skipping an entry of one direction never shifts the other.
\<close>

theorem entry_roles_are_ranks:
  "entry_roles es rid = map (role_at rid es) [0..<length es]"
  by (rule nth_equalityI) (simp_all add: entry_roles_def roles_from_nth role_at_def)

text \<open>
  C14. An inbound sidecar carries exactly its inputs: the sidecar built for an incoming entry gives
  the entry back, and its own ABI entry is accepted as canonical again.
\<close>

theorem sidecar_round_trip:
  assumes "inbound_sidecar_new A i = Inr s"
  shows "sidecar_incoming_entry s = i \<and> inbound_sidecar_try_from A (as_abi_entry s) = Inr s"
proof -
  have i: "deliverable i" "s = InboundSidecar (sidecar_entry A i)"
    using assms by (simp_all add: inbound_sidecar_new_Inr)
  then have "entry_incoming (sidecar_entry A i) = i"
    by (intro entry_incoming_sidecar) (simp add: deliverable_def)
  moreover have "sidecar_incoming_entry s = i"
    using i by (cases i) (simp add: sidecar_incoming_entry_def sidecar_entry_def deliverable_def)
  moreover have "length (l2ToL1Calls (sidecar_entry A i)) = 1" by (simp add: sidecar_entry_def)
  ultimately show ?thesis using i by (simp add: inbound_sidecar_try_from_Inr)
qed

definition example_incoming :: incoming_entry where
  "example_incoming = \<lparr>inc_target = 1, inc_source = 2, inc_value = 3, inc_data = [4], inc_source_rollup_id = 0,
     inc_l2_rollup_id = 7, inc_return_data = [5], inc_success = True\<rparr>"

lemma example_incoming_deliverable: "deliverable example_incoming"
  by (simp add: deliverable_def example_incoming_def)

theorem sidecar_round_trip_witness:
  "\<exists>s. inbound_sidecar_new example_alloy example_incoming = Inr s \<and> sidecar_incoming_entry s = example_incoming"
proof -
  have "inbound_sidecar_new example_alloy example_incoming
      = Inr (InboundSidecar (sidecar_entry example_alloy example_incoming))"
    using example_incoming_deliverable by (simp add: inbound_sidecar_new_Inr)
  then show ?thesis using sidecar_round_trip by blast
qed

text \<open>
  C15. Only canonical entries pass as sidecars: an entry is accepted if and only if it is, field by
  field, the sidecar of its own call, so no hash, flag, gas limit, state update or nested call can be
  altered. The ABI coder must tell the entry apart from the rebuilt one.
\<close>

theorem sidecar_accepts_only_canonical:
  assumes "inj_on (encode_entry A) {e, sidecar_entry A (entry_incoming e)}"
  shows "(\<exists>s. inbound_sidecar_try_from A e = Inr s) \<longleftrightarrow> (\<exists>i. deliverable i \<and> e = sidecar_entry A i)"
proof
  assume "\<exists>s. inbound_sidecar_try_from A e = Inr s"
  then have "deliverable (entry_incoming e)" "encode_entry A (sidecar_entry A (entry_incoming e)) = encode_entry A e"
    by (auto simp: inbound_sidecar_try_from_Inr)
  with inj_onD[OF assms, of e "sidecar_entry A (entry_incoming e)"]
  show "\<exists>i. deliverable i \<and> e = sidecar_entry A i" by auto
next
  assume "\<exists>i. deliverable i \<and> e = sidecar_entry A i"
  then obtain i where i: "deliverable i" "e = sidecar_entry A i" by blast
  then have "entry_incoming e = i" using entry_incoming_sidecar by (auto simp: deliverable_def)
  with i show "\<exists>s. inbound_sidecar_try_from A e = Inr s"
    by (auto simp: inbound_sidecar_try_from_Inr) (simp add: sidecar_entry_def)
qed

theorem sidecar_accepts_only_canonical_witness:
  "(\<exists>s. inbound_sidecar_try_from example_alloy (sidecar_entry example_alloy example_incoming) = Inr s)"
proof -
  let ?e = "sidecar_entry example_alloy example_incoming"
  have "entry_incoming ?e = example_incoming"
    using example_incoming_deliverable by (intro entry_incoming_sidecar) (simp add: deliverable_def)
  then have "inj_on (encode_entry example_alloy) {?e, sidecar_entry example_alloy (entry_incoming ?e)}" by simp
  from sidecar_accepts_only_canonical[OF this] show ?thesis using example_incoming_deliverable by blast
qed

text \<open>
  C16. The calldata decoder recovers what the builder committed: decoding the calldata of a built
  incoming entry returns the call's target, value, data and source and the committed return data,
  given that the ABI coder decodes what it encoded and the call hash is not zero.
\<close>

theorem decode_inbound_built:
  assumes "build_l2_incoming_entry A i = Inr e"
    and "decode_incoming_call A (encode_incoming_call A ([e], [])) = Some ([e], [])"
    and "incoming_call_hash A i \<noteq> 0"
  shows "decode_inbound A (encode_execute_incoming A e) =
    Some \<lparr>dec_target = inc_target i, dec_value = inc_value i, dec_data = inc_data i, dec_source = inc_source i,
      dec_return_data = inc_return_data i, dec_success = True\<rparr>"
  using assms
  by (auto simp: build_l2_incoming_entry_def decode_inbound_def encode_execute_incoming_def Let_def split: if_splits)

theorem decode_inbound_built_witness:
  "\<exists>A e. build_l2_incoming_entry A example_incoming = Inr e
    \<and> decode_inbound A (encode_execute_incoming A e) =
      Some \<lparr>dec_target = 1, dec_value = 3, dec_data = [4], dec_source = 2, dec_return_data = [5], dec_success = True\<rparr>"
proof -
  obtain e where e: "build_l2_incoming_entry example_alloy example_incoming = Inr e"
    by (simp add: build_l2_incoming_entry_def example_incoming_def Let_def)
  let ?A = "example_alloy\<lparr>encode_incoming_call := \<lambda>_. [1], decode_incoming_call := \<lambda>_. Some ([e], [])\<rparr>"
  have A: "keccak256 ?A = keccak256 example_alloy" "encode_call_params ?A = encode_call_params example_alloy"
    by simp_all
  have h: "incoming_call_hash ?A i = incoming_call_hash example_alloy i" for i
    by (simp add: incoming_call_hash_def common_cross_chain_call_hash_def cross_chain_call_hash_def)
  have e': "build_l2_incoming_entry ?A example_incoming = Inr e"
    using e by (simp add: build_l2_incoming_entry_def h seed_for_l2_def call_begin_def call_end_def hash_parts_def
        Let_def split: if_splits)
  have "collision_free example_alloy {encode_call_params example_alloy (call_hash_params
      \<lparr>chi_call_mode = Mutable, chi_source_address = 2, chi_source_rollup_id = 0, chi_target_address = 1,
       chi_target_rollup_id = 7, chi_value = 3, chi_data = [4]\<rparr> 0)}"
    by (rule example_alloy_lengths) (simp_all add: example_alloy_def call_hash_params_def)
  then have "incoming_call_hash ?A example_incoming \<noteq> 0"
    unfolding h by (auto simp: collision_free_def incoming_call_hash_def common_cross_chain_call_hash_def
        cross_chain_call_hash_def example_incoming_def)
  from decode_inbound_built[OF e' _ this] e' show ?thesis
    by (intro exI[of _ ?A] exI[of _ e]) (simp add: example_incoming_def)
qed

end
