(* ===== verification/State_Chain.thy ===== *)
theory State_Chain
  imports Entries
begin

text \<open>
  Continuity of the claimed state updates (\<^verbatim>\<open>crates/eez-proof-signer/src/settlement/state_chain.rs\<close>).
  The lemmas show that the check accepts exactly the batches whose updates form one path between the two
  validated block hashes.
\<close>

record verified_update_entry =
  vu_entry :: execution_entry
  vu_update :: rollup_update

record verified_update_chain =
  chain_rollup :: u64
  chain_leading :: verified_update_entry
  chain_trailing :: "verified_update_entry list"

datatype update_chain_error =
    NoEntries
  | UpdateCount nat nat
  | ExpectedRollupMismatch u64 u64
  | RollupMismatch nat u64 u64
  | InitialBlockMismatch b256 b256
  | UpdateChainBreak nat b256 b256
  | FinalMismatch b256 b256

definition sole_update :: "rollup_update list \<Rightarrow> nat \<Rightarrow> update_chain_error + rollup_update" where
  "sole_update updates i = (case updates of [u] \<Rightarrow> Inr u | _ \<Rightarrow> Inl (UpdateCount i (length updates)))"

fun verify_trailing ::
    "u64 \<Rightarrow> nat \<Rightarrow> b256 \<Rightarrow> execution_entry list \<Rightarrow> update_chain_error + verified_update_entry list \<times> b256" where
  "verify_trailing rollup i previous [] = Inr ([], previous)"
| "verify_trailing rollup i previous (entry # es) =
     and_then (sole_update (rollupUpdates entry) i) (\<lambda>u.
     if ru_rollupId u \<noteq> rollup then Inl (RollupMismatch i rollup (ru_rollupId u))
     else if ru_currentRoot u \<noteq> previous then Inl (UpdateChainBreak i previous (ru_currentRoot u))
     else and_then (verify_trailing rollup (Suc i) (ru_newRoot u) es) (\<lambda>(verified, final).
       Inr (\<lparr>vu_entry = entry, vu_update = u\<rparr> # verified, final)))"

definition verify_state_update_chain ::
    "evm_batch \<Rightarrow> u64 \<Rightarrow> b256 \<Rightarrow> b256 \<Rightarrow> update_chain_error + verified_update_chain" where
  "verify_state_update_chain batch expected_rollup pre_block_hash post_block_hash =
     (case entries batch of
        [] \<Rightarrow> Inl NoEntries
      | leading # trailing \<Rightarrow>
          and_then (sole_update (rollupUpdates leading) 0) (\<lambda>u.
          if ru_rollupId u \<noteq> expected_rollup then Inl (ExpectedRollupMismatch expected_rollup (ru_rollupId u))
          else if ru_currentRoot u \<noteq> pre_block_hash then Inl (InitialBlockMismatch pre_block_hash (ru_currentRoot u))
          else and_then (verify_trailing (ru_rollupId u) 1 (ru_newRoot u) trailing) (\<lambda>(verified, final).
          if final \<noteq> post_block_hash then Inl (FinalMismatch post_block_hash final)
          else Inr \<lparr>chain_rollup = expected_rollup, chain_leading = \<lparr>vu_entry = leading, vu_update = u\<rparr>,
            chain_trailing = verified\<rparr>)))"

section \<open>Exactness\<close>

abbreviation sole :: "execution_entry \<Rightarrow> rollup_update" where
  "sole e \<equiv> hd (rollupUpdates e)"

definition with_update :: "execution_entry \<Rightarrow> verified_update_entry" where
  "with_update e = \<lparr>vu_entry = e, vu_update = sole e\<rparr>"

definition updates_only :: "u64 \<Rightarrow> execution_entry \<Rightarrow> bool" where
  "updates_only rollup e \<longleftrightarrow> length (rollupUpdates e) = 1 \<and> ru_rollupId (sole e) = rollup"

text \<open>
  One path of commitments: read in order, the predecessors the entries claim are the opening hash
  followed by every claimed successor but the last, which is the closing hash.
\<close>

definition commitment_path :: "execution_entry list \<Rightarrow> b256 \<Rightarrow> b256 \<Rightarrow> bool" where
  "commitment_path es pre post \<longleftrightarrow>
     map (\<lambda>e. ru_currentRoot (sole e)) es @ [post] = pre # map (\<lambda>e. ru_newRoot (sole e)) es"

lemma sole_update_Inr: "sole_update us i = Inr u \<longleftrightarrow> us = [u]"
  by (auto simp: sole_update_def split: list.splits)

lemma verify_trailing_Inr:
  "verify_trailing rollup i previous es = Inr (verified, final) \<longleftrightarrow>
     list_all (updates_only rollup) es \<and> commitment_path es previous final \<and> verified = map with_update es"
proof (induction es arbitrary: i previous verified)
  case Nil
  then show ?case by (auto simp: commitment_path_def)
next
  case (Cons e es)
  show ?case
    by (cases "rollupUpdates e"; cases "tl (rollupUpdates e)")
      (auto simp: and_then_eq_Inr sole_update_Inr Cons.IH updates_only_def with_update_def commitment_path_def)
qed

lemma verify_state_update_chain_Inr:
  "verify_state_update_chain batch rollup pre post = Inr c \<longleftrightarrow>
     entries batch \<noteq> [] \<and> list_all (updates_only rollup) (entries batch) \<and> commitment_path (entries batch) pre post
     \<and> c = \<lparr>chain_rollup = rollup, chain_leading = with_update (hd (entries batch)),
        chain_trailing = map with_update (tl (entries batch))\<rparr>"
proof (cases "entries batch")
  case (Cons e es)
  show ?thesis
    by (cases "rollupUpdates e"; cases "tl (rollupUpdates e)")
      (auto simp: verify_state_update_chain_def Cons and_then_eq_Inr sole_update_Inr verify_trailing_Inr
        updates_only_def with_update_def commitment_path_def)
qed (simp add: verify_state_update_chain_def)

section \<open>Properties\<close>

text \<open>
  C16. The state-update chain check is exact: a batch passes for a rollup and two block hashes if and only
  if it has an entry, every entry carries exactly one update and it is for that rollup, and the updates
  form one unbroken path from the opening block hash to the closing one.
\<close>

theorem state_update_chain_exact:
  "verify_state_update_chain batch rollup pre post = Inr c \<longleftrightarrow>
     entries batch \<noteq> [] \<and> list_all (updates_only rollup) (entries batch)
     \<and> map (\<lambda>e. ru_currentRoot (hd (rollupUpdates e))) (entries batch) @ [post]
        = pre # map (\<lambda>e. ru_newRoot (hd (rollupUpdates e))) (entries batch)
     \<and> c = \<lparr>chain_rollup = rollup, chain_leading = with_update (hd (entries batch)),
        chain_trailing = map with_update (tl (entries batch))\<rparr>"
  by (simp add: verify_state_update_chain_Inr commitment_path_def)

end
