(* ===== verification/System_Tx.thy ===== *)
theory System_Tx
  imports Entries
begin

text \<open>
  Unsigned L2 system transactions and the layout of a Sync block:
  \<^verbatim>\<open>crates/eez-protocol/src/system_tx.rs\<close>, the framing helper of
  \<^verbatim>\<open>settlement.rs\<close> and the native envelope of \<^verbatim>\<open>crates/eez-primitives/src/lib.rs\<close>.
  The lemmas give the exact list of transactions a Sync block consists of, with their nonces, show that
  building it incrementally gives the same block, and that the pair boundaries can be read back from
  the system flags alone.
\<close>

section \<open>The native envelope\<close>

definition SYSTEM_TX_TYPE :: u8 where "SYSTEM_TX_TYPE = 0x76"
definition SYSTEM_ADDRESS :: address where "SYSTEM_ADDRESS = 0xeeeeeeeeeeeeeeeeeeeeeeeeeeeeeeeeeeee0076"
definition EEZL2_ADDRESS :: address where "EEZL2_ADDRESS = 0x4200000000000000000000000000000000000007"

datatype eip2718_error =
    UnexpectedType u8
  | RlpError
  | RlpCustom string

definition encode_2718 :: "alloy \<Rightarrow> system_transaction \<Rightarrow> bytes" where
  "encode_2718 A tx = SYSTEM_TX_TYPE # rlp_encode_system_tx A tx"

definition typed_decode :: "alloy \<Rightarrow> u8 \<Rightarrow> bytes \<Rightarrow> eip2718_error + system_transaction \<times> bytes" where
  "typed_decode A ty buf =
     (if ty \<noteq> SYSTEM_TX_TYPE then Inl (UnexpectedType ty)
      else case rlp_decode_system_tx A buf of
          None \<Rightarrow> Inl RlpError
        | Some (tx, buf') \<Rightarrow>
            if stx_to tx \<noteq> EEZL2_ADDRESS then Inl (RlpCustom ''system transaction must target EEZL2'')
            else Inr (tx, buf'))"

definition fallback_decode :: "bytes \<Rightarrow> eip2718_error + system_transaction \<times> bytes" where
  "fallback_decode buf = Inl (UnexpectedType 0)"

definition recover_signer :: "system_transaction \<Rightarrow> address" where
  "recover_signer tx = SYSTEM_ADDRESS"

section \<open>Builders\<close>

record system_tx_context =
  eezl2_address :: address
  l2_chain_id :: u64
  this_rollup_id :: u64

datatype system_tx_error =
    WrongTarget
  | NonceOverflow string
  | EntryError protocol_error
  | MultiCall string nat
  | NestedEntry string
  | UnsuccessfulEntry string
  | UnsupportedCall string
  | NoOutboundCall

definition encode_system_tx :: "alloy \<Rightarrow> u64 \<Rightarrow> address \<Rightarrow> bytes \<Rightarrow> u256 \<Rightarrow> u64 \<Rightarrow> system_tx_error + bytes" where
  "encode_system_tx A nonce to calldata v chain_id =
     (if to \<noteq> EEZL2_ADDRESS then Inl WrongTarget
      else Inr (encode_2718 A \<lparr>stx_chain_id = chain_id, stx_nonce = nonce, stx_to = to, stx_value = v,
        stx_input = calldata\<rparr>))"

fun build_inbound_system_txs ::
    "alloy \<Rightarrow> inbound_sidecar list \<Rightarrow> system_tx_context \<Rightarrow> u64 \<Rightarrow> system_tx_error + bytes list" where
  "build_inbound_system_txs A [] cfg nonce = Inr []"
| "build_inbound_system_txs A (entry # es) cfg nonce =
     (let incoming = sidecar_incoming_entry entry in
      if inc_l2_rollup_id incoming \<noteq> this_rollup_id cfg then build_inbound_system_txs A es cfg nonce
      else
        and_then (map_err EntryError (build_l2_incoming_entry A incoming)) (\<lambda>l2_entry.
        and_then (encode_system_tx A nonce (eezl2_address cfg) (encode_execute_incoming A l2_entry)
            (inc_value incoming) (l2_chain_id cfg)) (\<lambda>raw.
        and_then (ok_or (NonceOverflow ''build_inbound_system_txs'') (checked_add_word nonce 1)) (\<lambda>nonce'.
        and_then (build_inbound_system_txs A es cfg nonce') (\<lambda>out.
        Inr (raw # out))))))"

fun build_outbound_load_table_txs ::
    "alloy \<Rightarrow> l2_execution_entry list \<Rightarrow> system_tx_context \<Rightarrow> u64 \<Rightarrow> system_tx_error + bytes list" where
  "build_outbound_load_table_txs A [] cfg nonce = Inr []"
| "build_outbound_load_table_txs A (entry # es) cfg nonce =
     and_then (encode_system_tx A nonce (eezl2_address cfg) (encode_load_table A ([entry], [])) 0
         (l2_chain_id cfg)) (\<lambda>raw.
     and_then (ok_or (NonceOverflow ''build_outbound_load_table_txs'') (checked_add_word nonce 1)) (\<lambda>nonce'.
     and_then (build_outbound_load_table_txs A es cfg nonce') (\<lambda>out.
     Inr (raw # out))))"

record sync_pair =
  system_tx :: bytes
  user_tx :: "bytes option"

fun interleave_sync_block_txs :: "sync_pair list \<Rightarrow> bytes list" where
  "interleave_sync_block_txs [] = []"
| "interleave_sync_block_txs (pair # pairs) =
     system_tx pair # (case user_tx pair of None \<Rightarrow> [] | Some u \<Rightarrow> [u]) @ interleave_sync_block_txs pairs"

definition check_entry_shape :: "execution_entry \<Rightarrow> string \<Rightarrow> system_tx_error + unit" where
  "check_entry_shape entry dir =
     (if length (l2ToL1Calls entry) > 1 then Inl (MultiCall dir (length (l2ToL1Calls entry)))
      else if expectedL1ToL2Calls entry \<noteq> [] then Inl (NestedEntry dir)
      else if \<not> entry_success entry then Inl (UnsuccessfulEntry dir)
      else if list_ex (\<lambda>call. isStatic call \<or> revertNextNCalls call \<noteq> 0 \<or> call_gas call \<noteq> 0) (l2ToL1Calls entry)
      then Inl (UnsupportedCall dir)
      else Inr ())"

definition build_outbound_pair ::
    "alloy \<Rightarrow> execution_entry \<Rightarrow> bytes \<Rightarrow> system_tx_context \<Rightarrow> u64 \<Rightarrow> system_tx_error + sync_pair list" where
  "build_outbound_pair A entry user cfg starting_nonce =
     and_then (check_entry_shape entry ''outbound'') (\<lambda>_.
     case l2ToL1Calls entry of
       [] \<Rightarrow> Inl NoOutboundCall
     | call # _ \<Rightarrow>
         and_then (map_err EntryError (build_l2_outbound_entry A
           \<lparr>out_target = targetAddress call, out_source = sourceAddress call, out_value = call_value call,
            out_data = call_data call, out_l2_rollup_id = this_rollup_id cfg,
            out_return_data = returnData entry, out_ok = entry_success entry\<rparr>)) (\<lambda>l2_entry.
         and_then (build_outbound_load_table_txs A [l2_entry] cfg starting_nonce) (\<lambda>loads.
         Inr (map (\<lambda>load. \<lparr>system_tx = load, user_tx = Some user\<rparr>) loads))))"

definition convert_inbound :: "alloy \<Rightarrow> execution_entry \<Rightarrow> system_tx_error + inbound_sidecar" where
  "convert_inbound A entry =
     and_then (check_entry_shape entry ''inbound'') (\<lambda>_.
       map_err EntryError (inbound_sidecar_try_from A entry))"

fun build_outbound_pairs ::
    "alloy \<Rightarrow> (execution_entry \<times> bytes) list \<Rightarrow> system_tx_context \<Rightarrow> u64 \<Rightarrow> system_tx_error + sync_pair list \<times> u64" where
  "build_outbound_pairs A [] cfg nonce = Inr ([], nonce)"
| "build_outbound_pairs A ((entry, user) # os) cfg nonce =
     and_then (build_outbound_pair A entry user cfg nonce) (\<lambda>built.
     and_then (ok_or (NonceOverflow ''outbound loads'') (checked_add_word nonce (of_nat (length built)))) (\<lambda>nonce'.
     and_then (build_outbound_pairs A os cfg nonce') (\<lambda>(pairs, nonce'').
     Inr (built @ pairs, nonce''))))"

definition build_cross_chain_sync_pairs ::
    "alloy \<Rightarrow> (execution_entry \<times> bytes) list \<Rightarrow> execution_entry list \<Rightarrow> system_tx_context \<Rightarrow> u64
      \<Rightarrow> system_tx_error + sync_pair list" where
  "build_cross_chain_sync_pairs A outbound inbound cfg starting_nonce =
     and_then (map_result (convert_inbound A) inbound) (\<lambda>inbound.
     and_then (build_outbound_pairs A outbound cfg starting_nonce) (\<lambda>(pairs, nonce).
     and_then (build_inbound_system_txs A inbound cfg nonce) (\<lambda>deliveries.
     Inr (pairs @ map (\<lambda>d. \<lparr>system_tx = d, user_tx = None\<rparr>) deliveries))))"

section \<open>Framing\<close>

definition pair_end_positions :: "bool list \<Rightarrow> nat list" where
  "pair_end_positions is_system =
     filter (\<lambda>i. \<not> is_system ! i \<or> (if Suc i < length is_system then is_system ! Suc i else True))
       [0..<length is_system]"

section \<open>The canonical layout\<close>

text \<open>Number payloads (calldata and value) from a starting nonce.\<close>

fun numbered :: "system_tx_context \<Rightarrow> nat \<Rightarrow> (bytes \<times> u256) list \<Rightarrow> system_transaction list" where
  "numbered cfg n [] = []"
| "numbered cfg n ((input, v) # ps) =
     \<lparr>stx_chain_id = l2_chain_id cfg, stx_nonce = of_nat n, stx_to = EEZL2_ADDRESS, stx_value = v,
      stx_input = input\<rparr> # numbered cfg (Suc n) ps"

definition load_entry :: "alloy \<Rightarrow> u64 \<Rightarrow> execution_entry \<Rightarrow> l2_execution_entry" where
  "load_entry A rid e = (let call = hd (l2ToL1Calls e);
       h = cross_chain_call_hash A \<lparr>chi_call_mode = Mutable, chi_source_address = sourceAddress call,
         chi_source_rollup_id = rid, chi_target_address = targetAddress call, chi_target_rollup_id = MAINNET,
         chi_value = call_value call, chi_data = call_data call\<rparr> 0
     in \<lparr>l2_proxyEntryHash = h, incomingCalls = [], expectedOutgoingCalls = [],
         l2_rollingHash = current (seed_for_l2 A h), l2_success = True, l2_returnData = returnData e\<rparr>)"

definition load_payload :: "alloy \<Rightarrow> u64 \<Rightarrow> execution_entry \<Rightarrow> bytes \<times> u256" where
  "load_payload A rid e = (encode_load_table A ([load_entry A rid e], []), 0)"

definition deliver_entry :: "alloy \<Rightarrow> incoming_entry \<Rightarrow> l2_execution_entry" where
  "deliver_entry A i = \<lparr>l2_proxyEntryHash = incoming_call_hash A i,
     incomingCalls = [\<lparr>revertNextNCalls = 0, isStatic = False, call_gas = 0, sourceAddress = inc_source i,
       sourceRollupId = inc_source_rollup_id i, targetAddress = inc_target i, call_value = inc_value i,
       call_data = inc_data i\<rparr>],
     expectedOutgoingCalls = [],
     l2_rollingHash = current (call_end A True (inc_return_data i)
       (call_begin A (incoming_call_hash A i) (seed_for_l2 A (incoming_call_hash A i)))),
     l2_success = True, l2_returnData = inc_return_data i\<rparr>"

definition deliver_payload :: "alloy \<Rightarrow> incoming_entry \<Rightarrow> bytes \<times> u256" where
  "deliver_payload A i = (encode_incoming_call A ([deliver_entry A i], []), inc_value i)"

lemma numbered_append: "numbered cfg n (ps @ qs) = numbered cfg n ps @ numbered cfg (n + length ps) qs"
  by (induction cfg n ps rule: numbered.induct) simp_all

lemma length_numbered [simp]: "length (numbered cfg n ps) = length ps"
  by (induction cfg n ps rule: numbered.induct) simp_all

lemma checked_add_one: "checked_add_word (n :: u64) 1 = Some m \<longleftrightarrow> Suc (unat n) < 2 ^ 64 \<and> m = n + 1"
  by (auto simp: checked_add_word_Some)

definition outbound_ok :: "execution_entry \<Rightarrow> bool" where
  "outbound_ok e \<longleftrightarrow> entry_success e \<and> expectedL1ToL2Calls e = [] \<and> (\<exists>call. l2ToL1Calls e = [call] \<and> plain_call call)"

definition sync_pairs :: "alloy \<Rightarrow> system_transaction list \<Rightarrow> bytes option list \<Rightarrow> sync_pair list" where
  "sync_pairs A txs users = map2 (\<lambda>tx u. \<lparr>system_tx = encode_2718 A tx, user_tx = u\<rparr>) txs users"

lemma sync_pairs_append:
  "length txs = length users \<Longrightarrow> sync_pairs A (txs @ txs') (users @ users') = sync_pairs A txs users @ sync_pairs A txs' users'"
  by (simp add: sync_pairs_def)

lemma map_user_tx: "length txs = length users \<Longrightarrow> map user_tx (sync_pairs A txs users) = users"
  by (induction txs users rule: list_induct2) (simp_all add: sync_pairs_def)

lemma check_entry_shape_Inr:
  "check_entry_shape e dir = Inr () \<longleftrightarrow> length (l2ToL1Calls e) \<le> 1 \<and> expectedL1ToL2Calls e = [] \<and> entry_success e
     \<and> list_all plain_call (l2ToL1Calls e)"
  by (auto simp: check_entry_shape_def list_ex_iff list_all_iff plain_call_def)

lemma encode_system_tx_Inr:
  "encode_system_tx A nonce to input v cid = Inr raw \<longleftrightarrow> to = EEZL2_ADDRESS
     \<and> raw = encode_2718 A \<lparr>stx_chain_id = cid, stx_nonce = nonce, stx_to = EEZL2_ADDRESS, stx_value = v, stx_input = input\<rparr>"
  by (auto simp: encode_system_tx_def)

lemma numbered_one:
  "numbered cfg (unat n) [(input, v)] = [\<lparr>stx_chain_id = l2_chain_id cfg, stx_nonce = n, stx_to = EEZL2_ADDRESS,
     stx_value = v, stx_input = input\<rparr>]"
  by (simp add: of_nat_unat_id del: of_nat_unat)

lemma load_one_Inr:
  "build_outbound_load_table_txs A [l] cfg n = Inr loads \<longleftrightarrow> eezl2_address cfg = EEZL2_ADDRESS \<and> Suc (unat n) < 2 ^ 64
     \<and> loads = map (encode_2718 A) (numbered cfg (unat n) [(encode_load_table A ([l], []), 0)])"
  unfolding numbered_one by (auto simp: and_then_eq_Inr encode_system_tx_Inr checked_add_one)

lemma build_l2_outbound_load_entry:
  assumes "l2ToL1Calls e = [call]" "entry_success e"
  shows "build_l2_outbound_entry A \<lparr>out_target = targetAddress call, out_source = sourceAddress call,
      out_value = call_value call, out_data = call_data call, out_l2_rollup_id = rid,
      out_return_data = returnData e, out_ok = entry_success e\<rparr> = Inr (load_entry A rid e)"
  using assms by (simp add: build_l2_outbound_entry_def load_entry_def l2_outbound_call_hash_def Let_def)

lemma build_outbound_pair_Inr:
  "build_outbound_pair A e u cfg n = Inr built \<longleftrightarrow> outbound_ok e \<and> eezl2_address cfg = EEZL2_ADDRESS
     \<and> Suc (unat n) < 2 ^ 64
     \<and> built = sync_pairs A (numbered cfg (unat n) [load_payload A (this_rollup_id cfg) e]) [Some u]"
proof (cases "outbound_ok e")
  case True
  then obtain call where c: "l2ToL1Calls e = [call]" "entry_success e" "check_entry_shape e ''outbound'' = Inr ()"
    by (auto simp: outbound_ok_def check_entry_shape_Inr)
  have eq: "build_outbound_pair A e u cfg n =
      and_then (build_outbound_load_table_txs A [load_entry A (this_rollup_id cfg) e] cfg n) (\<lambda>loads.
        Inr (map (\<lambda>load. \<lparr>system_tx = load, user_tx = Some u\<rparr>) loads))"
    by (simp only: build_outbound_pair_def c(1,3) build_l2_outbound_load_entry[OF c(1,2)] and_then_Inr list.case map_err_simps)
  show ?thesis
    unfolding eq and_then_eq_Inr load_one_Inr load_payload_def numbered_one sync_pairs_def
    using True by auto
next
  case False
  have "build_outbound_pair A e u cfg n \<noteq> Inr built"
  proof
    assume b: "build_outbound_pair A e u cfg n = Inr built"
    then have "check_entry_shape e ''outbound'' = Inr ()" "l2ToL1Calls e \<noteq> []"
      by (auto simp: build_outbound_pair_def and_then_eq_Inr)
    then have "outbound_ok e"
      by (cases "l2ToL1Calls e") (auto simp: check_entry_shape_Inr outbound_ok_def)
    with False show False ..
  qed
  with False show ?thesis by simp
qed

lemma unat_Suc_nonce: "Suc (unat n) < 2 ^ 64 \<Longrightarrow> unat (n + 1 :: u64) = Suc (unat n)"
  using unat_add_no_overflow[of n 1] by simp

lemma build_outbound_pairs_Inr:
  "build_outbound_pairs A os cfg n = Inr (pairs, m) \<longleftrightarrow>
     (\<forall>x \<in> set os. outbound_ok (fst x)) \<and> (os \<noteq> [] \<longrightarrow> eezl2_address cfg = EEZL2_ADDRESS)
     \<and> unat n + length os < 2 ^ 64 \<and> m = n + of_nat (length os)
     \<and> pairs = sync_pairs A (numbered cfg (unat n) (map (\<lambda>x. load_payload A (this_rollup_id cfg) (fst x)) os)) (map (\<lambda>x. Some (snd x)) os)"
proof (induction os arbitrary: n pairs)
  case Nil
  then show ?case using unat_lt_len[of n] by (auto simp: sync_pairs_def)
next
  case (Cons x os)
  obtain e u where x: "x = (e, u)" by (cases x)
  let ?p = "sync_pairs A (numbered cfg (unat n) [load_payload A (this_rollup_id cfg) e]) [Some u]"
  have app: "sync_pairs A (numbered cfg (unat n) (map (\<lambda>x. load_payload A (this_rollup_id cfg) (fst x)) (x # os)))
      (map (\<lambda>x. Some (snd x)) (x # os))
    = ?p @ sync_pairs A (numbered cfg (Suc (unat n)) (map (\<lambda>x. load_payload A (this_rollup_id cfg) (fst x)) os)) (map (\<lambda>x. Some (snd x)) os)"
  proof -
    have split: "map (\<lambda>x. load_payload A (this_rollup_id cfg) (fst x)) (x # os)
        = [load_payload A (this_rollup_id cfg) e] @ map (\<lambda>x. load_payload A (this_rollup_id cfg) (fst x)) os"
      "map (\<lambda>x. Some (snd x)) (x # os) = [Some u] @ map (\<lambda>x. Some (snd x)) os"
      by (simp_all add: x)
    show ?thesis unfolding split numbered_append by (subst sync_pairs_append) simp_all
  qed
  show ?case
  proof (cases "outbound_ok e \<and> eezl2_address cfg = EEZL2_ADDRESS \<and> Suc (unat n) < 2 ^ 64")
    case True
    then have p: "build_outbound_pair A e u cfg n = Inr ?p" using build_outbound_pair_Inr by blast
    have "length ?p = 1" by (simp add: sync_pairs_def)
    then have c: "checked_add_word n (of_nat (length ?p)) = Some (n + 1)"
      using True checked_add_one[of n "n + 1"] by simp
    have eq: "build_outbound_pairs A (x # os) cfg n = and_then (build_outbound_pairs A os cfg (n + 1))
        (\<lambda>(ps, m). Inr (?p @ ps, m))"
      by (simp only: x build_outbound_pairs.simps p c and_then_Inr ok_or_simps)
    have IH: "build_outbound_pairs A os cfg (n + 1) = Inr (ps, m) \<longleftrightarrow>
        (\<forall>x \<in> set os. outbound_ok (fst x)) \<and> unat n + length (x # os) < 2 ^ 64 \<and> m = n + of_nat (length (x # os))
        \<and> ps = sync_pairs A (numbered cfg (Suc (unat n)) (map (\<lambda>x. load_payload A (this_rollup_id cfg) (fst x)) os)) (map (\<lambda>x. Some (snd x)) os)"
      for ps
      using Cons.IH[of "n + 1" ps] unat_Suc_nonce[of n] True by (simp add: add.assoc)
    have "build_outbound_pairs A (x # os) cfg n = Inr (pairs, m) \<longleftrightarrow>
        (\<exists>ps. build_outbound_pairs A os cfg (n + 1) = Inr (ps, m) \<and> pairs = ?p @ ps)"
      unfolding eq and_then_eq_Inr by auto
    then show ?thesis unfolding app IH using True x by auto
  next
    case False
    then have "build_outbound_pair A e u cfg n \<noteq> Inr built" for built using build_outbound_pair_Inr by blast
    then have "build_outbound_pairs A (x # os) cfg n \<noteq> Inr (pairs, m)"
      by (auto simp: x and_then_eq_Inr)
    with False x show ?thesis by auto
  qed
qed

definition ours :: "system_tx_context \<Rightarrow> inbound_sidecar \<Rightarrow> bool" where
  "ours cfg s \<longleftrightarrow> destinationRollupId (as_abi_entry s) = this_rollup_id cfg"

lemma sidecar_incoming_fields [simp]:
  "inc_success (sidecar_incoming_entry s)"
  "inc_l2_rollup_id (sidecar_incoming_entry s) = destinationRollupId (as_abi_entry s)"
  by (simp_all add: sidecar_incoming_entry_def Let_def)

lemma build_l2_incoming_deliver:
  "inc_success i \<Longrightarrow> build_l2_incoming_entry A i = Inr (deliver_entry A i)"
  by (simp add: build_l2_incoming_entry_def deliver_entry_def Let_def)

lemma build_inbound_system_txs_Inr:
  "build_inbound_system_txs A ss cfg n = Inr ds \<longleftrightarrow>
     (filter (ours cfg) ss \<noteq> [] \<longrightarrow> eezl2_address cfg = EEZL2_ADDRESS)
     \<and> unat n + length (filter (ours cfg) ss) < 2 ^ 64
     \<and> ds = map (encode_2718 A) (numbered cfg (unat n)
         (map (\<lambda>s. deliver_payload A (sidecar_incoming_entry s)) (filter (ours cfg) ss)))"
proof (induction ss arbitrary: n ds)
  case Nil
  then show ?case using unat_lt_len[of n] by auto
next
  case (Cons s ss)
  let ?i = "sidecar_incoming_entry s"
  let ?raw = "encode_2718 A \<lparr>stx_chain_id = l2_chain_id cfg, stx_nonce = n, stx_to = EEZL2_ADDRESS,
     stx_value = inc_value ?i, stx_input = encode_incoming_call A ([deliver_entry A ?i], [])\<rparr>"
  let ?rest = "map (\<lambda>s. deliver_payload A (sidecar_incoming_entry s)) (filter (ours cfg) ss)"
  have num: "numbered cfg (unat n) (deliver_payload A ?i # ?rest)
      = \<lparr>stx_chain_id = l2_chain_id cfg, stx_nonce = n, stx_to = EEZL2_ADDRESS,
         stx_value = inc_value ?i, stx_input = encode_incoming_call A ([deliver_entry A ?i], [])\<rparr>
        # numbered cfg (Suc (unat n)) ?rest"
    by (simp add: deliver_payload_def of_nat_unat_id del: of_nat_unat)
  show ?case
  proof (cases "ours cfg s")
    case False
    then have "build_inbound_system_txs A (s # ss) cfg n = build_inbound_system_txs A ss cfg n"
      by (simp add: ours_def Let_def)
    with Cons.IH False show ?thesis by simp
  next
    case True
    then have eq: "build_inbound_system_txs A (s # ss) cfg n =
        and_then (encode_system_tx A n (eezl2_address cfg) (encode_incoming_call A ([deliver_entry A ?i], []))
          (inc_value ?i) (l2_chain_id cfg)) (\<lambda>raw.
        and_then (ok_or (NonceOverflow ''build_inbound_system_txs'') (checked_add_word n 1)) (\<lambda>nonce'.
        and_then (build_inbound_system_txs A ss cfg nonce') (\<lambda>out. Inr (raw # out))))"
      by (simp add: ours_def Let_def build_l2_incoming_deliver encode_execute_incoming_def)
    have IH: "Suc (unat n) < 2 ^ 64 \<Longrightarrow> build_inbound_system_txs A ss cfg (n + 1) = Inr out \<longleftrightarrow>
        (filter (ours cfg) ss \<noteq> [] \<longrightarrow> eezl2_address cfg = EEZL2_ADDRESS)
        \<and> unat n + length (filter (ours cfg) (s # ss)) < 2 ^ 64
        \<and> out = map (encode_2718 A) (numbered cfg (Suc (unat n)) ?rest)" for out
      using Cons.IH[of "n + 1" out] unat_Suc_nonce[of n] True by simp
    have "build_inbound_system_txs A (s # ss) cfg n = Inr ds \<longleftrightarrow>
        eezl2_address cfg = EEZL2_ADDRESS \<and> Suc (unat n) < 2 ^ 64
        \<and> (\<exists>out. build_inbound_system_txs A ss cfg (n + 1) = Inr out \<and> ds = ?raw # out)"
      unfolding eq and_then_eq_Inr encode_system_tx_Inr ok_or_eq_Inr checked_add_one by auto
    also have "\<dots> \<longleftrightarrow> eezl2_address cfg = EEZL2_ADDRESS
        \<and> unat n + length (filter (ours cfg) (s # ss)) < 2 ^ 64
        \<and> ds = ?raw # map (encode_2718 A) (numbered cfg (Suc (unat n)) ?rest)"
      using IH True by auto
    finally show ?thesis using True num by simp
  qed
qed

definition inbound_ok :: "alloy \<Rightarrow> execution_entry \<Rightarrow> bool" where
  "inbound_ok A e \<longleftrightarrow> is_ok (convert_inbound A e)"

lemma convert_inbound_Inr:
  assumes "convert_inbound A e = Inr s"
  shows "sidecar_incoming_entry s = entry_incoming e" "destinationRollupId (as_abi_entry s) = destinationRollupId e"
proof -
  from assms have "inbound_sidecar_try_from A e = Inr s"
    by (auto simp: convert_inbound_def and_then_eq_Inr)
  then have s: "deliverable (entry_incoming e)" "s = InboundSidecar (sidecar_entry A (entry_incoming e))"
    by (simp_all add: inbound_sidecar_try_from_Inr)
  show "destinationRollupId (as_abi_entry s) = destinationRollupId e"
    by (simp add: s(2) sidecar_entry_def entry_incoming_def Let_def)
  have "sidecar_incoming_entry (InboundSidecar (sidecar_entry A i)) = i" if "inc_success i" for i :: incoming_entry
    using that by (cases i) (simp add: sidecar_incoming_entry_def sidecar_entry_def)
  with s show "sidecar_incoming_entry s = entry_incoming e" by (simp add: deliverable_def)
qed

definition for_us :: "system_tx_context \<Rightarrow> execution_entry \<Rightarrow> bool" where
  "for_us cfg e \<longleftrightarrow> destinationRollupId e = this_rollup_id cfg"

lemma convert_all_inbound:
  "list_all (inbound_ok A) inbound \<Longrightarrow> \<exists>ss. map_result (convert_inbound A) inbound = Inr ss
     \<and> map sidecar_incoming_entry (filter (ours cfg) ss) = map entry_incoming (filter (for_us cfg) inbound)"
proof (induction inbound)
  case (Cons e es)
  then obtain s ss where "convert_inbound A e = Inr s" "map_result (convert_inbound A) es = Inr ss"
    "map sidecar_incoming_entry (filter (ours cfg) ss) = map entry_incoming (filter (for_us cfg) es)"
    by (auto simp: inbound_ok_def is_ok_iff)
  then show ?case using convert_inbound_Inr[of A e s]
    by (intro exI[of _ "s # ss"]) (simp add: ours_def[of cfg s] for_us_def[of cfg e])
qed simp

lemma convert_all_inbound_ok: "map_result (convert_inbound A) inbound = Inr ss \<Longrightarrow> list_all (inbound_ok A) inbound"
  by (auto simp: map_result_Inr_iff list_all2_conv_all_nth list_all_length inbound_ok_def is_ok_iff)

text \<open>All loads with their users first, then the deliveries, numbered in this order.\<close>

definition sync_payloads ::
    "alloy \<Rightarrow> system_tx_context \<Rightarrow> (execution_entry \<times> bytes) list \<Rightarrow> execution_entry list \<Rightarrow> (bytes \<times> u256) list" where
  "sync_payloads A cfg outbound inbound = map (\<lambda>x. load_payload A (this_rollup_id cfg) (fst x)) outbound
     @ map (\<lambda>e. deliver_payload A (entry_incoming e)) (filter (for_us cfg) inbound)"

definition sync_users :: "system_tx_context \<Rightarrow> (execution_entry \<times> bytes) list \<Rightarrow> execution_entry list \<Rightarrow> bytes option list" where
  "sync_users cfg outbound inbound = map (\<lambda>x. Some (snd x)) outbound @ map (\<lambda>_. None) (filter (for_us cfg) inbound)"

lemma sync_pairs_lone:
  "map (\<lambda>d. \<lparr>system_tx = d, user_tx = None\<rparr>) (map (encode_2718 A) txs)
     = sync_pairs A txs (map (\<lambda>_. None) es)" if "length txs = length es"
  using that by (induction txs es rule: list_induct2) (simp_all add: sync_pairs_def)

lemma build_sync_Inr:
  "build_cross_chain_sync_pairs A outbound inbound cfg n = Inr pairs \<longleftrightarrow>
     list_all (inbound_ok A) inbound \<and> (\<forall>x \<in> set outbound. outbound_ok (fst x))
     \<and> (sync_payloads A cfg outbound inbound \<noteq> [] \<longrightarrow> eezl2_address cfg = EEZL2_ADDRESS)
     \<and> unat n + length (sync_payloads A cfg outbound inbound) < 2 ^ 64
     \<and> pairs = sync_pairs A (numbered cfg (unat n) (sync_payloads A cfg outbound inbound)) (sync_users cfg outbound inbound)"
proof (cases "list_all (inbound_ok A) inbound")
  case False
  then show ?thesis using convert_all_inbound_ok
    by (auto simp: build_cross_chain_sync_pairs_def and_then_eq_Inr)
next
  case True
  then obtain ss where ss: "map_result (convert_inbound A) inbound = Inr ss"
    and inc: "map sidecar_incoming_entry (filter (ours cfg) ss) = map entry_incoming (filter (for_us cfg) inbound)"
    using convert_all_inbound by blast
  let ?ds = "map (\<lambda>e. deliver_payload A (entry_incoming e)) (filter (for_us cfg) inbound)"
  let ?ls = "map (\<lambda>x. load_payload A (this_rollup_id cfg) (fst x)) outbound"
  have ds: "map (\<lambda>s. deliver_payload A (sidecar_incoming_entry s)) (filter (ours cfg) ss) = ?ds"
    using arg_cong[OF inc, of "map (deliver_payload A)"] by (simp add: comp_def)
  have len: "length (filter (ours cfg) ss) = length (filter (for_us cfg) inbound)"
    using arg_cong[OF inc, of length] by simp
  then have nil: "filter (ours cfg) ss = [] \<longleftrightarrow> filter (for_us cfg) inbound = []" by (metis length_0_conv)
  have un: "unat (n + of_nat (length outbound)) = unat n + length outbound" if "unat n + length outbound < 2 ^ 64"
    using that unat_add_no_overflow[of n "of_nat (length outbound)"] by (simp add: unat_of_nat_lt)
  have lone: "map (\<lambda>d. \<lparr>system_tx = d, user_tx = None\<rparr>) (map (encode_2718 A) (numbered cfg m ?ds))
      = sync_pairs A (numbered cfg m ?ds) (map (\<lambda>_. None) (filter (for_us cfg) inbound))" for m
    by (rule sync_pairs_lone) simp
  have app: "sync_pairs A (numbered cfg (unat n) (?ls @ ?ds)) (map (\<lambda>x. Some (snd x)) outbound @ us)
      = sync_pairs A (numbered cfg (unat n) ?ls) (map (\<lambda>x. Some (snd x)) outbound)
        @ sync_pairs A (numbered cfg (unat n + length outbound) ?ds) us" for us
    unfolding numbered_append by (subst sync_pairs_append) simp_all
  have "build_cross_chain_sync_pairs A outbound inbound cfg n = Inr pairs \<longleftrightarrow>
      (\<exists>ps m ds. build_outbound_pairs A outbound cfg n = Inr (ps, m) \<and> build_inbound_system_txs A ss cfg m = Inr ds
        \<and> pairs = ps @ map (\<lambda>d. \<lparr>system_tx = d, user_tx = None\<rparr>) ds)"
    unfolding build_cross_chain_sync_pairs_def ss and_then_Inr and_then_eq_Inr by (auto simp: and_then_eq_Inr)
  then show ?thesis
    unfolding build_outbound_pairs_Inr build_inbound_system_txs_Inr ds len sync_payloads_def sync_users_def app nil
    using True un lone by (auto simp del: map_map)
qed

section \<open>Reading the pairs back\<close>

text \<open>Which transactions of a block of pairs are system transactions.\<close>

definition pair_flags :: "sync_pair list \<Rightarrow> bool list" where
  "pair_flags pairs = concat (map (\<lambda>p. True # (case user_tx p of None \<Rightarrow> [] | Some _ \<Rightarrow> [False])) pairs)"

lemma pair_end_positions_Nil [simp]: "pair_end_positions [] = []"
  by (simp add: pair_end_positions_def)

lemma pair_end_positions_Cons:
  "pair_end_positions (x # fs) = (if \<not> x \<or> fs = [] \<or> hd fs then [0] else []) @ map Suc (pair_end_positions fs)"
proof -
  have "[0..<length (x # fs)] = 0 # map Suc [0..<length fs]" by (simp add: map_Suc_upt upt_conv_Cons del: upt_Suc)
  then show ?thesis
    by (cases fs) (auto simp: pair_end_positions_def filter_map comp_def simp del: upt_Suc cong: filter_cong)
qed

lemma pair_flags_head: "pairs = [] \<or> (pair_flags pairs \<noteq> [] \<and> hd (pair_flags pairs))"
  by (cases pairs) (simp_all add: pair_flags_def)

lemma pair_end_positions_flags:
  "pair_end_positions (pair_flags pairs) = map (\<lambda>k. length (pair_flags (take (Suc k) pairs)) - 1) [0..<length pairs]"
proof (induction pairs)
  case (Cons p ps)
  let ?w = "True # (case user_tx p of None \<Rightarrow> [] | Some _ \<Rightarrow> [False])"
  have w: "pair_flags (p # qs) = ?w @ pair_flags qs" for qs by (simp add: pair_flags_def)
  have one: "pair_end_positions (pair_flags (p # ps)) = (length ?w - 1) # map (\<lambda>i. i + length ?w) (pair_end_positions (pair_flags ps))"
    using pair_flags_head[of ps] unfolding w
    by (cases "user_tx p") (auto simp: pair_end_positions_Cons pair_flags_def)
  have "0 < length (pair_flags (take (Suc k) ps))" if "k < length ps" for k
    using that by (cases ps) (simp_all add: pair_flags_def)
  then have "map (\<lambda>i. i + length ?w) (map (\<lambda>k. length (pair_flags (take (Suc k) ps)) - 1) [0..<length ps])
      = map (\<lambda>k. length (pair_flags (take (Suc (Suc k)) (p # ps))) - 1) [0..<length ps]"
    unfolding take_Suc_Cons w by (simp split: option.splits)
  moreover have "[0..<length (p # ps)] = 0 # map Suc [0..<length ps]"
    by (simp add: map_Suc_upt upt_conv_Cons del: upt_Suc)
  ultimately show ?case
    unfolding one Cons.IH by (simp add: w comp_def del: upt_Suc) (simp add: pair_flags_def)
qed (simp add: pair_flags_def)

lemma interleave_flags:
  assumes "\<forall>p \<in> set pairs. sys (system_tx p) \<and> (\<forall>u. user_tx p = Some u \<longrightarrow> \<not> sys u)"
  shows "map sys (interleave_sync_block_txs pairs) = pair_flags pairs"
  using assms by (induction pairs rule: interleave_sync_block_txs.induct) (auto simp: pair_flags_def split: option.splits)

section \<open>Properties\<close>


definition example_cfg :: system_tx_context where
  "example_cfg = \<lparr>eezl2_address = EEZL2_ADDRESS, l2_chain_id = 42, this_rollup_id = 1\<rparr>"

lemma example_entry_outbound_ok: "outbound_ok example_entry"
  by (simp add: outbound_ok_def example_entry_def example_call_def plain_call_def)


text \<open>
  C28. Appending survivors one by one gives the canonical block: the pairs for one more outbound entry
  are the pairs built so far followed by that entry's own pair at the next free nonce.
\<close>

theorem sync_block_incremental:
  "build_cross_chain_sync_pairs A (outbound @ [(e, u)]) [] cfg n = Inr pairs \<longleftrightarrow>
     (\<exists>ps qs. build_cross_chain_sync_pairs A outbound [] cfg n = Inr ps
       \<and> build_outbound_pair A e u cfg (n + of_nat (length ps)) = Inr qs \<and> pairs = ps @ qs)"
proof -
  let ?ls = "map (\<lambda>x. load_payload A (this_rollup_id cfg) (fst x)) outbound"
  let ?ps = "sync_pairs A (numbered cfg (unat n) ?ls) (map (\<lambda>x. Some (snd x)) outbound)"
  have len: "length ?ps = length outbound" by (simp add: sync_pairs_def)
  have un: "unat (n + of_nat (length outbound)) = unat n + length outbound" if "unat n + length outbound < 2 ^ 64"
    using that unat_add_no_overflow[of n "of_nat (length outbound)"] by (simp add: unat_of_nat_lt)
  have app: "sync_pairs A (numbered cfg (unat n) (?ls @ [load_payload A (this_rollup_id cfg) e])) (map (\<lambda>x. Some (snd x)) outbound @ [Some u])
      = ?ps @ sync_pairs A (numbered cfg (unat n + length outbound) [load_payload A (this_rollup_id cfg) e]) [Some u]"
    unfolding numbered_append by (subst sync_pairs_append) simp_all
  show ?thesis
    unfolding build_sync_Inr build_outbound_pair_Inr sync_payloads_def sync_users_def
    using un len by (auto simp: app)
qed

text \<open>
  C21. The pair boundaries are recoverable: for a block whose system transactions are recognised as such
  and whose user transactions are not, the positions found from the system flags are exactly the last
  positions of the pairs, one per pair.
\<close>

theorem pair_ends_recovered:
  assumes "\<forall>p \<in> set pairs. sys (system_tx p) \<and> (\<forall>u. user_tx p = Some u \<longrightarrow> \<not> sys u)"
  shows "pair_end_positions (map sys (interleave_sync_block_txs pairs))
    = map (\<lambda>k. length (interleave_sync_block_txs (take (Suc k) pairs)) - 1) [0..<length pairs]"
proof -
  have "length (pair_flags (take (Suc k) pairs)) = length (interleave_sync_block_txs (take (Suc k) pairs))" for k
    using interleave_flags[of "take (Suc k) pairs" sys] assms by (metis in_set_takeD length_map)
  then show ?thesis unfolding interleave_flags[OF assms] pair_end_positions_flags by simp
qed

theorem pair_ends_recovered_witness:
  "pair_end_positions (map (\<lambda>t. hd t = 0x76) (interleave_sync_block_txs
     [\<lparr>system_tx = [0x76, 1], user_tx = Some [2]\<rparr>, \<lparr>system_tx = [0x76, 3], user_tx = None\<rparr>])) = [1, 2]"
  by (subst pair_ends_recovered) (simp_all add: upt_rec)

end
