(* ===== verification/Outbound_Gate.thy ===== *)
theory Outbound_Gate
  imports Entries "HOL-Library.Multiset"
begin

text \<open>
  The authorisation gate of \<^verbatim>\<open>crates/eez-protocol/src/outbound_gate.rs\<close>: every outbound
  settlement entry must consume one matching call event of the re-executed block. The counting map of
  the code refines a multiset budget; the lemmas give the exact acceptance condition and what it means
  for the calls themselves.
\<close>

section \<open>Model\<close>

record observation =
  call_hash :: b256
  obs_call_gas :: u64

record log =
  log_address :: address
  log_topics :: "b256 list"
  log_data :: bytes

text \<open>The validating decoder of the \<open>CrossChainCallExecuted\<close> event is the argument \<open>dec\<close>.\<close>

definition observations_from_logs :: "(log \<Rightarrow> (b256 \<times> u64) option) \<Rightarrow> log list \<Rightarrow> address \<Rightarrow> observation list" where
  "observations_from_logs dec logs eez_l2 =
     map (\<lambda>(h, g). \<lparr>call_hash = h, obs_call_gas = g\<rparr>)
       (List.map_filter dec (filter (\<lambda>l. log_address l = eez_l2) logs))"

definition SUPPORTED_CALL_GAS :: u64 where "SUPPORTED_CALL_GAS = 0"
definition MAINNET_ROLLUP_ID :: rollup_id where "MAINNET_ROLLUP_ID = 0"

datatype gate_error =
    UnsupportedEventGas u64
  | NotOutboundImmediate nat
  | NotOneCall nat
  | UnsupportedShape nat
  | UnsupportedCall nat
  | WrongSource nat u64 u64
  | NoMatchingEvent nat b256

type_synonym budget = "b256 \<rightharpoonup> nat"

definition budget_incr :: "b256 \<Rightarrow> budget \<Rightarrow> budget" where
  "budget_incr h m = m(h \<mapsto> (case m h of None \<Rightarrow> 0 | Some n \<Rightarrow> n) + 1)"

definition budget_take :: "b256 \<Rightarrow> budget \<Rightarrow> budget option" where
  "budget_take h m = (case m h of
     Some n \<Rightarrow> if n > 0 then Some (m(h \<mapsto> n - 1)) else None
   | None \<Rightarrow> None)"

fun gate_budget :: "budget \<Rightarrow> observation list \<Rightarrow> gate_error + budget" where
  "gate_budget available [] = Inr available"
| "gate_budget available (ob # obs) =
     (if obs_call_gas ob \<noteq> SUPPORTED_CALL_GAS then Inl (UnsupportedEventGas (obs_call_gas ob))
      else gate_budget (budget_incr (call_hash ob) available) obs)"

definition gate_hash :: "alloy \<Rightarrow> u64 \<Rightarrow> l2_to_l1_call \<Rightarrow> b256" where
  "gate_hash A l2_rollup_id call = l2_outbound_call_hash A
     \<lparr>chi_call_mode = from_is_static (isStatic call), chi_source_address = sourceAddress call,
      chi_source_rollup_id = l2_rollup_id, chi_target_address = targetAddress call,
      chi_target_rollup_id = MAINNET_ROLLUP_ID, chi_value = call_value call, chi_data = call_data call\<rparr>
     SUPPORTED_CALL_GAS"

definition gate_entry :: "alloy \<Rightarrow> u64 \<Rightarrow> nat \<Rightarrow> execution_entry \<Rightarrow> budget \<Rightarrow> gate_error + budget" where
  "gate_entry A l2_rollup_id i entry available =
     (if proxyEntryHash entry \<noteq> 0 then Inl (NotOutboundImmediate i)
      else case l2ToL1Calls entry of
        [call] \<Rightarrow>
          if \<not> entry_success entry \<or> expectedL1ToL2Calls entry \<noteq> [] then Inl (UnsupportedShape i)
          else if isStatic call \<or> revertNextNCalls call \<noteq> 0 \<or> call_gas call \<noteq> 0 then Inl (UnsupportedCall i)
          else if sourceRollupId call \<noteq> l2_rollup_id
          then Inl (WrongSource i (sourceRollupId call) l2_rollup_id)
          else (case budget_take (gate_hash A l2_rollup_id call) available of
              Some available' \<Rightarrow> Inr available'
            | None \<Rightarrow> Inl (NoMatchingEvent i (gate_hash A l2_rollup_id call)))
      | _ \<Rightarrow> Inl (NotOneCall i))"

fun gate_entries :: "alloy \<Rightarrow> u64 \<Rightarrow> nat \<Rightarrow> execution_entry list \<Rightarrow> budget \<Rightarrow> gate_error + unit" where
  "gate_entries A l2_rollup_id i [] available = Inr ()"
| "gate_entries A l2_rollup_id i (entry # es) available =
     and_then (gate_entry A l2_rollup_id i entry available) (\<lambda>available'.
       gate_entries A l2_rollup_id (Suc i) es available')"

definition verify_outbound_authorized ::
    "alloy \<Rightarrow> execution_entry list \<Rightarrow> observation list \<Rightarrow> u64 \<Rightarrow> gate_error + unit" where
  "verify_outbound_authorized A outbound_entries observed_calls l2_rollup_id =
     and_then (gate_budget Map.empty observed_calls) (\<lambda>available.
       gate_entries A l2_rollup_id 0 outbound_entries available)"

section \<open>A counting map refines a multiset\<close>

text \<open>
  The interface of a budget: each state stands for a multiset, adding inserts one element and taking
  succeeds exactly when the element is there. What a run of additions and takings means is proved once.
\<close>

locale multiset_budget =
  fixes stands_for :: "'s \<Rightarrow> 'h multiset" and empty :: 's
    and incr :: "'h \<Rightarrow> 's \<Rightarrow> 's" and pay :: "'h \<Rightarrow> 's \<Rightarrow> 's option"
  assumes empty_law: "stands_for empty = {#}"
    and incr_law: "stands_for (incr h s) = add_mset h (stands_for s)"
    and pay_iff: "(\<exists>s'. pay h s = Some s') \<longleftrightarrow> h \<in># stands_for s"
    and pay_law: "pay h s = Some s' \<Longrightarrow> stands_for s' = stands_for s - {#h#}"
begin

fun pay_all :: "'h list \<Rightarrow> 's \<Rightarrow> 's option" where
  "pay_all [] s = Some s"
| "pay_all (h # hs) s = Option.bind (pay h s) (pay_all hs)"

lemma fold_incr: "stands_for (fold incr hs empty) = mset hs"
proof -
  have "stands_for (fold incr hs s) = mset hs + stands_for s" for s
    by (induction hs arbitrary: s) (simp_all add: incr_law)
  then show ?thesis by (simp add: empty_law)
qed

lemma pay_all_iff: "(\<exists>s'. pay_all hs s = Some s') \<longleftrightarrow> mset hs \<subseteq># stands_for s"
proof (induction hs arbitrary: s)
  case (Cons h hs)
  show ?case
  proof (cases "pay h s")
    case None
    then have "h \<notin># stands_for s" using pay_iff[of h s] by simp
    with None show ?thesis by (auto dest: mset_subset_eqD)
  next
    case (Some s')
    then have "h \<in># stands_for s" "stands_for s' = stands_for s - {#h#}"
      using pay_iff[of h s] pay_law[of h s] by auto
    with Some Cons.IH[of s'] show ?thesis by (simp add: insert_subset_eq_iff)
  qed
qed simp

lemma budget_covers: "(\<exists>s'. pay_all hs (fold incr gs empty) = Some s') \<longleftrightarrow> mset hs \<subseteq># mset gs"
  by (simp add: pay_all_iff fold_incr)

end

definition budget_count :: "budget \<Rightarrow> b256 \<Rightarrow> nat" where
  "budget_count m h = (case m h of None \<Rightarrow> 0 | Some n \<Rightarrow> n)"

definition budget_mset :: "budget \<Rightarrow> b256 multiset" where
  "budget_mset m = (\<Sum>h \<in> dom m. replicate_mset (budget_count m h) h)"

lemma count_budget_mset [simp]: "count (budget_mset m) h = budget_count m h"
proof -
  have fin: "finite (dom m)" by (rule finite_subset[of _ UNIV]) auto
  have "count (budget_mset m) h = (\<Sum>x \<in> dom m. if x = h then budget_count m x else 0)"
    unfolding budget_mset_def by (subst count_sum) (auto intro: sum.cong)
  also have "\<dots> = budget_count m h"
    using fin by (auto simp: budget_count_def dom_def)
  finally show ?thesis .
qed

lemma budget_mset_empty: "budget_mset Map.empty = {#}"
  by (simp add: budget_mset_def)

lemma budget_mset_incr: "budget_mset (budget_incr h s) = add_mset h (budget_mset s)"
  by (rule multiset_eqI) (simp add: budget_incr_def budget_count_def)

lemma budget_take_iff: "(\<exists>s'. budget_take h s = Some s') \<longleftrightarrow> h \<in># budget_mset s"
proof -
  have "h \<in># budget_mset s \<longleftrightarrow> 0 < budget_count s h"
    by (simp only: count_greater_zero_iff[symmetric] count_budget_mset)
  then show ?thesis by (auto simp: budget_take_def budget_count_def split: option.splits)
qed

lemma budget_mset_take: "budget_take h s = Some s' \<Longrightarrow> budget_mset s' = budget_mset s - {#h#}"
  by (intro multiset_eqI) (auto simp: budget_take_def budget_count_def split: option.splits if_splits)

interpretation hash_budget: multiset_budget budget_mset Map.empty budget_incr budget_take
  by unfold_locales (rule budget_mset_empty budget_mset_incr budget_take_iff | erule budget_mset_take)+

section \<open>Acceptance\<close>

definition outbound_shape :: "u64 \<Rightarrow> execution_entry \<Rightarrow> bool" where
  "outbound_shape rid e \<longleftrightarrow> proxyEntryHash e = 0 \<and> entry_success e \<and> expectedL1ToL2Calls e = []
     \<and> (\<exists>call. l2ToL1Calls e = [call] \<and> plain_call call \<and> sourceRollupId call = rid)"

definition claimed_call :: "execution_entry \<Rightarrow> l2_to_l1_call" where
  "claimed_call e = hd (l2ToL1Calls e)"

lemma gate_budget_Inr:
  "gate_budget m obs = Inr m' \<longleftrightarrow>
     (\<forall>ob \<in> set obs. obs_call_gas ob = 0) \<and> m' = fold budget_incr (map call_hash obs) m"
  by (induction obs arbitrary: m) (auto simp: SUPPORTED_CALL_GAS_def)

lemma gate_entry_Inr:
  "gate_entry A rid i e m = Inr m' \<longleftrightarrow> outbound_shape rid e \<and> budget_take (gate_hash A rid (claimed_call e)) m = Some m'"
  by (auto simp: gate_entry_def outbound_shape_def plain_call_def claimed_call_def split: list.splits option.splits)

lemma gate_entries_Inr:
  "gate_entries A rid i es m = Inr () \<longleftrightarrow> list_all (outbound_shape rid) es
     \<and> (\<exists>m'. hash_budget.pay_all (map (\<lambda>e. gate_hash A rid (claimed_call e)) es) m = Some m')"
  by (induction es arbitrary: i m) (auto simp: and_then_eq_Inr gate_entry_Inr bind_eq_Some_conv)

lemma verify_iff:
  "verify_outbound_authorized A es obs rid = Inr () \<longleftrightarrow>
     (\<forall>ob \<in> set obs. obs_call_gas ob = 0) \<and> list_all (outbound_shape rid) es
     \<and> mset (map (\<lambda>e. gate_hash A rid (claimed_call e)) es) \<subseteq># mset (map call_hash obs)"
  using hash_budget.budget_covers[of "map (\<lambda>e. gate_hash A rid (claimed_call e)) es" "map call_hash obs"]
  by (auto simp: verify_outbound_authorized_def and_then_eq_Inr gate_budget_Inr gate_entries_Inr)

text \<open>The call a shaped entry claims, as the input of the call hash.\<close>

definition claimed_input :: "execution_entry \<Rightarrow> call_hash_input" where
  "claimed_input e = flat_call_input (claimed_call e)"

lemma gate_hash_claimed:
  "outbound_shape rid e \<Longrightarrow> gate_hash A rid (claimed_call e) = cross_chain_call_hash A (claimed_input e) 0"
  by (auto simp: gate_hash_def outbound_shape_def plain_call_def claimed_call_def claimed_input_def
      flat_call_input_def from_is_static_def l2_outbound_call_hash_def SUPPORTED_CALL_GAS_def
      MAINNET_ROLLUP_ID_def MAINNET_def)

lemma image_mset_inj_subset:
  assumes "inj_on f (set_mset M \<union> set_mset N)" "image_mset f M \<subseteq># image_mset f N"
  shows "M \<subseteq># N"
proof -
  let ?g = "inv_into (set_mset M \<union> set_mset N) f"
  have "image_mset ?g (image_mset f M) \<subseteq># image_mset ?g (image_mset f N)"
    using assms(2) by (rule image_mset_subseteq_mono)
  moreover have "image_mset ?g (image_mset f X) = X" if "set_mset X \<subseteq> set_mset M \<union> set_mset N" for X
  proof -
    have "?g (f x) = x" if "x \<in># X" for x
      using that \<open>set_mset X \<subseteq> set_mset M \<union> set_mset N\<close> by (intro inv_into_f_f[OF assms(1)]) auto
    then have "image_mset (?g \<circ> f) X = image_mset (\<lambda>x. x) X" by (intro image_mset_cong) simp
    then show ?thesis by (simp add: multiset.map_comp)
  qed
  ultimately show ?thesis by simp
qed

section \<open>Properties\<close>

text \<open>
  C25. The gate accepts exactly when every event used the supported gas value, every entry is a
  successful flat outbound call of this rollup, and the multiset of claimed call hashes is contained in
  the multiset of observed ones: each entry consumes its own event.
\<close>

theorem outbound_gate_exact:
  "verify_outbound_authorized A es obs rid = Inr () \<longleftrightarrow>
     (\<forall>ob \<in> set obs. obs_call_gas ob = 0) \<and> list_all (outbound_shape rid) es
     \<and> mset (map (\<lambda>e. gate_hash A rid (claimed_call e)) es) \<subseteq># mset (map call_hash obs)"
  by (rule verify_iff)

lemma example_entry_shape: "outbound_shape 1 example_entry"
  by (simp add: outbound_shape_def example_entry_def example_call_def plain_call_def)

theorem outbound_gate_exact_witness:
  "let ob = \<lparr>call_hash = gate_hash example_alloy 1 example_call, obs_call_gas = 0\<rparr> in
   verify_outbound_authorized example_alloy [example_entry] [ob] 1 = Inr ()
   \<and> verify_outbound_authorized example_alloy [example_entry, example_entry] [ob] 1 \<noteq> Inr ()"
  unfolding Let_def outbound_gate_exact
  using example_entry_shape by (simp add: claimed_call_def example_entry_def)

text \<open>
  C12. No phantom, redirected or doubled withdrawal: when the observed events are those of the calls the
  block really performed, an accepted list of entries claims a sub-multiset of these calls, with the same
  source, target, value and data, unless Keccak collides on one of them.
\<close>

theorem outbound_claims_were_performed:
  assumes "verify_outbound_authorized A es
      (map (\<lambda>i. \<lparr>call_hash = l2_outbound_call_hash A i 0, obs_call_gas = 0\<rparr>) performed) rid = Inr ()"
    and "inj (encode_call_params A)"
    and "collision_free A ((\<lambda>i. encode_call_params A (call_hash_params i 0)) ` (set performed \<union> claimed_input ` set es))"
  shows "mset (map claimed_input es) \<subseteq># mset performed"
proof -
  let ?h = "\<lambda>i. cross_chain_call_hash A i 0"
  have shape: "list_all (outbound_shape rid) es"
    and sub: "mset (map (\<lambda>e. gate_hash A rid (claimed_call e)) es) \<subseteq># mset (map ?h performed)"
    using assms(1) unfolding verify_iff by (simp_all add: comp_def l2_outbound_call_hash_def)
  have "map (\<lambda>e. gate_hash A rid (claimed_call e)) es = map ?h (map claimed_input es)"
    using shape by (auto simp: list_all_iff gate_hash_claimed)
  with sub have "image_mset ?h (mset (map claimed_input es)) \<subseteq># image_mset ?h (mset performed)"
    by (simp only: mset_map)
  moreover have "inj_on ?h (set_mset (mset (map claimed_input es)) \<union> set_mset (mset performed))"
  proof (rule inj_onI)
    fix i j
    assume i: "i \<in> set_mset (mset (map claimed_input es)) \<union> set_mset (mset performed)"
      and j: "j \<in> set_mset (mset (map claimed_input es)) \<union> set_mset (mset performed)"
      and h: "?h i = ?h j"
    have "collision_free A {encode_call_params A (call_hash_params i 0), encode_call_params A (call_hash_params j 0)}"
      by (rule collision_free_mono[OF assms(3)]) (use i j in auto)
    from call_hash_binds[OF assms(2) this h] show "i = j" by simp
  qed
  ultimately show ?thesis by (rule image_mset_inj_subset[rotated])
qed

theorem outbound_claims_were_performed_witness:
  "mset (map claimed_input [example_entry]) \<subseteq># mset [flat_call_input example_call]"
proof (rule outbound_claims_were_performed[of example_alloy _ _ 1])
  have "claimed_input example_entry = flat_call_input example_call"
    by (simp add: claimed_input_def claimed_call_def example_entry_def)
  then show "collision_free example_alloy ((\<lambda>i. encode_call_params example_alloy (call_hash_params i 0)) `
      (set [flat_call_input example_call] \<union> claimed_input ` set [example_entry]))"
    by (intro example_alloy_lengths) (simp_all add: example_alloy_def call_hash_params_def flat_call_input_def example_call_def)
  show "verify_outbound_authorized example_alloy [example_entry]
      (map (\<lambda>i. \<lparr>call_hash = l2_outbound_call_hash example_alloy i 0, obs_call_gas = 0\<rparr>) [flat_call_input example_call]) 1 = Inr ()"
    unfolding verify_iff using example_entry_shape gate_hash_claimed[OF example_entry_shape, of example_alloy]
      \<open>claimed_input example_entry = flat_call_input example_call\<close>
    by (simp add: l2_outbound_call_hash_def)
qed (rule example_alloy_encodes)

text \<open>
  C22. The composer's own entries pass: the immediate entries built from recorded L2-to-L1 calls are
  accepted if and only if the block emitted, with zero gas, an event for each of the proxy hashes under
  which the source table lists these calls.
\<close>

theorem composed_outbound_entries_pass:
  assumes "build_l1_postbatch calls rid = Inr b" "\<forall>ob \<in> set obs. obs_call_gas ob = 0"
  shows "verify_outbound_authorized A (entries b) obs rid = Inr () \<longleftrightarrow>
    mset (map (source_side_call_hash A) calls) \<subseteq># mset (map call_hash obs)"
proof -
  obtain es where es: "map_result (l1_postbatch_entry rid) calls = Inr es" "entries b = es"
    using assms(1) by (auto simp: build_l1_postbatch_def and_then_eq_Inr batch_with_entries_def)
  have each: "outbound_shape rid e \<and> gate_hash A rid (claimed_call e) = source_side_call_hash A c"
    if "l1_postbatch_entry rid c = Inr e" for c e
    using that
    by (auto simp: l1_postbatch_entry_def supported_top_level_return_data_def supported_return_data_Inr
        and_then_eq_Inr outbound_shape_def plain_call_def claimed_call_def l1_call_from_action_def is_mainnet_def
        MAINNET_def gate_hash_def source_side_call_hash_def common_cross_chain_call_hash_def
        l2_outbound_call_hash_def MAINNET_ROLLUP_ID_def SUPPORTED_CALL_GAS_def from_is_static_def split: if_splits)
  have two: "list_all2 (\<lambda>c e. l1_postbatch_entry rid c = Inr e) calls es"
    using es(1) by (simp add: map_result_Inr_iff)
  have "list_all (outbound_shape rid) es"
    using two each by (auto simp: list_all_length list_all2_conv_all_nth)
  moreover have "map (\<lambda>e. gate_hash A rid (claimed_call e)) es = map (source_side_call_hash A) calls"
    using two each by (intro nth_equalityI) (auto simp: list_all2_conv_all_nth)
  ultimately show ?thesis using assms(2) es(2) by (simp add: verify_iff)
qed

theorem composed_outbound_entries_pass_witness:
  "let c = \<lparr>ea_call_mode = Mutable, ea_target_address = 1, ea_target_rollup_id = 0, ea_source_rollup_id = 7,
     ea_source_address = 2, ea_data = [], ea_value = 3, ea_outcome = Resolved [9] 21000 True, ea_revert_span = None\<rparr>
   in \<exists>b. build_l1_postbatch [c] 7 = Inr b \<and> verify_outbound_authorized example_alloy (entries b)
     [\<lparr>call_hash = source_side_call_hash example_alloy c, obs_call_gas = 0\<rparr>] 7 = Inr ()"
proof -
  let ?c = "\<lparr>ea_call_mode = Mutable, ea_target_address = 1, ea_target_rollup_id = 0, ea_source_rollup_id = 7,
     ea_source_address = 2, ea_data = [], ea_value = 3, ea_outcome = Resolved [9] 21000 True, ea_revert_span = None\<rparr>"
  let ?obs = "[\<lparr>call_hash = source_side_call_hash example_alloy ?c, obs_call_gas = 0\<rparr>]"
  obtain b where b: "build_l1_postbatch [?c] 7 = Inr b"
    by (simp add: build_l1_postbatch_def l1_postbatch_entry_def supported_top_level_return_data_def
        supported_return_data_def is_mainnet_def MAINNET_def)
  have "\<forall>ob \<in> set ?obs. obs_call_gas ob = 0" by simp
  from composed_outbound_entries_pass[OF b this, of example_alloy] b show ?thesis
    unfolding Let_def by auto
qed

end
