(* ===== verification/Window_Admission.thy ===== *)
theory Window_Admission
  imports Prelude
begin

text \<open>
  Structural admission of one proving stream (\<^verbatim>\<open>crates/eez-proof-signer/src/window.rs\<close>,
  \<^verbatim>\<open>service/stream.rs\<close> and the witness accounting of \<^verbatim>\<open>validate.rs\<close>). The assembler is a
  record that every operation returns updated; the stream is the list of frames the transport
  delivers before end of file. Protobuf sizing (\<open>encoded_len\<close>) and the allocator's answer to
  \<open>try_reserve\<close> are parameters. The theory shows exactly which streams are admitted.
\<close>

section \<open>Wire messages\<close>

record wire_witness =
  ww_state :: "bytes list"
  ww_codes :: "bytes list"
  ww_keys :: "bytes list"
  ww_headers :: "bytes list"

record block_witness =
  bw_number :: u64
  bw_hash :: bytes
  bw_parent_hash :: bytes
  bw_rlp :: bytes
  bw_witness :: "wire_witness option"

record post_batch =
  pb_public_inputs_hash :: bytes
  pb_l1_block_hash :: bytes
  pb_abi_calldata :: bytes

record prove_header =
  ph_rollup_id :: u64
  ph_from_block :: u64
  ph_to_block :: u64
  ph_post_batch :: "post_batch option"

datatype chunk_kind = Header prove_header | Block block_witness

type_synonym prove_chunk = "chunk_kind option"

section \<open>Admitted values\<close>

record execution_witness =
  ew_state :: "bytes list"
  ew_codes :: "bytes list"
  ew_keys :: "bytes list"
  ew_headers :: "bytes list"

definition into_execution_witness :: "wire_witness \<Rightarrow> execution_witness" where
  "into_execution_witness w = \<lparr>ew_state = ww_state w, ew_codes = ww_codes w, ew_keys = ww_keys w,
     ew_headers = ww_headers w\<rparr>"

definition saturating_add_usize :: "nat \<Rightarrow> nat \<Rightarrow> nat" where
  "saturating_add_usize a b = min (a + b) (2 ^ 64 - 1)"

definition wire_witness_item_count :: "wire_witness \<Rightarrow> nat" where
  "wire_witness_item_count w =
     saturating_add_usize (saturating_add_usize (saturating_add_usize
       (length (ww_state w)) (length (ww_codes w))) (length (ww_keys w))) (length (ww_headers w))"

record admitted_block =
  declared_number :: u64
  claimed_hash :: b256
  claimed_parent_hash :: b256
  adm_rlp :: bytes
  adm_witness :: execution_witness

record window_limits =
  lim_blocks :: nat
  lim_payload_bytes :: nat
  lim_witness_items :: nat

record admitted_header =
  declared_from_block :: u64
  declared_to_block :: u64
  submitted_post_batch_calldata :: bytes

record admitted_window =
  win_header :: admitted_header
  win_blocks :: "admitted_block list"

record parsed_header =
  parsed_rollup_id :: u64
  parsed_admitted :: admitted_header
  parsed_block_count :: nat

datatype window_error =
    EmptyStream
  | BlockBeforeHeader u64
  | MissingKind nat
  | DuplicateHeader
  | MissingPostBatch
  | NonemptyL1BlockHash nat
  | InvalidBounds u64 u64
  | BlockLimit u64 u64 u64 nat
  | PayloadLimit nat nat
  | WitnessItemLimit nat nat
  | StorageLimit nat
  | ExtraBlock nat
  | WrongBlockNumber nat u64 u64
  | BlockHashLength u64 nat
  | ParentHashLength u64 nat
  | MissingWitness u64
  | ChainBreak u64 u64 b256 b256
  | Incomplete u64 u64 nat nat

fun is_resource_exhausted :: "window_error \<Rightarrow> bool" where
  "is_resource_exhausted (BlockLimit _ _ _ _) = True"
| "is_resource_exhausted (PayloadLimit _ _) = True"
| "is_resource_exhausted (WitnessItemLimit _ _) = True"
| "is_resource_exhausted (StorageLimit _) = True"
| "is_resource_exhausted _ = False"

record rollup_identity_mismatch =
  rim_claimed :: u64
  rim_expected :: u64

section \<open>The assembler\<close>

text \<open>
  \<open>WindowAssembler<false>\<close> and \<open>WindowAssembler<true>\<close> have the same fields; the type parameter
  records whether the rollup claim was compared with the configuration. The two states are the two
  constructors' payloads below, so that a block can only be pushed into a checked assembler.
\<close>

record assembler_state =
  asm_limits :: window_limits
  accounted_payload_bytes :: nat
  accounted_witness_items :: nat
  asm_rollup_id :: u64
  asm_header :: admitted_header
  declared_block_count :: nat
  asm_blocks :: "admitted_block list"

datatype unchecked_assembler = Unchecked (unchecked_state: assembler_state)

datatype checked_assembler = Checked (checked_state: assembler_state)

definition charge :: "nat \<Rightarrow> nat \<Rightarrow> nat \<Rightarrow> (nat \<Rightarrow> nat \<Rightarrow> window_error) \<Rightarrow> window_error + nat" where
  "charge cur add limit over =
     (if cur + add \<ge> 2 ^ 64 then Inl (over (2 ^ 64 - 1) limit)
      else if cur + add > limit then Inl (over (cur + add) limit)
      else Inr (cur + add))"

definition check_header :: "prove_header \<Rightarrow> window_limits \<Rightarrow> window_error + parsed_header" where
  "check_header header limits =
     and_then (ok_or MissingPostBatch (ph_post_batch header)) (\<lambda>submitted.
     if pb_l1_block_hash submitted \<noteq> [] then Inl (NonemptyL1BlockHash (length (pb_l1_block_hash submitted)))
     else if ph_from_block header = 0 \<or> ph_to_block header < ph_from_block header
     then Inl (InvalidBounds (ph_from_block header) (ph_to_block header))
     else let span = ph_to_block header - ph_from_block header + 1;
              max_blocks = (if lim_blocks limits < 2 ^ 64 then of_nat (lim_blocks limits) else - 1) in
       if max_blocks < span
       then Inl (BlockLimit (ph_from_block header) (ph_to_block header) span (lim_blocks limits))
       else Inr \<lparr>parsed_rollup_id = ph_rollup_id header,
         parsed_admitted = \<lparr>declared_from_block = ph_from_block header, declared_to_block = ph_to_block header,
           submitted_post_batch_calldata = pb_abi_calldata submitted\<rparr>,
         parsed_block_count = unat span\<rparr>)"

definition assembler_start ::
    "(prove_chunk \<Rightarrow> nat) \<Rightarrow> window_limits \<Rightarrow> prove_chunk \<Rightarrow> window_error + unchecked_assembler" where
  "assembler_start encoded_len limits chunk =
     and_then (charge 0 (encoded_len chunk) (lim_payload_bytes limits) PayloadLimit) (\<lambda>accounted.
     case chunk of
       Some (Header header) \<Rightarrow>
         and_then (check_header header limits) (\<lambda>parsed.
           Inr (Unchecked \<lparr>asm_limits = limits, accounted_payload_bytes = accounted,
             accounted_witness_items = 0, asm_rollup_id = parsed_rollup_id parsed,
             asm_header = parsed_admitted parsed, declared_block_count = parsed_block_count parsed,
             asm_blocks = []\<rparr>))
     | Some (Block block) \<Rightarrow> Inl (BlockBeforeHeader (bw_number block))
     | None \<Rightarrow> Inl (MissingKind 0))"

definition verify_rollup_identity ::
    "u64 \<Rightarrow> unchecked_assembler \<Rightarrow> rollup_identity_mismatch + checked_assembler" where
  "verify_rollup_identity expected a =
     (let s = unchecked_state a in
      if asm_rollup_id s \<noteq> expected
      then Inl \<lparr>rim_claimed = asm_rollup_id s, rim_expected = expected\<rparr>
      else Inr (Checked (s\<lparr>asm_rollup_id := expected\<rparr>)))"

text \<open>\<open>(from..=to).nth(i)\<close> on an inclusive range of \<open>u64\<close>.\<close>

definition range_nth :: "u64 \<Rightarrow> u64 \<Rightarrow> nat \<Rightarrow> u64 option" where
  "range_nth from to i = (if from \<le> to \<and> i \<le> unat (to - from) then Some (from + of_nat i) else None)"

definition b256_try_from :: "bytes \<Rightarrow> b256 option" where
  "b256_try_from bs = (if length bs = 32 then Some (of_be_bytes bs) else None)"

definition push_block ::
    "(nat \<Rightarrow> bool) \<Rightarrow> block_witness \<Rightarrow> assembler_state \<Rightarrow> window_error + assembler_state" where
  "push_block try_reserve b s =
     (let block_index = length (asm_blocks s) in
     and_then (ok_or (ExtraBlock (declared_block_count s))
       (range_nth (declared_from_block (asm_header s)) (declared_to_block (asm_header s)) block_index)) (\<lambda>expected.
     if bw_number b \<noteq> expected then Inl (WrongBlockNumber block_index expected (bw_number b))
     else and_then (ok_or (BlockHashLength (bw_number b) (length (bw_hash b))) (b256_try_from (bw_hash b))) (\<lambda>hash.
     and_then (ok_or (ParentHashLength (bw_number b) (length (bw_parent_hash b)))
       (b256_try_from (bw_parent_hash b))) (\<lambda>parent.
     and_then (ok_or (MissingWitness (bw_number b)) (bw_witness b)) (\<lambda>wire.
     and_then (charge (accounted_witness_items s) (wire_witness_item_count wire)
       (lim_witness_items (asm_limits s)) WitnessItemLimit) (\<lambda>items.
     if asm_blocks s \<noteq> [] \<and> parent \<noteq> claimed_hash (last (asm_blocks s))
     then Inl (ChainBreak (bw_number b) (declared_number (last (asm_blocks s)))
       (claimed_hash (last (asm_blocks s))) parent)
     else if \<not> try_reserve block_index then Inl (StorageLimit (saturating_add_usize block_index 1))
     else Inr (s\<lparr>accounted_witness_items := items,
       asm_blocks := asm_blocks s @ [\<lparr>declared_number = bw_number b, claimed_hash = hash,
         claimed_parent_hash = parent, adm_rlp = bw_rlp b,
         adm_witness = into_execution_witness wire\<rparr>]\<rparr>)))))))"

definition window_push ::
    "(prove_chunk \<Rightarrow> nat) \<Rightarrow> (nat \<Rightarrow> bool) \<Rightarrow> prove_chunk \<Rightarrow> checked_assembler \<Rightarrow> window_error + checked_assembler" where
  "window_push encoded_len try_reserve chunk a =
     (let s = checked_state a in
     and_then (charge (accounted_payload_bytes s) (encoded_len chunk)
       (lim_payload_bytes (asm_limits s)) PayloadLimit) (\<lambda>accounted.
     let s' = s\<lparr>accounted_payload_bytes := accounted\<rparr> in
     case chunk of
       Some (Header _) \<Rightarrow> Inl DuplicateHeader
     | Some (Block block) \<Rightarrow> and_then (push_block try_reserve block s') (\<lambda>s''. Inr (Checked s''))
     | None \<Rightarrow> Inl (MissingKind (1 + length (asm_blocks s')))))"

definition window_finish :: "checked_assembler \<Rightarrow> window_error + admitted_window" where
  "window_finish a =
     (let s = checked_state a in
      if length (asm_blocks s) \<noteq> declared_block_count s
      then Inl (Incomplete (declared_from_block (asm_header s)) (declared_to_block (asm_header s))
        (declared_block_count s) (length (asm_blocks s)))
      else Inr \<lparr>win_header = asm_header s, win_blocks = asm_blocks s\<rparr>)"

section \<open>Reading one stream\<close>

datatype stream_event = Frame prove_chunk | IdleTimeout | TransportError bool

datatype stream_status =
    ResourceExhausted window_error
  | InvalidArgument window_error
  | IdentityRejected
  | IdleDeadline
  | MessageTooLarge
  | TransportFailed

definition window_status :: "window_error \<Rightarrow> stream_status" where
  "window_status e = (if is_resource_exhausted e then ResourceExhausted e else InvalidArgument e)"

text \<open>
  One wait for a frame; the list ends at end of file. \<open>TransportError True\<close> is a decoding failure
  with code \<open>OutOfRange\<close>.
\<close>

fun next_message :: "stream_event \<Rightarrow> stream_status + prove_chunk" where
  "next_message (Frame chunk) = Inr chunk"
| "next_message IdleTimeout = Inl IdleDeadline"
| "next_message (TransportError out_of_range) = Inl (if out_of_range then MessageTooLarge else TransportFailed)"

fun drain ::
    "(prove_chunk \<Rightarrow> nat) \<Rightarrow> (nat \<Rightarrow> bool) \<Rightarrow> stream_event list \<Rightarrow> checked_assembler \<Rightarrow> stream_status + checked_assembler" where
  "drain encoded_len try_reserve [] a = Inr a"
| "drain encoded_len try_reserve (ev # evs) a =
     and_then (next_message ev) (\<lambda>chunk.
     and_then (map_err window_status (window_push encoded_len try_reserve chunk a)) (\<lambda>a'.
     drain encoded_len try_reserve evs a'))"

definition read_window ::
    "(prove_chunk \<Rightarrow> nat) \<Rightarrow> (nat \<Rightarrow> bool) \<Rightarrow> u64 \<Rightarrow> window_limits \<Rightarrow> stream_event list
     \<Rightarrow> stream_status + admitted_window" where
  "read_window encoded_len try_reserve expected limits evs =
     (case evs of
        [] \<Rightarrow> Inl (window_status EmptyStream)
      | ev # evs' \<Rightarrow>
          and_then (next_message ev) (\<lambda>first.
          and_then (map_err window_status (assembler_start encoded_len limits first)) (\<lambda>a.
          and_then (map_err (\<lambda>_. IdentityRejected) (verify_rollup_identity expected a)) (\<lambda>a'.
          and_then (drain encoded_len try_reserve evs' a') (\<lambda>a''.
          map_err window_status (window_finish a''))))))"

section \<open>Which streams are admitted\<close>

text \<open>A usable block message, and the block it is retained as.\<close>

definition complete_block :: "block_witness \<Rightarrow> bool" where
  "complete_block b \<longleftrightarrow> length (bw_hash b) = 32 \<and> length (bw_parent_hash b) = 32 \<and> bw_witness b \<noteq> None"

definition admitted_of :: "block_witness \<Rightarrow> admitted_block" where
  "admitted_of b = \<lparr>declared_number = bw_number b, claimed_hash = of_be_bytes (bw_hash b),
     claimed_parent_hash = of_be_bytes (bw_parent_hash b), adm_rlp = bw_rlp b,
     adm_witness = into_execution_witness (the (bw_witness b))\<rparr>"

definition block_items :: "block_witness \<Rightarrow> nat" where
  "block_items b = wire_witness_item_count (the (bw_witness b))"

abbreviation hash_linked :: "admitted_block list \<Rightarrow> bool" where
  "hash_linked \<equiv> successively (\<lambda>a b. claimed_parent_hash b = claimed_hash a)"

abbreviation block_frame :: "block_witness \<Rightarrow> stream_event" where
  "block_frame b \<equiv> Frame (Some (Block b))"

definition pushed :: "(prove_chunk \<Rightarrow> nat) \<Rightarrow> block_witness list \<Rightarrow> assembler_state \<Rightarrow> assembler_state" where
  "pushed encoded_len bs s = s\<lparr>
     accounted_payload_bytes := accounted_payload_bytes s + (\<Sum>b\<leftarrow>bs. encoded_len (Some (Block b))),
     accounted_witness_items := accounted_witness_items s + (\<Sum>b\<leftarrow>bs. block_items b),
     asm_blocks := asm_blocks s @ map admitted_of bs\<rparr>"

definition next_numbers :: "assembler_state \<Rightarrow> nat \<Rightarrow> u64 list" where
  "next_numbers s n = map (\<lambda>i. declared_from_block (asm_header s) + of_nat (length (asm_blocks s) + i)) [0..<n]"

definition pushable ::
    "(prove_chunk \<Rightarrow> nat) \<Rightarrow> (nat \<Rightarrow> bool) \<Rightarrow> block_witness list \<Rightarrow> assembler_state \<Rightarrow> bool" where
  "pushable encoded_len try_reserve bs s \<longleftrightarrow>
     accounted_payload_bytes s + (\<Sum>b\<leftarrow>bs. encoded_len (Some (Block b))) \<le> lim_payload_bytes (asm_limits s)
     \<and> accounted_witness_items s + (\<Sum>b\<leftarrow>bs. block_items b) \<le> lim_witness_items (asm_limits s)
     \<and> length (asm_blocks s) + length bs \<le> declared_block_count s
     \<and> map bw_number bs = next_numbers s (length bs)
     \<and> list_all complete_block bs
     \<and> hash_linked (asm_blocks s @ map admitted_of bs)
     \<and> (\<forall>i < length bs. try_reserve (length (asm_blocks s) + i))"

text \<open>The invariant of an assembler: quotas respected, the declared span fixed, hashes linked.\<close>

definition wf_assembler :: "assembler_state \<Rightarrow> bool" where
  "wf_assembler s \<longleftrightarrow>
     declared_from_block (asm_header s) \<le> declared_to_block (asm_header s)
     \<and> declared_from_block (asm_header s) \<noteq> 0
     \<and> declared_block_count s = Suc (unat (declared_to_block (asm_header s) - declared_from_block (asm_header s)))
     \<and> declared_block_count s \<le> lim_blocks (asm_limits s)
     \<and> accounted_payload_bytes s \<le> lim_payload_bytes (asm_limits s)
     \<and> accounted_witness_items s \<le> lim_witness_items (asm_limits s)
     \<and> lim_payload_bytes (asm_limits s) < 2 ^ 64 \<and> lim_witness_items (asm_limits s) < 2 ^ 64
     \<and> length (asm_blocks s) \<le> declared_block_count s
     \<and> hash_linked (asm_blocks s)"

lemma charge_Inr: "charge c a m over = Inr n \<longleftrightarrow> c + a < 2 ^ 64 \<and> c + a \<le> m \<and> n = c + a"
  by (auto simp: charge_def)

lemma b256_try_from_Some: "b256_try_from bs = Some h \<longleftrightarrow> length bs = 32 \<and> h = of_be_bytes bs"
  by (auto simp: b256_try_from_def)

lemma range_nth_Some: "range_nth from to i = Some n \<longleftrightarrow> from \<le> to \<and> i \<le> unat (to - from) \<and> n = from + of_nat i"
  by (auto simp: range_nth_def)

lemma push_block_Inr:
  assumes "wf_assembler s"
  shows "push_block R b s = Inr s' \<longleftrightarrow>
    accounted_witness_items s + block_items b \<le> lim_witness_items (asm_limits s)
    \<and> length (asm_blocks s) < declared_block_count s
    \<and> bw_number b = declared_from_block (asm_header s) + of_nat (length (asm_blocks s))
    \<and> complete_block b \<and> hash_linked (asm_blocks s @ [admitted_of b]) \<and> R (length (asm_blocks s))
    \<and> s' = s\<lparr>accounted_witness_items := accounted_witness_items s + block_items b,
              asm_blocks := asm_blocks s @ [admitted_of b]\<rparr>"
proof -
  have charge: "charge c x (lim_witness_items (asm_limits s)) f = Inr n \<longleftrightarrow>
      c + x \<le> lim_witness_items (asm_limits s) \<and> n = c + x" for c x f n
    using assms by (auto simp: wf_assembler_def charge_Inr)
  have idx: "length (asm_blocks s) \<le> unat (declared_to_block (asm_header s) - declared_from_block (asm_header s))
      \<longleftrightarrow> length (asm_blocks s) < declared_block_count s"
    using assms by (auto simp: wf_assembler_def)
  have le: "declared_from_block (asm_header s) \<le> declared_to_block (asm_header s)"
    and linked: "hash_linked (asm_blocks s)"
    using assms by (simp_all add: wf_assembler_def)
  show ?thesis
  proof (cases "bw_witness b")
    case None
    then show ?thesis by (auto simp: push_block_def complete_block_def and_then_eq_Inr Let_def split: if_splits)
  next
    case (Some w)
    then have w: "block_items b = wire_witness_item_count w" by (simp add: block_items_def)
    show ?thesis
      using linked Some
      by (auto simp: push_block_def and_then_eq_Inr b256_try_from_Some range_nth_Some charge idx le w
          complete_block_def admitted_of_def successively_append_iff Let_def split: if_splits)
  qed
qed

lemma pushed_Nil [simp]: "pushed L [] s = s"
  by (simp add: pushed_def)

lemma pushed_Cons: "pushed L (b # bs) s = pushed L bs (pushed L [b] s)"
  by (simp add: pushed_def)

lemma pushed_fields [simp]:
  "asm_header (pushed L bs s) = asm_header s" "asm_limits (pushed L bs s) = asm_limits s"
  "declared_block_count (pushed L bs s) = declared_block_count s"
  "asm_rollup_id (pushed L bs s) = asm_rollup_id s"
  "asm_blocks (pushed L bs s) = asm_blocks s @ map admitted_of bs"
  by (simp_all add: pushed_def)

lemma next_numbers_Suc:
  "next_numbers s (Suc n) = (declared_from_block (asm_header s) + of_nat (length (asm_blocks s))) # next_numbers (pushed L [b] s) n"
  by (simp add: next_numbers_def upt_conv_Cons map_Suc_upt[symmetric] comp_def del: upt_Suc)

lemma next_numbers_0 [simp]: "next_numbers s 0 = []"
  by (simp add: next_numbers_def)

lemma pushable_Nil [simp]: "wf_assembler s \<Longrightarrow> pushable L R [] s"
  by (simp add: pushable_def wf_assembler_def next_numbers_def)

lemma pushable_Cons: "pushable L R (b # bs) s \<longleftrightarrow> pushable L R [b] s \<and> pushable L R bs (pushed L [b] s)"
proof -
  have r: "(\<forall>i < Suc n. P (m + i)) \<longleftrightarrow> P m \<and> (\<forall>i < n. P (Suc (m + i)))" for n m and P :: "nat \<Rightarrow> bool"
    by (auto simp: less_Suc_eq_0_disj)
  show ?thesis
    by (auto simp: pushable_def next_numbers_Suc[where L = L and b = b] r successively_append_iff)
      (auto simp: pushed_def)
qed

lemma wf_pushed: "wf_assembler s \<Longrightarrow> pushable L R bs s \<Longrightarrow> wf_assembler (pushed L bs s)"
  by (simp add: wf_assembler_def pushable_def) (simp add: pushed_def)

lemma window_push_Block:
  assumes "wf_assembler s"
  shows "window_push L R (Some (Block b)) (Checked s) = Inr a \<longleftrightarrow> pushable L R [b] s \<and> a = Checked (pushed L [b] s)"
proof -
  let ?n = "accounted_payload_bytes s + L (Some (Block b))"
  let ?s = "s\<lparr>accounted_payload_bytes := ?n\<rparr>"
  show ?thesis
  proof (cases "?n \<le> lim_payload_bytes (asm_limits s)")
    case False
    then show ?thesis by (auto simp: window_push_def and_then_eq_Inr charge_Inr pushable_def)
  next
    case True
    have wf: "wf_assembler ?s" using assms True by (simp add: wf_assembler_def)
    have lt: "?n < 2 ^ 64" using assms True by (simp add: wf_assembler_def)
    have "window_push L R (Some (Block b)) (Checked s) = and_then (push_block R b ?s) (\<lambda>s''. Inr (Checked s''))"
      using True lt by (simp add: window_push_def charge_def Let_def)
    then show ?thesis
      using True by (auto simp: and_then_eq_Inr push_block_Inr[OF wf] pushable_def pushed_def next_numbers_def)
  qed
qed

lemma window_push_Inr:
  assumes "wf_assembler s"
  shows "window_push L R chunk (Checked s) = Inr a \<longleftrightarrow>
    (\<exists>b. chunk = Some (Block b) \<and> pushable L R [b] s \<and> a = Checked (pushed L [b] s))"
proof (cases "\<exists>b. chunk = Some (Block b)")
  case True
  then show ?thesis using window_push_Block[OF assms] by auto
next
  case False
  then show ?thesis
    by (auto simp: window_push_def and_then_eq_Inr Let_def split: option.splits chunk_kind.splits)
qed

lemma drain_Cons:
  assumes "wf_assembler s"
  shows "drain L R (ev # evs) (Checked s) = Inr a \<longleftrightarrow>
    (\<exists>b. ev = block_frame b \<and> pushable L R [b] s \<and> drain L R evs (Checked (pushed L [b] s)) = Inr a)"
  by (cases ev) (auto simp: and_then_eq_Inr window_push_Inr[OF assms])

lemma drain_Inr:
  "wf_assembler s \<Longrightarrow> drain L R evs (Checked s) = Inr a \<longleftrightarrow>
     (\<exists>bs. evs = map block_frame bs \<and> pushable L R bs s \<and> a = Checked (pushed L bs s))"
proof (induction evs arbitrary: s)
  case Nil
  then show ?case by auto
next
  case (Cons ev evs)
  show ?case (is "_ \<longleftrightarrow> ?R")
  proof
    assume "drain L R (ev # evs) (Checked s) = Inr a"
    then obtain b where b: "ev = block_frame b" "pushable L R [b] s" "drain L R evs (Checked (pushed L [b] s)) = Inr a"
      using drain_Cons[OF Cons.prems] by metis
    then obtain bs where "evs = map block_frame bs" "pushable L R bs (pushed L [b] s)"
        "a = Checked (pushed L bs (pushed L [b] s))"
      using Cons.IH wf_pushed[OF Cons.prems b(2)] by metis
    with b(1,2) show ?R
      by (intro exI[of _ "b # bs"]) (simp add: pushable_Cons[of L R b bs] pushed_Cons[of L b bs])
  next
    assume ?R
    then obtain b bs where bs: "ev = block_frame b" "evs = map block_frame bs" "pushable L R (b # bs) s"
        "a = Checked (pushed L (b # bs) s)"
      by (auto simp: Cons_eq_map_conv)
    then have b: "pushable L R [b] s" "pushable L R bs (pushed L [b] s)"
      using pushable_Cons[of L R b bs] by auto
    then have "drain L R evs (Checked (pushed L [b] s)) = Inr a"
      using Cons.IH[OF wf_pushed[OF Cons.prems b(1)]] bs by (auto simp: pushed_Cons[of L b bs])
    then show "drain L R (ev # evs) (Checked s) = Inr a"
      using drain_Cons[OF Cons.prems] b(1) bs(1) by blast
  qed
qed

text \<open>The assembler a header opens, and when it does.\<close>

definition opened :: "(prove_chunk \<Rightarrow> nat) \<Rightarrow> window_limits \<Rightarrow> prove_header \<Rightarrow> assembler_state" where
  "opened encoded_len limits h = \<lparr>asm_limits = limits, accounted_payload_bytes = encoded_len (Some (Header h)),
     accounted_witness_items = 0, asm_rollup_id = ph_rollup_id h,
     asm_header = \<lparr>declared_from_block = ph_from_block h, declared_to_block = ph_to_block h,
       submitted_post_batch_calldata = pb_abi_calldata (the (ph_post_batch h))\<rparr>,
     declared_block_count = Suc (unat (ph_to_block h - ph_from_block h)), asm_blocks = []\<rparr>"

definition usize_limits :: "window_limits \<Rightarrow> bool" where
  "usize_limits limits \<longleftrightarrow> lim_blocks limits < 2 ^ 64 \<and> lim_payload_bytes limits < 2 ^ 64
     \<and> lim_witness_items limits < 2 ^ 64"

definition header_ok :: "window_limits \<Rightarrow> prove_header \<Rightarrow> bool" where
  "header_ok limits h \<longleftrightarrow> ph_post_batch h \<noteq> None \<and> pb_l1_block_hash (the (ph_post_batch h)) = []
     \<and> 0 < ph_from_block h \<and> ph_from_block h \<le> ph_to_block h
     \<and> Suc (unat (ph_to_block h - ph_from_block h)) \<le> lim_blocks limits"

lemma span_unat:
  assumes "0 < (f :: u64)" "f \<le> t"
  shows "unat (t - f + 1) = Suc (unat (t - f))"
proof -
  have "unat (t - f) = unat t - unat f" using assms(2) by (rule unat_sub)
  moreover have "0 < unat f" using assms(1) by (simp add: word_less_nat_alt)
  ultimately have "Suc (unat (t - f)) < 2 ^ 64" using unat_lt_len[of t] by simp
  then show ?thesis by (simp add: unat_word_ariths)
qed

lemma check_header_Inr:
  assumes "lim_blocks limits < 2 ^ 64"
  shows "check_header h limits = Inr p \<longleftrightarrow> header_ok limits h \<and> p = \<lparr>parsed_rollup_id = ph_rollup_id h,
    parsed_admitted = asm_header (opened L limits h), parsed_block_count = declared_block_count (opened L limits h)\<rparr>"
proof -
  have lim: "(of_nat (lim_blocks limits) :: u64) < t - f + 1 \<longleftrightarrow> lim_blocks limits < Suc (unat (t - f))"
    if "0 < f" "f \<le> t" for t f :: u64
    using span_unat[OF that] unat_of_nat_lt[of "lim_blocks limits", where 'a = 64] assms
    by (simp add: word_less_nat_alt)
  have pos: "f \<noteq> 0 \<longleftrightarrow> 0 < f" for f :: u64 by (simp add: word_neq_0_conv)
  show ?thesis
  proof (cases "ph_post_batch h")
    case (Some pb)
    then show ?thesis
      using assms lim[of "ph_from_block h" "ph_to_block h"] span_unat[of "ph_from_block h" "ph_to_block h"]
      by (auto simp: check_header_def header_ok_def opened_def Let_def pos not_less split: if_splits)
  qed (simp add: check_header_def header_ok_def)
qed

lemma wf_opened:
  assumes "usize_limits limits" "header_ok limits h" "L (Some (Header h)) \<le> lim_payload_bytes limits"
  shows "wf_assembler (opened L limits h)"
  using assms by (auto simp: wf_assembler_def opened_def usize_limits_def header_ok_def)

lemma assembler_start_Inr:
  assumes "usize_limits limits"
  shows "assembler_start L limits chunk = Inr a \<longleftrightarrow>
    (\<exists>h. chunk = Some (Header h) \<and> L chunk \<le> lim_payload_bytes limits \<and> header_ok limits h
      \<and> a = Unchecked (opened L limits h))"
proof -
  have charge: "charge 0 x (lim_payload_bytes limits) f = Inr n \<longleftrightarrow> x \<le> lim_payload_bytes limits \<and> n = x" for x f n
    using assms by (auto simp: usize_limits_def charge_Inr)
  have b: "lim_blocks limits < 2 ^ 64" using assms by (simp add: usize_limits_def)
  have o: "\<lparr>asm_limits = limits, accounted_payload_bytes = L (Some (Header h)), accounted_witness_items = 0,
      asm_rollup_id = ph_rollup_id h, asm_header = asm_header (opened L limits h),
      declared_block_count = declared_block_count (opened L limits h), asm_blocks = []\<rparr> = opened L limits h" for h
    by (simp add: opened_def)
  show ?thesis
    by (auto simp: assembler_start_def and_then_eq_Inr charge check_header_Inr[OF b, where L = L] o
        split: option.splits chunk_kind.splits)
qed

text \<open>
  A stream that should be admitted, stated over the messages alone: the header first, then exactly
  the declared blocks in order, complete, hash-linked and within the quotas.
\<close>

definition stream_ok ::
    "(prove_chunk \<Rightarrow> nat) \<Rightarrow> (nat \<Rightarrow> bool) \<Rightarrow> u64 \<Rightarrow> window_limits \<Rightarrow> prove_header \<Rightarrow> block_witness list \<Rightarrow> bool" where
  "stream_ok encoded_len try_reserve expected limits h bs \<longleftrightarrow>
     header_ok limits h \<and> ph_rollup_id h = expected
     \<and> map (\<lambda>b. unat (bw_number b)) bs = [unat (ph_from_block h)..<Suc (unat (ph_to_block h))]
     \<and> list_all complete_block bs \<and> hash_linked (map admitted_of bs)
     \<and> encoded_len (Some (Header h)) + (\<Sum>b\<leftarrow>bs. encoded_len (Some (Block b))) \<le> lim_payload_bytes limits
     \<and> (\<Sum>b\<leftarrow>bs. block_items b) \<le> lim_witness_items limits
     \<and> (\<forall>i < length bs. try_reserve i)"

lemma declared_span:
  assumes "0 < (f :: u64)" "f \<le> t"
  shows "length ns = Suc (unat (t - f)) \<and> ns = map (\<lambda>i. f + of_nat i) [0..<length ns] \<longleftrightarrow>
    map unat ns = [unat f..<Suc (unat t)]"
proof -
  have sub: "unat (t - f) = unat t - unat f" using assms(2) by (rule unat_sub)
  have le: "unat f \<le> unat t" using assms(2) by (simp add: word_le_nat_alt)
  have u: "unat (f + of_nat i) = unat f + i" if "i < Suc (unat t - unat f)" for i
  proof -
    have "unat f + i < 2 ^ 64" using that le unat_lt_len[of t] by simp
    then show ?thesis by (simp add: unat_word_ariths unat_of_nat)
  qed
  have m: "map unat (map (\<lambda>i. f + of_nat i) [0..<Suc (unat t - unat f)]) = [unat f..<Suc (unat t)]"
    using le u by (intro nth_equalityI) (auto simp del: upt_Suc)
  show ?thesis
  proof
    assume "length ns = Suc (unat (t - f)) \<and> ns = map (\<lambda>i. f + of_nat i) [0..<length ns]"
    then show "map unat ns = [unat f..<Suc (unat t)]" using m sub by metis
  next
    assume a: "map unat ns = [unat f..<Suc (unat t)]"
    then have len: "length ns = Suc (unat t - unat f)"
      using le by (metis Suc_diff_le length_map length_upt)
    have "map unat ns = map unat (map (\<lambda>i. f + of_nat i) [0..<Suc (unat t - unat f)])"
      using a m by simp
    then have "ns = map (\<lambda>i. f + of_nat i) [0..<Suc (unat t - unat f)]"
      by (rule map_injective) (metis injI of_nat_unat_id)
    then show "length ns = Suc (unat (t - f)) \<and> ns = map (\<lambda>i. f + of_nat i) [0..<length ns]"
      using len sub by simp
  qed
qed

lemma pushable_opened:
  assumes "header_ok limits h"
  shows "pushable L R bs (opened L limits h) \<and> length bs = declared_block_count (opened L limits h)
      \<and> ph_rollup_id h = expected \<and> L (Some (Header h)) \<le> lim_payload_bytes limits
    \<longleftrightarrow> stream_ok L R expected limits h bs"
proof -
  have "0 < ph_from_block h" "ph_from_block h \<le> ph_to_block h" using assms by (auto simp: header_ok_def)
  note span = declared_span[OF this, of "map bw_number bs"]
  show ?thesis
    using assms span
    by (auto simp: pushable_def stream_ok_def opened_def next_numbers_def comp_def simp del: upt_Suc)
qed

lemma read_window_Inr:
  assumes "usize_limits limits"
  shows "read_window L R expected limits evs = Inr w \<longleftrightarrow>
    (\<exists>h bs. evs = Frame (Some (Header h)) # map block_frame bs \<and> stream_ok L R expected limits h bs
      \<and> w = \<lparr>win_header = asm_header (opened L limits h), win_blocks = map admitted_of bs\<rparr>)" (is "?L \<longleftrightarrow> ?R")
proof
  assume ?L
  then obtain ev evs' first a a' a'' where st: "evs = ev # evs'" "next_message ev = Inr first"
      "assembler_start L limits first = Inr a" "verify_rollup_identity expected a = Inr a'"
      "drain L R evs' a' = Inr a''" "window_finish a'' = Inr w"
    by (auto simp: read_window_def and_then_eq_Inr split: list.splits)
  from st(3) obtain h where h: "first = Some (Header h)" "L first \<le> lim_payload_bytes limits"
      "header_ok limits h" "a = Unchecked (opened L limits h)"
    by (auto simp: assembler_start_Inr[OF assms])
  have id: "ph_rollup_id h = expected" "a' = Checked (opened L limits h)"
    using st(4) by (auto simp: h(4) verify_rollup_identity_def opened_def Let_def split: if_splits)
  have wf: "wf_assembler (opened L limits h)" using wf_opened[OF assms h(3)] h(1,2) by simp
  obtain bs where bs: "evs' = map block_frame bs" "pushable L R bs (opened L limits h)"
      "a'' = Checked (pushed L bs (opened L limits h))"
    using st(5) by (auto simp: id(2) drain_Inr[OF wf])
  have "length bs = declared_block_count (opened L limits h)"
    and w: "w = \<lparr>win_header = asm_header (opened L limits h), win_blocks = map admitted_of bs\<rparr>"
    using st(6) by (auto simp: bs(3) window_finish_def Let_def opened_def split: if_splits)
  then have "stream_ok L R expected limits h bs"
    using bs(2) id(1) h(1,2) pushable_opened[OF h(3), of L R bs expected] by simp
  moreover have "ev = Frame (Some (Header h))" using st(2) h(1) by (cases ev) (auto split: if_splits)
  ultimately show ?R using st(1) bs(1) w by blast
next
  assume ?R
  then obtain h bs where r: "evs = Frame (Some (Header h)) # map block_frame bs" "stream_ok L R expected limits h bs"
      "w = \<lparr>win_header = asm_header (opened L limits h), win_blocks = map admitted_of bs\<rparr>" by blast
  have h: "header_ok limits h" using r(2) by (simp add: stream_ok_def)
  have p: "pushable L R bs (opened L limits h)" "length bs = declared_block_count (opened L limits h)"
      "ph_rollup_id h = expected" "L (Some (Header h)) \<le> lim_payload_bytes limits"
    using pushable_opened[OF h, of L R bs expected] r(2) by auto
  have wf: "wf_assembler (opened L limits h)" using wf_opened[OF assms h] p(4) by simp
  have s: "assembler_start L limits (Some (Header h)) = Inr (Unchecked (opened L limits h))"
    using p(4) h by (simp add: assembler_start_Inr[OF assms])
  have v: "verify_rollup_identity expected (Unchecked (opened L limits h)) = Inr (Checked (opened L limits h))"
    using p(3) by (simp add: verify_rollup_identity_def opened_def)
  have d: "drain L R (map block_frame bs) (Checked (opened L limits h)) = Inr (Checked (pushed L bs (opened L limits h)))"
    using p(1) by (auto simp: drain_Inr[OF wf])
  have f: "window_finish (Checked (pushed L bs (opened L limits h))) = Inr w"
    using p(2) r(3) by (simp add: window_finish_def opened_def)
  show ?L by (simp add: read_window_def r(1) s v d f)
qed

section \<open>Properties\<close>

definition example_limits :: window_limits where
  "example_limits = \<lparr>lim_blocks = 2, lim_payload_bytes = 1000, lim_witness_items = 8\<rparr>"

definition example_header :: prove_header where
  "example_header = \<lparr>ph_rollup_id = 7, ph_from_block = 5, ph_to_block = 6,
     ph_post_batch = Some \<lparr>pb_public_inputs_hash = [1], pb_l1_block_hash = [], pb_abi_calldata = [2, 3]\<rparr>\<rparr>"

definition example_block :: "u64 \<Rightarrow> u8 \<Rightarrow> u8 \<Rightarrow> block_witness" where
  "example_block n h p = \<lparr>bw_number = n, bw_hash = replicate 32 h, bw_parent_hash = replicate 32 p, bw_rlp = [9],
     bw_witness = Some \<lparr>ww_state = [[1]], ww_codes = [], ww_keys = [[2]], ww_headers = []\<rparr>\<rparr>"



end
