(* ===== verification/Validated_Block.thy ===== *)
theory Validated_Block
  imports System_Tx Outbound_Gate Window_Admission
begin

text \<open>
  Execution evidence of the proof signer: \<^verbatim>\<open>crates/eez-proof-signer/src/validate.rs\<close>,
  \<^verbatim>\<open>validate/support.rs\<close> and the transaction envelope of \<^verbatim>\<open>crates/eez-primitives/src/lib.rs\<close>.
  Block replay itself is the backend's: it is the argument \<open>validate_blocks\<close>, and the RLP decoder, the
  header hash, signer recovery and the event coder are the record \<open>reth\<close>. The lemmas show what a
  published validated block guarantees.
\<close>

section \<open>Transactions and blocks\<close>

text \<open>
  An Ethereum transaction is the library's type; the record holds the views of it the code reads: the
  EIP-2718 type and bytes, the call fields, and the two signer recoveries.
\<close>

record ethereum_tx =
  eth_ty :: u8
  eth_to :: "address option"
  eth_value :: u256
  eth_input :: bytes
  eth_nonce :: u64
  eth_encoded :: bytes
  eth_signer :: "address option"
  eth_signer_unchecked :: "address option"

datatype eez_tx = EthereumTx ethereum_tx | SystemTx system_transaction

fun is_system_tx :: "eez_tx \<Rightarrow> bool" where
  "is_system_tx (SystemTx _) = True"
| "is_system_tx (EthereumTx _) = False"

fun tx_ty :: "eez_tx \<Rightarrow> u8" where
  "tx_ty (EthereumTx tx) = eth_ty tx"
| "tx_ty (SystemTx tx) = SYSTEM_TX_TYPE"

fun tx_to :: "eez_tx \<Rightarrow> address option" where
  "tx_to (EthereumTx tx) = eth_to tx"
| "tx_to (SystemTx tx) = Some (stx_to tx)"

fun tx_value :: "eez_tx \<Rightarrow> u256" where
  "tx_value (EthereumTx tx) = eth_value tx"
| "tx_value (SystemTx tx) = stx_value tx"

fun tx_input :: "eez_tx \<Rightarrow> bytes" where
  "tx_input (EthereumTx tx) = eth_input tx"
| "tx_input (SystemTx tx) = stx_input tx"

fun tx_nonce :: "eez_tx \<Rightarrow> u64" where
  "tx_nonce (EthereumTx tx) = eth_nonce tx"
| "tx_nonce (SystemTx tx) = stx_nonce tx"

fun tx_encoded :: "alloy \<Rightarrow> eez_tx \<Rightarrow> bytes" where
  "tx_encoded A (EthereumTx tx) = eth_encoded tx"
| "tx_encoded A (SystemTx tx) = encode_2718 A tx"

definition recalculate_hash :: "alloy \<Rightarrow> eez_tx \<Rightarrow> b256" where
  "recalculate_hash A tx = keccak256 A (tx_encoded A tx)"

fun tx_signer :: "eez_tx \<Rightarrow> address option" where
  "tx_signer (EthereumTx tx) = eth_signer tx"
| "tx_signer (SystemTx tx) = Some (recover_signer tx)"

fun tx_signer_unchecked :: "eez_tx \<Rightarrow> address option" where
  "tx_signer_unchecked (EthereumTx tx) = eth_signer_unchecked tx"
| "tx_signer_unchecked (SystemTx tx) = Some (recover_signer tx)"

record block_header =
  hdr_number :: u64
  hdr_parent_hash :: b256
  hdr_state_root :: b256
  hdr_beneficiary :: address
  hdr_extra_data :: bytes

record eth_block =
  blk_header :: block_header
  blk_transactions :: "eez_tx list"

record recovered_block =
  rb_block :: eth_block
  rb_signers :: "address list"

record outbound_event =
  ev_call_hash :: b256
  ev_proxy :: address
  ev_source_address :: address
  ev_call_data :: bytes
  ev_value :: u256
  ev_call_gas :: u64

record reth =
  decode_block :: "bytes \<Rightarrow> eth_block option"
  header_hash :: "block_header \<Rightarrow> b256"
  homestead_active :: "u64 \<Rightarrow> bool"
  event_signature :: b256
  decode_event :: "log \<Rightarrow> outbound_event option"
  encode_event :: "outbound_event \<Rightarrow> log"

section \<open>Checkpoint positions\<close>

text \<open>The replay engine's position type: before execution, or after a transaction.\<close>

datatype checkpoint_at = PreExecution | Transaction nat

instantiation checkpoint_at :: linorder
begin

fun less_eq_checkpoint_at :: "checkpoint_at \<Rightarrow> checkpoint_at \<Rightarrow> bool" where
  "less_eq_checkpoint_at PreExecution b = True"
| "less_eq_checkpoint_at (Transaction i) PreExecution = False"
| "less_eq_checkpoint_at (Transaction i) (Transaction j) = (i \<le> j)"

definition less_checkpoint_at :: "checkpoint_at \<Rightarrow> checkpoint_at \<Rightarrow> bool" where
  "less_checkpoint_at a b \<longleftrightarrow> a \<le> b \<and> \<not> b \<le> (a :: checkpoint_at)"

instance
proof
  fix x y z :: checkpoint_at
  show "x < y \<longleftrightarrow> x \<le> y \<and> \<not> y \<le> x" by (simp add: less_checkpoint_at_def)
  show "x \<le> x" by (cases x) simp_all
  show "x \<le> y \<Longrightarrow> y \<le> z \<Longrightarrow> x \<le> z" by (cases x; cases y; cases z) simp_all
  show "x \<le> y \<Longrightarrow> y \<le> x \<Longrightarrow> x = y" by (cases x; cases y) simp_all
  show "x \<le> y \<or> y \<le> x" by (cases x; cases y) (auto simp: linear)
qed

end

lemma checkpoint_less [simp]:
  "PreExecution < Transaction i" "\<not> x < PreExecution" "Transaction i < Transaction j \<longleftrightarrow> i < j"
  by (cases x; auto simp: less_checkpoint_at_def)+

record state_checkpoint =
  cp_at :: checkpoint_at
  cp_state_root :: b256
  cp_block_hash :: b256

section \<open>Evidence\<close>

record outbound_event_observation =
  obs_transaction_index :: nat
  obs_receipt_log_index :: nat
  obs_decoded_event :: "observation option"

record settlement_block_evidence =
  evd_system_sender_flags :: "bool list"
  evd_outbound_events :: "outbound_event_observation list"

record backend_block_output =
  out_computed_hash :: b256
  out_receipt_successes :: "bool list"
  out_checkpoints :: "state_checkpoint list"
  out_post_state_root :: b256
  out_evidence :: settlement_block_evidence

record validated_block =
  vb_number :: u64
  vb_hash :: b256
  vb_parent_hash :: b256
  vb_pre_state_root :: b256
  vb_post_state_root :: b256
  vb_rlp :: bytes
  vb_decoded :: eth_block
  vb_receipt_successes :: "bool list"
  vb_checkpoints :: "state_checkpoint list"
  vb_evidence :: settlement_block_evidence

record block_anchor =
  anchor_number :: u64
  anchor_hash :: b256
  anchor_state_root :: b256

datatype evidence_error =
    ComputedHashMismatch
  | ReceiptCount
  | SenderFlagCount
  | ObservationOutOfBounds
  | ObservationOrder
  | PrecedingCheckpoints
  | CheckpointOrder
  | CheckpointOutOfBounds
  | CheckpointSelection
  | BackendBlockCount

datatype reject_reason =
    NotExactParent
  | CachedBlockMismatch
  | InvalidConsensusRlp u64
  | WrongDecodedNumber
  | WrongDecodedParent
  | WrongDecodedHash
  | RecoveryFailed u64
  | EmptyWindow

datatype validation_error =
    DeadlineExceeded
  | Unavailable string
  | Aborted string
  | Rejected reject_reason
  | InvalidBackendOutput evidence_error
  | InternalInvariant string
  | ValidationCancelled

definition check_parent :: "admitted_block \<Rightarrow> block_anchor \<Rightarrow> validation_error + unit" where
  "check_parent b parent =
     (if checked_add_word (anchor_number parent) 1 \<noteq> Some (declared_number b)
         \<or> anchor_hash parent \<noteq> claimed_parent_hash b
      then Inl (Rejected NotExactParent) else Inr ())"

definition as_anchor :: "validated_block \<Rightarrow> block_anchor" where
  "as_anchor v = \<lparr>anchor_number = vb_number v, anchor_hash = vb_hash v, anchor_state_root = vb_post_state_root v\<rparr>"

definition matches_submission :: "validated_block \<Rightarrow> admitted_block \<Rightarrow> block_anchor \<Rightarrow> validation_error + unit" where
  "matches_submission v b parent =
     and_then (check_parent b parent) (\<lambda>_.
     if vb_number v \<noteq> declared_number b \<or> vb_hash v \<noteq> claimed_hash b \<or> vb_parent_hash v \<noteq> claimed_parent_hash b
        \<or> vb_rlp v \<noteq> adm_rlp b \<or> vb_pre_state_root v \<noteq> anchor_state_root parent
     then Inl (Rejected CachedBlockMismatch) else Inr ())"

definition observation_less :: "outbound_event_observation \<Rightarrow> outbound_event_observation \<Rightarrow> bool" where
  "observation_less a b \<longleftrightarrow> obs_transaction_index a < obs_transaction_index b
     \<or> obs_transaction_index a = obs_transaction_index b \<and> obs_receipt_log_index a < obs_receipt_log_index b"

fun checkpoint_in_bounds :: "nat \<Rightarrow> checkpoint_at \<Rightarrow> bool" where
  "checkpoint_in_bounds n PreExecution = True"
| "checkpoint_in_bounds n (Transaction i) = (i < n)"

definition check_backend_block_output ::
    "b256 \<Rightarrow> eth_block \<Rightarrow> backend_block_output \<Rightarrow> bool \<Rightarrow> evidence_error + unit" where
  "check_backend_block_output expected_hash decoded output allow_checkpoints =
     (let n = length (blk_transactions decoded);
          events = evd_outbound_events (out_evidence output);
          checkpoints = out_checkpoints output in
      if out_computed_hash output \<noteq> expected_hash then Inl ComputedHashMismatch
      else if length (out_receipt_successes output) \<noteq> n then Inl ReceiptCount
      else if length (evd_system_sender_flags (out_evidence output)) \<noteq> n then Inl SenderFlagCount
      else if \<not> list_all (\<lambda>ob. obs_transaction_index ob < n) events then Inl ObservationOutOfBounds
      else if \<not> successively observation_less events then Inl ObservationOrder
      else if \<not> allow_checkpoints \<and> checkpoints \<noteq> [] then Inl PrecedingCheckpoints
      else if \<not> successively (\<lambda>a b. cp_at a < cp_at b) checkpoints then Inl CheckpointOrder
      else if \<not> list_all (\<lambda>c. checkpoint_in_bounds n (cp_at c)) checkpoints then Inl CheckpointOutOfBounds
      else Inr ())"

section \<open>Replay support\<close>

record decoded_block =
  db_rlp :: bytes
  db_block :: recovered_block

definition recover_block :: "reth \<Rightarrow> eth_block \<Rightarrow> recovered_block option" where
  "recover_block R b =
     (let recover = (if homestead_active R (hdr_number (blk_header b)) then tx_signer else tx_signer_unchecked) in
      map_option (\<lambda>signers. \<lparr>rb_block = b, rb_signers = signers\<rparr>) (those (map recover (blk_transactions b))))"

definition decode_and_match_stream_metadata :: "reth \<Rightarrow> admitted_block \<Rightarrow> validation_error + eth_block" where
  "decode_and_match_stream_metadata R b =
     and_then (ok_or (Rejected (InvalidConsensusRlp (declared_number b))) (decode_block R (adm_rlp b))) (\<lambda>block.
     if hdr_number (blk_header block) \<noteq> declared_number b then Inl (Rejected WrongDecodedNumber)
     else if hdr_parent_hash (blk_header block) \<noteq> claimed_parent_hash b then Inl (Rejected WrongDecodedParent)
     else if header_hash R (blk_header block) \<noteq> claimed_hash b then Inl (Rejected WrongDecodedHash)
     else Inr block)"

definition decode_match_and_recover_signers :: "reth \<Rightarrow> admitted_block \<Rightarrow> validation_error + decoded_block" where
  "decode_match_and_recover_signers R b =
     and_then (decode_and_match_stream_metadata R b) (\<lambda>block.
     and_then (ok_or (Rejected (RecoveryFailed (hdr_number (blk_header block)))) (recover_block R block)) (\<lambda>rb.
     Inr \<lparr>db_rlp = adm_rlp b, db_block = rb\<rparr>))"

text \<open>\<open>RecoveredBlock::hash\<close> is the hash of the header it holds.\<close>

definition decoded_block_finish ::
    "reth \<Rightarrow> decoded_block \<Rightarrow> backend_block_output \<Rightarrow> b256 \<Rightarrow> bool \<Rightarrow> validation_error + validated_block" where
  "decoded_block_finish R d output pre_state_root allow_checkpoints =
     (let decoded = rb_block (db_block d);
          hash = header_hash R (blk_header decoded) in
      and_then (map_err InvalidBackendOutput
        (check_backend_block_output hash decoded output allow_checkpoints)) (\<lambda>_.
      Inr \<lparr>vb_number = hdr_number (blk_header decoded), vb_hash = out_computed_hash output,
        vb_parent_hash = hdr_parent_hash (blk_header decoded), vb_pre_state_root = pre_state_root,
        vb_post_state_root = out_post_state_root output, vb_rlp = db_rlp d, vb_decoded = decoded,
        vb_receipt_successes = out_receipt_successes output, vb_checkpoints = out_checkpoints output,
        vb_evidence = out_evidence output\<rparr>))"

definition check_cancellation :: "bool \<Rightarrow> validation_error + unit" where
  "check_cancellation cancelled = (if cancelled then Inl ValidationCancelled else Inr ())"

definition system_sender_flags :: "recovered_block \<Rightarrow> address \<Rightarrow> bool list" where
  "system_sender_flags b system_address = map (\<lambda>signer. signer = system_address) (rb_signers b)"

definition checkpoint_plan :: "recovered_block \<Rightarrow> address \<Rightarrow> checkpoint_at list \<times> bool list" where
  "checkpoint_plan b system_address =
     (let txs = blk_transactions (rb_block b);
          sync_flags = map is_system_tx txs in
      (if txs = [] \<or> True \<in> set sync_flags
       then PreExecution # map Transaction (pair_end_positions sync_flags) else [],
       system_sender_flags b system_address))"

definition verify_returned :: "checkpoint_at list \<Rightarrow> state_checkpoint list \<Rightarrow> validation_error + unit" where
  "verify_returned positions checkpoints =
     (if length checkpoints = length positions \<and> list_all (\<lambda>(c, p). cp_at c = p) (zip checkpoints positions)
      then Inr () else Inl (InvalidBackendOutput CheckpointSelection))"

definition observe_log :: "reth \<Rightarrow> nat \<Rightarrow> nat \<Rightarrow> log \<Rightarrow> outbound_event_observation list" where
  "observe_log R tx_index log_index l =
     (if log_address l \<noteq> EEZL2_ADDRESS \<or> (case log_topics l of [] \<Rightarrow> True | t # _ \<Rightarrow> t \<noteq> event_signature R) then []
      else [\<lparr>obs_transaction_index = tx_index, obs_receipt_log_index = log_index,
             obs_decoded_event =
               (case decode_event R l of
                  None \<Rightarrow> None
                | Some ev \<Rightarrow> if encode_event R ev = l
                    then Some \<lparr>call_hash = ev_call_hash ev, obs_call_gas = ev_call_gas ev\<rparr> else None)\<rparr>])"

definition observe_outbound_events :: "reth \<Rightarrow> log list list \<Rightarrow> outbound_event_observation list" where
  "observe_outbound_events R receipts =
     concat (map (\<lambda>(i, logs). concat (map (\<lambda>(j, l). observe_log R i j l) (enumerate 0 logs))) (enumerate 0 receipts))"

section \<open>Windows\<close>

record validated_window =
  window_pre_block_hash :: b256
  preceding_blocks :: "validated_block list"
  settling_block :: validated_block

definition window_post_block_hash :: "validated_window \<Rightarrow> b256" where
  "window_post_block_hash w = vb_hash (settling_block w)"

definition window_blocks :: "validated_window \<Rightarrow> validated_block list" where
  "window_blocks w = preceding_blocks w @ [settling_block w]"

definition take_witness :: "admitted_block \<Rightarrow> execution_witness \<times> admitted_block" where
  "take_witness b = (adm_witness b, b\<lparr>adm_witness := \<lparr>ew_state = [], ew_codes = [], ew_keys = [], ew_headers = []\<rparr>\<rparr>)"

definition validate_window ::
    "(admitted_block list \<Rightarrow> execution_witness list \<Rightarrow> validation_error + validated_block list)
     \<Rightarrow> admitted_block list \<Rightarrow> validation_error + validated_window" where
  "validate_window validate_blocks blocks =
     and_then (validate_blocks (map (snd \<circ> take_witness) blocks) (map (fst \<circ> take_witness) blocks)) (\<lambda>output.
     if length output \<noteq> length blocks then Inl (InvalidBackendOutput BackendBlockCount)
     else if output = [] then Inl (Rejected EmptyWindow)
     else let preceding = butlast output; terminal = last output in
       Inr \<lparr>window_pre_block_hash = (case preceding of [] \<Rightarrow> vb_parent_hash terminal | b # _ \<Rightarrow> vb_parent_hash b),
            preceding_blocks = preceding, settling_block = terminal\<rparr>)"

section \<open>What a validated block guarantees\<close>

definition wf_evidence :: "nat \<Rightarrow> settlement_block_evidence \<Rightarrow> bool" where
  "wf_evidence n e \<longleftrightarrow> length (evd_system_sender_flags e) = n
     \<and> (\<forall>ob \<in> set (evd_outbound_events e). obs_transaction_index ob < n)
     \<and> sorted_wrt observation_less (evd_outbound_events e)"

definition wf_checkpoints :: "nat \<Rightarrow> state_checkpoint list \<Rightarrow> bool" where
  "wf_checkpoints n cs \<longleftrightarrow> sorted_wrt (<) (map cp_at cs) \<and> (\<forall>c \<in> set cs. checkpoint_in_bounds n (cp_at c))"

definition wf_validated :: "validated_block \<Rightarrow> bool" where
  "wf_validated v \<longleftrightarrow> (let n = length (blk_transactions (vb_decoded v)) in
     length (vb_receipt_successes v) = n \<and> wf_evidence n (vb_evidence v) \<and> wf_checkpoints n (vb_checkpoints v))"

lemma transp_observation_less: "transp observation_less"
  by (rule transpI) (auto simp: observation_less_def)

lemma check_backend_block_output_Inr:
  "check_backend_block_output h b out allow = Inr () \<longleftrightarrow>
     out_computed_hash out = h \<and> length (out_receipt_successes out) = length (blk_transactions b)
     \<and> wf_evidence (length (blk_transactions b)) (out_evidence out)
     \<and> wf_checkpoints (length (blk_transactions b)) (out_checkpoints out)
     \<and> (allow \<or> out_checkpoints out = [])"
proof -
  have "successively observation_less es \<longleftrightarrow> sorted_wrt observation_less es" for es
    by (rule successively_conv_sorted_wrt[OF transp_observation_less])
  moreover have "successively (\<lambda>a b. cp_at a < cp_at b) cs \<longleftrightarrow> sorted_wrt (<) (map cp_at cs)" for cs
    unfolding sorted_wrt_map by (rule successively_conv_sorted_wrt) (auto intro: transpI)
  ultimately show ?thesis
    by (auto simp: check_backend_block_output_def wf_evidence_def wf_checkpoints_def Let_def list_all_iff)
qed

lemma decode_and_match_Inr:
  "decode_and_match_stream_metadata R b = Inr block \<longleftrightarrow>
     decode_block R (adm_rlp b) = Some block \<and> hdr_number (blk_header block) = declared_number b
     \<and> hdr_parent_hash (blk_header block) = claimed_parent_hash b \<and> header_hash R (blk_header block) = claimed_hash b"
  by (auto simp: decode_and_match_stream_metadata_def and_then_eq_Inr)

lemma recover_block_Some:
  "recover_block R b = Some rb \<Longrightarrow> rb_block rb = b \<and> length (rb_signers rb) = length (blk_transactions b)"
proof -
  have len: "those xs = Some ys \<Longrightarrow> length ys = length xs" for xs :: "'a option list" and ys
    by (induction xs arbitrary: ys) (auto split: option.splits)
  assume "recover_block R b = Some rb"
  then show ?thesis
    using len[of "map tx_signer (blk_transactions b)"] len[of "map tx_signer_unchecked (blk_transactions b)"]
    by (auto simp: recover_block_def Let_def split: if_splits)
qed

lemma decode_match_Inr:
  assumes "decode_match_and_recover_signers R b = Inr d"
  shows "decode_and_match_stream_metadata R b = Inr (rb_block (db_block d)) \<and> db_rlp d = adm_rlp b
    \<and> length (rb_signers (db_block d)) = length (blk_transactions (rb_block (db_block d)))"
  using assms recover_block_Some
  by (fastforce simp: decode_match_and_recover_signers_def and_then_eq_Inr)

lemma finish_Inr:
  "decoded_block_finish R d out pre allow = Inr v \<longleftrightarrow>
     check_backend_block_output (header_hash R (blk_header (rb_block (db_block d)))) (rb_block (db_block d)) out allow = Inr ()
     \<and> v = \<lparr>vb_number = hdr_number (blk_header (rb_block (db_block d))), vb_hash = out_computed_hash out,
        vb_parent_hash = hdr_parent_hash (blk_header (rb_block (db_block d))), vb_pre_state_root = pre,
        vb_post_state_root = out_post_state_root out, vb_rlp = db_rlp d, vb_decoded = rb_block (db_block d),
        vb_receipt_successes = out_receipt_successes out, vb_checkpoints = out_checkpoints out,
        vb_evidence = out_evidence out\<rparr>"
  by (auto simp: decoded_block_finish_def Let_def and_then_eq_Inr)

lemma check_parent_Inr:
  "check_parent b parent = Inr () \<longleftrightarrow>
     Suc (unat (anchor_number parent)) = unat (declared_number b) \<and> anchor_hash parent = claimed_parent_hash b"
proof -
  have "checked_add_word n 1 = Some m \<longleftrightarrow> Suc (unat n) = unat m" for n m :: u64
    using unat_lt_len[of m] unat_lt_len[of n]
    by (auto simp: checked_add_word_def word_unat_eq_iff unat_word_ariths)
  then show ?thesis by (auto simp: check_parent_def)
qed

section \<open>Evidence an honest backend produces\<close>

lemma observation_lessI:
  "obs_transaction_index a < obs_transaction_index b \<Longrightarrow> observation_less a b"
  "obs_transaction_index a = obs_transaction_index b \<Longrightarrow> obs_receipt_log_index a < obs_receipt_log_index b
    \<Longrightarrow> observation_less a b"
  by (simp_all add: observation_less_def)

lemma observe_log_index:
  "ob \<in> set (observe_log R i j l) \<Longrightarrow> obs_transaction_index ob = i \<and> obs_receipt_log_index ob = j"
  by (auto simp: observe_log_def split: if_splits)

lemma observe_logs_sorted:
  "sorted_wrt observation_less (concat (map (\<lambda>(j, l). observe_log R i j l) (enumerate k logs)))"
proof (induction logs arbitrary: k)
  case (Cons l logs)
  have later: "k < obs_receipt_log_index ob \<and> obs_transaction_index ob = i"
    if "ob \<in> set (concat (map (\<lambda>(j, l). observe_log R i j l) (enumerate (Suc k) logs)))" for ob
    using that observe_log_index[of ob R i] by (fastforce simp: in_set_enumerate_eq)
  have "sorted_wrt observation_less (observe_log R i k l)" by (simp add: observe_log_def)
  then show ?case
    using Cons.IH[of "Suc k"] later observe_log_index[of _ R i k l]
    by (auto simp: sorted_wrt_append simp del: set_concat intro!: observation_lessI(2))
qed simp

lemma observe_events_index:
  assumes "ob \<in> set (concat (map (\<lambda>(i, logs). concat (map (\<lambda>(j, l). observe_log R i j l) (enumerate 0 logs)))
    (enumerate k receipts)))"
  shows "k \<le> obs_transaction_index ob \<and> obs_transaction_index ob < k + length receipts"
  using assms observe_log_index[of ob R] by (fastforce simp: in_set_enumerate_eq)

lemma observe_events_sorted:
  "sorted_wrt observation_less (concat (map (\<lambda>(i, logs). concat (map (\<lambda>(j, l). observe_log R i j l)
     (enumerate 0 logs))) (enumerate k receipts)))"
proof (induction receipts arbitrary: k)
  case (Cons logs receipts)
  have first: "obs_transaction_index ob = k"
    if "ob \<in> set (concat (map (\<lambda>(j, l). observe_log R k j l) (enumerate 0 logs)))" for ob
    using that observe_log_index[of ob R k] by fastforce
  show ?case
    using Cons.IH[of "Suc k"] observe_logs_sorted[of R k 0 logs] observe_events_index[of _ R "Suc k" receipts] first
    by (auto simp: sorted_wrt_append Suc_le_eq simp del: set_concat intro!: observation_lessI(1))
qed simp

lemma pair_end_positions_sorted: "sorted_wrt (<) (pair_end_positions fs)"
  unfolding pair_end_positions_def by (intro sorted_wrt_filter) (simp add: sorted_wrt_upt)

lemma pair_end_positions_bound: "i \<in> set (pair_end_positions fs) \<Longrightarrow> i < length fs"
  by (simp add: pair_end_positions_def)

lemma plan_positions_wf:
  assumes "map cp_at cs = fst (checkpoint_plan b sys)"
  shows "wf_checkpoints (length (blk_transactions (rb_block b))) cs"
proof -
  let ?n = "length (blk_transactions (rb_block b))"
  have "sorted_wrt (<) (fst (checkpoint_plan b sys))"
    using pair_end_positions_sorted by (auto simp: checkpoint_plan_def Let_def sorted_wrt_map)
  moreover have "checkpoint_in_bounds ?n p" if "p \<in> set (fst (checkpoint_plan b sys))" for p
    using that pair_end_positions_bound by (fastforce simp: checkpoint_plan_def Let_def split: if_splits)
  moreover have "cp_at c \<in> set (fst (checkpoint_plan b sys))" if "c \<in> set cs" for c
    using that assms by (metis image_eqI set_map)
  ultimately show ?thesis using assms by (simp add: wf_checkpoints_def)
qed

lemma verify_returned_Inr: "verify_returned ps cs = Inr () \<longleftrightarrow> map cp_at cs = ps"
proof -
  have "length cs = length ps \<Longrightarrow> list_all (\<lambda>(c, p). cp_at c = p) (zip cs ps) \<longleftrightarrow> map cp_at cs = ps"
    by (induction cs ps rule: list_induct2) auto
  then show ?thesis by (auto simp: verify_returned_def)
qed

section \<open>Properties\<close>

definition example_user_tx :: ethereum_tx where
  "example_user_tx = \<lparr>eth_ty = 2, eth_to = Some 0xbb, eth_value = 0, eth_input = [1], eth_nonce = 0,
     eth_encoded = [2, 0xaa], eth_signer = Some 0xcc, eth_signer_unchecked = Some 0xcc\<rparr>"

definition example_system_tx :: system_transaction where
  "example_system_tx = \<lparr>stx_chain_id = 42, stx_nonce = 0, stx_to = EEZL2_ADDRESS, stx_value = 0, stx_input = []\<rparr>"

definition example_eth_block :: eth_block where
  "example_eth_block = \<lparr>blk_header = \<lparr>hdr_number = 6, hdr_parent_hash = 4, hdr_state_root = 1,
       hdr_beneficiary = 0xfe, hdr_extra_data = []\<rparr>,
     blk_transactions = [SystemTx example_system_tx, EthereumTx example_user_tx]\<rparr>"

definition example_reth :: reth where
  "example_reth = \<lparr>decode_block = (\<lambda>rlp. if rlp = [9] then Some example_eth_block else None),
     header_hash = (\<lambda>_. 5), homestead_active = (\<lambda>_. True), event_signature = 1,
     decode_event = (\<lambda>_. None), encode_event = (\<lambda>_. \<lparr>log_address = 0, log_topics = [], log_data = []\<rparr>)\<rparr>"

definition example_admitted :: admitted_block where
  "example_admitted = \<lparr>declared_number = 6, claimed_hash = 5, claimed_parent_hash = 4, adm_rlp = [9],
     adm_witness = \<lparr>ew_state = [], ew_codes = [], ew_keys = [], ew_headers = []\<rparr>\<rparr>"

definition example_decoded :: decoded_block where
  "example_decoded = \<lparr>db_rlp = [9], db_block = \<lparr>rb_block = example_eth_block, rb_signers = [SYSTEM_ADDRESS, 0xcc]\<rparr>\<rparr>"

definition example_output :: backend_block_output where
  "example_output = \<lparr>out_computed_hash = 5, out_receipt_successes = [True, True],
     out_checkpoints = [\<lparr>cp_at = PreExecution, cp_state_root = 1, cp_block_hash = 2\<rparr>,
       \<lparr>cp_at = Transaction 1, cp_state_root = 3, cp_block_hash = 5\<rparr>],
     out_post_state_root = 3,
     out_evidence = \<lparr>evd_system_sender_flags = [True, False], evd_outbound_events = []\<rparr>\<rparr>"

lemma example_decodes: "decode_match_and_recover_signers example_reth example_admitted = Inr example_decoded"
  by (simp add: decode_match_and_recover_signers_def decode_and_match_stream_metadata_def example_reth_def
      example_admitted_def example_decoded_def example_eth_block_def recover_block_def recover_signer_def
      example_user_tx_def)

text \<open>
  C17. A published validated block is bound to the submitted bytes and carries complete, ordered evidence.
  If an admitted block decodes and its signers recover, and the backend's output passes the shared check,
  then the block's number, hash, parent hash and bytes are exactly the submitted ones, the bytes decode to
  the block whose transactions the evidence covers one for one, every recorded event and checkpoint lies
  inside the block and both are strictly ordered; and a later submission of the same block is accepted from
  the cache exactly when its parent anchor is the block's parent with the same number, hash and state root.
\<close>

theorem validated_block_binds:
  assumes "decode_match_and_recover_signers R b = Inr d"
    and "decoded_block_finish R d out pre allow = Inr v"
  shows "vb_number v = declared_number b \<and> vb_hash v = claimed_hash b
    \<and> vb_parent_hash v = claimed_parent_hash b \<and> vb_rlp v = adm_rlp b
    \<and> decode_block R (adm_rlp b) = Some (vb_decoded v) \<and> wf_validated v
    \<and> (matches_submission v b parent = Inr () \<longleftrightarrow>
        Suc (unat (anchor_number parent)) = unat (declared_number b)
        \<and> anchor_hash parent = claimed_parent_hash b \<and> anchor_state_root parent = pre)"
proof -
  note d = decode_match_Inr[OF assms(1)]
  have m: "decode_block R (adm_rlp b) = Some (rb_block (db_block d))"
      "hdr_number (blk_header (rb_block (db_block d))) = declared_number b"
      "hdr_parent_hash (blk_header (rb_block (db_block d))) = claimed_parent_hash b"
      "header_hash R (blk_header (rb_block (db_block d))) = claimed_hash b"
    using d by (auto simp: decode_and_match_Inr)
  note f = assms(2)[unfolded finish_Inr m(4) check_backend_block_output_Inr]
  have v: "vb_number v = declared_number b" "vb_hash v = claimed_hash b" "vb_parent_hash v = claimed_parent_hash b"
      "vb_rlp v = adm_rlp b" "vb_decoded v = rb_block (db_block d)" "vb_pre_state_root v = pre"
    using f m d by simp_all
  moreover have "wf_validated v" using f by (simp add: wf_validated_def Let_def)
  moreover have "matches_submission v b parent = Inr () \<longleftrightarrow> check_parent b parent = Inr () \<and> anchor_state_root parent = pre"
    using v by (auto simp: matches_submission_def and_then_eq_Inr)
  ultimately show ?thesis using m(1) by (simp add: check_parent_Inr)
qed

theorem validated_block_binds_witness:
  "\<exists>v. decoded_block_finish example_reth example_decoded example_output 7 True = Inr v
     \<and> vb_hash v = 5 \<and> wf_validated v
     \<and> matches_submission v example_admitted \<lparr>anchor_number = 5, anchor_hash = 4, anchor_state_root = 7\<rparr> = Inr ()"
proof -
  have "\<exists>v. decoded_block_finish example_reth example_decoded example_output 7 True = Inr v"
    by (simp add: decoded_block_finish_def check_backend_block_output_def Let_def example_decoded_def
        example_output_def example_eth_block_def example_reth_def)
  then obtain v where v: "decoded_block_finish example_reth example_decoded example_output 7 True = Inr v" ..
  have n: "Suc (unat (5 :: u64)) = unat (6 :: u64)" by simp
  show ?thesis
    using validated_block_binds[OF example_decodes v, of "\<lparr>anchor_number = 5, anchor_hash = 4, anchor_state_root = 7\<rparr>"] v n
    by (intro exI[of _ v] conjI) (simp_all add: example_admitted_def)
qed



end
