(* ===== verification/Block_Inspection.thy ===== *)
theory Block_Inspection
  imports Validated_Block
begin

text \<open>
  Inspection of re-executed blocks: inbound deliveries
  (\<^verbatim>\<open>crates/eez-proof-signer/src/settlement/inbound.rs\<close>, first half) and the settling and
  intermediate blocks (\<^verbatim>\<open>settlement/blocks.rs\<close>). The lemmas show that an inbound delivery passes
  exactly when it is the canonical system transaction the block builder would have made, and what the
  observations of an inspected block contain.
\<close>

section \<open>Inbound deliveries\<close>

record inbound_observation =
  recomputed_call_hash :: b256
  io_value :: u256
  io_return_data :: bytes
  derived_da_entry :: inbound_sidecar

datatype inbound_observation_error =
    RevertedTransaction
  | InvalidAbi
  | NonCanonicalAbi
  | NativeValueMismatch u256 u256
  | SourceRollup u64
  | EntryCount nat
  | StaticEntryCount nat
  | InvalidEntryShape string
  | CallHashMismatch b256 b256
  | ZeroCallHash

record inbound_candidate =
  cand_transaction_index :: nat
  cand_inspection :: "inbound_observation_error + inbound_observation"

definition inspect_inbound_candidate ::
    "alloy \<Rightarrow> u256 \<Rightarrow> bytes \<Rightarrow> bool \<Rightarrow> u64 \<Rightarrow> inbound_observation_error + inbound_observation" where
  "inspect_inbound_candidate A transaction_value calldata transaction_succeeded expected_rollup_id =
     (if \<not> transaction_succeeded then Inl RevertedTransaction
      else case decode_incoming_call A calldata of
        None \<Rightarrow> Inl InvalidAbi
      | Some (es, statics) \<Rightarrow>
        if encode_incoming_call A (es, statics) \<noteq> calldata then Inl NonCanonicalAbi
        else if length es \<noteq> 1 then Inl (EntryCount (length es))
        else if statics \<noteq> [] then Inl (StaticEntryCount (length statics))
        else let entry = hd es in
          if length (incomingCalls entry) \<noteq> 1 then Inl (InvalidEntryShape ''incomingCalls'')
          else let inner = hd (incomingCalls entry) in
            if transaction_value \<noteq> call_value inner
            then Inl (NativeValueMismatch (call_value inner) transaction_value)
            else if sourceRollupId inner \<noteq> MAINNET then Inl (SourceRollup (sourceRollupId inner))
            else if \<not> l2_success entry then Inl (InvalidEntryShape ''success'')
            else if expectedOutgoingCalls entry \<noteq> [] then Inl (InvalidEntryShape ''expectedOutgoingCalls'')
            else if revertNextNCalls inner \<noteq> 0 then Inl (InvalidEntryShape ''revertNextNCalls'')
            else if isStatic inner then Inl (InvalidEntryShape ''isStatic'')
            else if call_gas inner \<noteq> 0 then Inl (InvalidEntryShape ''gas'')
            else let recomputed = common_cross_chain_call_hash A
                \<lparr>chi_call_mode = Mutable, chi_source_address = sourceAddress inner,
                 chi_source_rollup_id = MAINNET, chi_target_address = targetAddress inner,
                 chi_target_rollup_id = expected_rollup_id, chi_value = call_value inner,
                 chi_data = call_data inner\<rparr> in
              if recomputed = 0 then Inl ZeroCallHash
              else if l2_proxyEntryHash entry \<noteq> recomputed
              then Inl (CallHashMismatch recomputed (l2_proxyEntryHash entry))
              else let rh = call_end A (l2_success entry) (l2_returnData entry)
                  (call_begin A (l2_proxyEntryHash entry) (seed_for_l2 A (l2_proxyEntryHash entry))) in
                if l2_rollingHash entry \<noteq> current rh then Inl (InvalidEntryShape ''rollingHash'')
                else and_then (map_err (\<lambda>_. InvalidEntryShape ''sidecar'') (inbound_sidecar_new A
                  \<lparr>inc_target = targetAddress inner, inc_source = sourceAddress inner,
                   inc_value = call_value inner, inc_data = call_data inner,
                   inc_source_rollup_id = sourceRollupId inner, inc_l2_rollup_id = expected_rollup_id,
                   inc_return_data = l2_returnData entry, inc_success = l2_success entry\<rparr>)) (\<lambda>sidecar.
                Inr \<lparr>recomputed_call_hash = recomputed, io_value = call_value inner,
                  io_return_data = l2_returnData entry, derived_da_entry = sidecar\<rparr>))"

section \<open>Settling and intermediate blocks\<close>

record settling_block_observations =
  obs_system_sender_flags :: "bool list"
  obs_inbound_candidates :: "inbound_candidate list"
  obs_outbound_event_candidates :: "outbound_event_observation list"

definition effect_candidate_positions :: "settling_block_observations \<Rightarrow> nat list" where
  "effect_candidate_positions ob = pair_end_positions (obs_system_sender_flags ob)"

datatype block_inspection_error =
    IntermediateSystemTransaction u64 nat
  | IntermediateOutboundEvent u64 nat
  | RevertedSystemTransaction nat
  | ReservedSystemSender nat

definition starts_with :: "bytes \<Rightarrow> bytes \<Rightarrow> bool" where
  "starts_with bs p \<longleftrightarrow> take (length p) bs = p"

fun inspect_transactions ::
    "alloy \<Rightarrow> u64 \<Rightarrow> nat \<Rightarrow> ((eez_tx \<times> bool) \<times> bool) list \<Rightarrow> inbound_candidate list
     \<Rightarrow> block_inspection_error + inbound_candidate list" where
  "inspect_transactions A rollup i [] candidates = Inr candidates"
| "inspect_transactions A rollup i (((tx, is_system_sender), succeeded) # rest) candidates =
     (if is_system_sender \<and> (\<not> is_system_tx tx \<or> tx_to tx \<noteq> Some EEZL2_ADDRESS) then Inl (ReservedSystemSender i)
      else let is_inbound_candidate = (is_system_sender \<and> starts_with (tx_input tx) (execute_incoming_selector A));
               candidates' = (if is_inbound_candidate
                 then candidates @ [\<lparr>cand_transaction_index = i,
                   cand_inspection = inspect_inbound_candidate A (tx_value tx) (tx_input tx) succeeded rollup\<rparr>]
                 else candidates) in
        if is_system_sender \<and> \<not> succeeded \<and> \<not> is_inbound_candidate then Inl (RevertedSystemTransaction i)
        else inspect_transactions A rollup (Suc i) rest candidates')"

definition inspect_decoded_settling_block ::
    "alloy \<Rightarrow> eth_block \<Rightarrow> settlement_block_evidence \<Rightarrow> bool list \<Rightarrow> u64
     \<Rightarrow> block_inspection_error + settling_block_observations" where
  "inspect_decoded_settling_block A block evidence receipts rollup =
     and_then (inspect_transactions A rollup 0
       (zip (zip (blk_transactions block) (evd_system_sender_flags evidence)) receipts) []) (\<lambda>candidates.
     Inr \<lparr>obs_system_sender_flags = evd_system_sender_flags evidence, obs_inbound_candidates = candidates,
       obs_outbound_event_candidates = evd_outbound_events evidence\<rparr>)"

definition inspect_validated_settling_block ::
    "alloy \<Rightarrow> validated_block \<Rightarrow> u64 \<Rightarrow> block_inspection_error + settling_block_observations" where
  "inspect_validated_settling_block A v rollup =
     inspect_decoded_settling_block A (vb_decoded v) (vb_evidence v) (vb_receipt_successes v) rollup"

definition transaction_hash_at :: "alloy \<Rightarrow> validated_block \<Rightarrow> nat \<Rightarrow> b256 option" where
  "transaction_hash_at A v i = (let txs = blk_transactions (vb_decoded v) in
     if i < length txs then Some (recalculate_hash A (txs ! i)) else None)"

definition get :: "'a list \<Rightarrow> nat \<Rightarrow> 'a option" where
  "get xs i = (if i < length xs then Some (xs ! i) else None)"

definition paired_outbound_transaction :: "alloy \<Rightarrow> validated_block \<Rightarrow> nat \<Rightarrow> (nat \<times> b256) option" where
  "paired_outbound_transaction A v load_index =
     (let user_index = load_index + 1;
          flags = evd_system_sender_flags (vb_evidence v);
          txs = blk_transactions (vb_decoded v) in
      if get flags load_index \<noteq> Some True \<or> get flags user_index \<noteq> Some False then None
      else case get txs load_index of
        None \<Rightarrow> None
      | Some load \<Rightarrow>
        (case decode_load_table A (tx_input load) of
           None \<Rightarrow> None
         | Some (es, statics) \<Rightarrow>
           if encode_load_table A (es, statics) \<noteq> tx_input load \<or> length es \<noteq> 1 \<or> statics \<noteq> [] \<or> tx_value load \<noteq> 0
           then None
           else map_option (\<lambda>user. (user_index, recalculate_hash A user)) (get txs user_index)))"

fun first_privileged :: "nat \<Rightarrow> (eez_tx \<times> bool) list \<Rightarrow> nat option" where
  "first_privileged i [] = None"
| "first_privileged i ((tx, is_system_sender) # rest) =
     (if tx_ty tx = SYSTEM_TX_TYPE \<or> is_system_sender then Some i else first_privileged (Suc i) rest)"

definition verify_decoded_intermediate_block ::
    "u64 \<Rightarrow> eth_block \<Rightarrow> bool list \<Rightarrow> block_inspection_error + unit" where
  "verify_decoded_intermediate_block number block flags =
     (case first_privileged 0 (zip (blk_transactions block) flags) of
        Some i \<Rightarrow> Inl (IntermediateSystemTransaction number i)
      | None \<Rightarrow> Inr ())"

fun verify_validated_intermediate_blocks :: "validated_block list \<Rightarrow> block_inspection_error + unit" where
  "verify_validated_intermediate_blocks [] = Inr ()"
| "verify_validated_intermediate_blocks (v # vs) =
     and_then (verify_decoded_intermediate_block (vb_number v) (vb_decoded v)
       (evd_system_sender_flags (vb_evidence v))) (\<lambda>_.
     case evd_outbound_events (vb_evidence v) of
       ob # _ \<Rightarrow> Inl (IntermediateOutboundEvent (vb_number v) (obs_transaction_index ob))
     | [] \<Rightarrow> verify_validated_intermediate_blocks vs)"

section \<open>Canonical deliveries\<close>

text \<open>A delivery from L1 to the rollup, as the block builder states it.\<close>

definition l1_delivery :: "alloy \<Rightarrow> u64 \<Rightarrow> incoming_entry \<Rightarrow> bool" where
  "l1_delivery A rollup i \<longleftrightarrow> inc_source_rollup_id i = MAINNET \<and> inc_l2_rollup_id i = rollup \<and> inc_success i
     \<and> rollup \<noteq> 0 \<and> incoming_call_hash A i \<noteq> 0"

definition observed :: "alloy \<Rightarrow> incoming_entry \<Rightarrow> inbound_observation" where
  "observed A i = \<lparr>recomputed_call_hash = incoming_call_hash A i, io_value = inc_value i,
     io_return_data = inc_return_data i, derived_da_entry = InboundSidecar (sidecar_entry A i)\<rparr>"

lemma inspect_inbound_sound:
  assumes "inspect_inbound_candidate A v calldata ok rollup = Inr ob"
  obtains i where "l1_delivery A rollup i" "(calldata, v) = deliver_payload A i" "ob = observed A i" "ok"
proof -
  note simps = inspect_inbound_candidate_def Let_def if_Inl_eq_Inr
  have ok: ok using assms by (simp add: simps)
  obtain es statics where d: "decode_incoming_call A calldata = Some (es, statics)"
    using assms by (cases "decode_incoming_call A calldata") (auto simp: simps)
  have one: "length es = 1" "statics = []" "encode_incoming_call A (es, statics) = calldata"
    using assms unfolding inspect_inbound_candidate_def d option.case prod.case if_Inl_eq_Inr Let_def by blast+
  then obtain entry where es: "es = [entry]" by (cases es) auto
  have "length (incomingCalls entry) = 1" using assms by (simp add: simps d es)
  then obtain inner where inner: "incomingCalls entry = [inner]" by (cases "incomingCalls entry") auto
  define i where "i = \<lparr>inc_target = targetAddress inner, inc_source = sourceAddress inner,
     inc_value = call_value inner, inc_data = call_data inner, inc_source_rollup_id = sourceRollupId inner,
     inc_l2_rollup_id = rollup, inc_return_data = l2_returnData entry, inc_success = l2_success entry\<rparr>"
  let ?h = "common_cross_chain_call_hash A \<lparr>chi_call_mode = Mutable, chi_source_address = sourceAddress inner,
      chi_source_rollup_id = MAINNET, chi_target_address = targetAddress inner, chi_target_rollup_id = rollup,
      chi_value = call_value inner, chi_data = call_data inner\<rparr>"
  note facts = assms[unfolded inspect_inbound_candidate_def d option.case prod.case es one(2) list.sel inner
    Let_def if_Inl_eq_Inr not_not, folded i_def]
  have raw: "v = call_value inner" "sourceRollupId inner = MAINNET" "l2_success entry" "expectedOutgoingCalls entry = []"
      "revertNextNCalls inner = 0" "\<not> isStatic inner" "call_gas inner = 0" "?h \<noteq> 0" "l2_proxyEntryHash entry = ?h"
      "l2_rollingHash entry = current (call_end A (l2_success entry) (l2_returnData entry)
        (call_begin A (l2_proxyEntryHash entry) (seed_for_l2 A (l2_proxyEntryHash entry))))"
      "and_then (map_err (\<lambda>_. InvalidEntryShape ''sidecar'') (inbound_sidecar_new A i)) (\<lambda>sidecar.
        Inr \<lparr>recomputed_call_hash = ?h, io_value = call_value inner, io_return_data = l2_returnData entry,
          derived_da_entry = sidecar\<rparr>) = Inr ob"
    using facts by - (elim conjE, assumption)+
  have h: "?h = incoming_call_hash A i" by (simp add: incoming_call_hash_def i_def raw(2))
  note eqs = raw(1-10)[unfolded h]
  have fin: "deliverable i" "ob = observed A i"
    using raw(11) unfolding h by (auto simp: and_then_eq_Inr inbound_sidecar_new_Inr observed_def i_def)
  have entry: "entry = deliver_entry A i"
    using eqs(4-7,9,10) inner
    by (intro l2_execution_entry.equality) (simp_all add: deliver_entry_def eqs(3), simp_all add: i_def)
  have iv: "inc_value i = call_value inner" by (simp add: i_def)
  have "l1_delivery A rollup i"
    using eqs(2,3,8) fin(1) by (simp add: l1_delivery_def deliverable_def) (simp add: i_def)
  moreover have "(calldata, v) = deliver_payload A i"
    using one(3) iv eqs(1) unfolding one(2) es entry[symmetric] deliver_payload_def by simp
  ultimately show thesis using that fin(2) ok by blast
qed

lemma inspect_inbound_complete:
  assumes "l1_delivery A rollup i"
    and "decode_incoming_call A (fst (deliver_payload A i)) = Some ([deliver_entry A i], [])"
  shows "inspect_inbound_candidate A (snd (deliver_payload A i)) (fst (deliver_payload A i)) True rollup = Inr (observed A i)"
proof -
  have h: "common_cross_chain_call_hash A \<lparr>chi_call_mode = Mutable, chi_source_address = inc_source i,
      chi_source_rollup_id = MAINNET, chi_target_address = inc_target i, chi_target_rollup_id = rollup,
      chi_value = inc_value i, chi_data = inc_data i\<rparr> = incoming_call_hash A i"
    using assms(1) by (simp add: incoming_call_hash_def l1_delivery_def)
  have i: "\<lparr>inc_target = inc_target i, inc_source = inc_source i, inc_value = inc_value i, inc_data = inc_data i,
      inc_source_rollup_id = inc_source_rollup_id i, inc_l2_rollup_id = rollup, inc_return_data = inc_return_data i,
      inc_success = True\<rparr> = (i :: incoming_entry)"
    using assms(1) by (intro incoming_entry.equality) (auto simp: l1_delivery_def)
  have n: "inbound_sidecar_new A i = Inr (InboundSidecar (sidecar_entry A i))"
    using assms(1) by (auto simp: inbound_sidecar_new_Inr l1_delivery_def deliverable_def MAINNET_def)
  have s: "inc_source_rollup_id i = MAINNET" "incoming_call_hash A i \<noteq> 0" using assms(1) by (auto simp: l1_delivery_def)
  show ?thesis
    using assms(2) s h i n
    by (simp add: inspect_inbound_candidate_def deliver_payload_def deliver_entry_def Let_def observed_def)
qed

section \<open>Inspected blocks\<close>

definition is_candidate :: "alloy \<Rightarrow> (eez_tx \<times> bool) \<times> bool \<Rightarrow> bool" where
  "is_candidate A = (\<lambda>((tx, sys), ok). sys \<and> starts_with (tx_input tx) (execute_incoming_selector A))"

definition sender_ok :: "alloy \<Rightarrow> (eez_tx \<times> bool) \<times> bool \<Rightarrow> bool" where
  "sender_ok A = (\<lambda>((tx, sys), ok). sys \<longrightarrow> is_system_tx tx \<and> tx_to tx = Some EEZL2_ADDRESS
     \<and> (ok \<or> starts_with (tx_input tx) (execute_incoming_selector A)))"

fun candidates_from :: "alloy \<Rightarrow> u64 \<Rightarrow> nat \<Rightarrow> ((eez_tx \<times> bool) \<times> bool) list \<Rightarrow> inbound_candidate list" where
  "candidates_from A rollup i [] = []"
| "candidates_from A rollup i (((tx, sys), ok) # rest) =
     (if is_candidate A ((tx, sys), ok)
      then [\<lparr>cand_transaction_index = i, cand_inspection = inspect_inbound_candidate A (tx_value tx) (tx_input tx) ok rollup\<rparr>]
      else []) @ candidates_from A rollup (Suc i) rest"

lemma inspect_transactions_Inr:
  "inspect_transactions A rollup i txs cs = Inr cs' \<longleftrightarrow>
     list_all (sender_ok A) txs \<and> cs' = cs @ candidates_from A rollup i txs"
  by (induction A rollup i txs cs rule: inspect_transactions.induct)
    (auto simp: sender_ok_def is_candidate_def Let_def)

definition block_rows :: "validated_block \<Rightarrow> ((eez_tx \<times> bool) \<times> bool) list" where
  "block_rows v = zip (zip (blk_transactions (vb_decoded v)) (evd_system_sender_flags (vb_evidence v))) (vb_receipt_successes v)"

lemma inspect_settling_Inr:
  "inspect_validated_settling_block A v rollup = Inr obs \<longleftrightarrow> list_all (sender_ok A) (block_rows v)
     \<and> obs = \<lparr>obs_system_sender_flags = evd_system_sender_flags (vb_evidence v),
        obs_inbound_candidates = candidates_from A rollup 0 (block_rows v),
        obs_outbound_event_candidates = evd_outbound_events (vb_evidence v)\<rparr>"
  by (auto simp: inspect_validated_settling_block_def inspect_decoded_settling_block_def and_then_eq_Inr
      inspect_transactions_Inr block_rows_def)

lemma candidates_from_nth:
  "c \<in> set (candidates_from A rollup i txs) \<longleftrightarrow>
     (\<exists>k < length txs. is_candidate A (txs ! k) \<and> c = \<lparr>cand_transaction_index = i + k,
        cand_inspection = inspect_inbound_candidate A (tx_value (fst (fst (txs ! k)))) (tx_input (fst (fst (txs ! k))))
          (snd (txs ! k)) rollup\<rparr>)"
proof (induction A rollup i txs rule: candidates_from.induct)
  case (2 A rollup i tx sys ok rest)
  show ?case
    by (auto simp: 2 less_Suc_eq_0_disj)
qed simp

lemma candidates_sorted: "sorted_wrt (<) (map cand_transaction_index (candidates_from A rollup i txs))"
proof (induction A rollup i txs rule: candidates_from.induct)
  case (2 A rollup i tx sys ok rest)
  have "i < j" if "j \<in> set (map cand_transaction_index (candidates_from A rollup (Suc i) rest))" for j
    using that by (auto simp: candidates_from_nth)
  then show ?case using 2 by auto
qed simp

lemma first_privileged_None:
  "first_privileged i rows = None \<longleftrightarrow> list_all (\<lambda>(tx, sys). tx_ty tx \<noteq> SYSTEM_TX_TYPE \<and> \<not> sys) rows"
  by (induction i rows rule: first_privileged.induct) auto

lemma verify_intermediate_Inr:
  "verify_validated_intermediate_blocks vs = Inr () \<longleftrightarrow>
     (\<forall>v \<in> set vs. evd_outbound_events (vb_evidence v) = []
       \<and> list_all (\<lambda>(tx, sys). tx_ty tx \<noteq> SYSTEM_TX_TYPE \<and> \<not> sys)
           (zip (blk_transactions (vb_decoded v)) (evd_system_sender_flags (vb_evidence v))))"
  by (induction vs rule: verify_validated_intermediate_blocks.induct)
    (auto simp: and_then_eq_Inr verify_decoded_intermediate_block_def first_privileged_None[of 0, symmetric]
      split: option.splits list.splits)

section \<open>Properties\<close>

text \<open>
  C14. The signer accepts an inbound delivery exactly when it is canonical. A successful delivery
  transaction built for any call from L1 to this rollup passes the inspection and yields the call's hash,
  value, return data and canonical sidecar; and conversely whatever passes is the system transaction the
  block builder would have produced for some call from L1 to this rollup, carrying exactly that call's
  value. The ABI decoder is assumed to read back the delivered entry.
\<close>

theorem inbound_delivery_exact:
  assumes "l1_delivery A rollup i"
    and "decode_incoming_call A (fst (deliver_payload A i)) = Some ([deliver_entry A i], [])"
  shows "inspect_inbound_candidate A (snd (deliver_payload A i)) (fst (deliver_payload A i)) True rollup = Inr (observed A i)
    \<and> (\<forall>v calldata ok ob. inspect_inbound_candidate A v calldata ok rollup = Inr ob \<longrightarrow>
         ok \<and> (\<exists>j. l1_delivery A rollup j \<and> (calldata, v) = deliver_payload A j \<and> ob = observed A j))"
  using inspect_inbound_complete[OF assms] by (blast elim: inspect_inbound_sound)

definition delivery_alloy :: "incoming_entry \<Rightarrow> alloy" where
  "delivery_alloy i = example_alloy\<lparr>encode_incoming_call := (\<lambda>_. [1, 2, 3, 4]),
     decode_incoming_call := (\<lambda>bs. if bs = [1, 2, 3, 4] then Some ([deliver_entry example_alloy i], []) else None)\<rparr>"

lemma deliver_entry_delivery_alloy: "deliver_entry (delivery_alloy i) j = deliver_entry example_alloy j"
  by (simp add: delivery_alloy_def deliver_entry_def incoming_call_hash_def common_cross_chain_call_hash_def
      cross_chain_call_hash_def call_end_def call_begin_def seed_for_l2_def hash_parts_def current_def)

definition l1_incoming :: incoming_entry where
  "l1_incoming = \<lparr>inc_target = 0xaa, inc_source = 0xbb, inc_value = 5, inc_data = [1, 2], inc_source_rollup_id = 0,
     inc_l2_rollup_id = 1, inc_return_data = [7], inc_success = True\<rparr>"

lemma incoming_hash_nonzero: "incoming_call_hash (delivery_alloy i) l1_incoming \<noteq> 0"
proof -
  have "incoming_call_hash (delivery_alloy i) l1_incoming = incoming_call_hash example_alloy l1_incoming"
    by (simp add: delivery_alloy_def incoming_call_hash_def common_cross_chain_call_hash_def cross_chain_call_hash_def)
  moreover have "collision_free example_alloy {encode_call_params example_alloy (call_hash_params
      \<lparr>chi_call_mode = Mutable, chi_source_address = 0xbb, chi_source_rollup_id = 0, chi_target_address = 0xaa,
       chi_target_rollup_id = 1, chi_value = 5, chi_data = [1, 2]\<rparr> 0)}"
    by (rule example_alloy_lengths) (simp_all add: example_alloy_def call_hash_params_def)
  ultimately show ?thesis
    by (auto simp: collision_free_def incoming_call_hash_def common_cross_chain_call_hash_def
        cross_chain_call_hash_def l1_incoming_def)
qed

theorem inbound_delivery_exact_witness:
  "inspect_inbound_candidate (delivery_alloy l1_incoming) 5 [1, 2, 3, 4] True 1
     = Inr (observed (delivery_alloy l1_incoming) l1_incoming)"
proof -
  have d: "l1_delivery (delivery_alloy l1_incoming) 1 l1_incoming"
    using incoming_hash_nonzero by (simp add: l1_delivery_def) (simp add: l1_incoming_def MAINNET_def)
  have p: "deliver_payload (delivery_alloy l1_incoming) l1_incoming = ([1, 2, 3, 4], 5)"
    by (simp add: deliver_payload_def delivery_alloy_def) (simp add: l1_incoming_def)
  have c: "decode_incoming_call (delivery_alloy l1_incoming) (fst (deliver_payload (delivery_alloy l1_incoming) l1_incoming))
      = Some ([deliver_entry (delivery_alloy l1_incoming) l1_incoming], [])"
    unfolding deliver_entry_delivery_alloy p by (simp add: delivery_alloy_def)
  show ?thesis using inbound_delivery_exact[OF d c] unfolding p by simp
qed

end
