(* ===== verification/Effect_Binding.thy ===== *)
theory Effect_Binding
  imports State_Chain Block_Inspection
begin

text \<open>
  Binding of the claimed effects to the re-executed settling block
  (\<^verbatim>\<open>crates/eez-proof-signer/src/settlement/effect_binding.rs\<close>). The lemmas show that the gate
  accepts exactly the batches that consist of one anchor followed by one entry per effect of the block,
  in block order, each committing to the candidate block sealed at its position.
\<close>

datatype claimed_entry_shape = ShapeAnchor | ShapeOutbound | ShapeInbound | ShapeInvalid

datatype observed_effect_kind = ObservedOutbound | ObservedInbound

datatype effect_kind = OutboundEffect | InboundEffect

fun claimed_shape :: "effect_kind \<Rightarrow> claimed_entry_shape" where
  "claimed_shape OutboundEffect = ShapeOutbound"
| "claimed_shape InboundEffect = ShapeInbound"

record bound_effect =
  be_entry_index :: nat
  be_transaction_index :: nat
  be_kind :: effect_kind
  be_entry :: execution_entry
  be_update :: rollup_update

record bound_effect_sequence =
  bes_effects :: "bound_effect list"
  bes_observations :: settling_block_observations

definition effect_count :: "effect_kind \<Rightarrow> bound_effect_sequence \<Rightarrow> nat" where
  "effect_count kind s = length (filter (\<lambda>e. be_kind e = kind) (bes_effects s))"

datatype effect_prefix_error =
    LeadingEntryNotAnchor claimed_entry_shape
  | LaterAnchor nat
  | InvalidEntry nat
  | EffectCountMismatch nat nat
  | AnchorRootMismatch b256 b256
  | AnchorCheckpointPositionMismatch checkpoint_at
  | CheckpointCountMismatch nat nat
  | CheckpointIndexMismatch nat nat checkpoint_at
  | EffectKindMismatch nat nat claimed_entry_shape observed_effect_kind
  | EffectCandidateMismatch nat nat b256 b256
  | NonZeroAnchorEtherDelta "192 word"

definition classify_claimed_entry :: "alloy \<Rightarrow> execution_entry \<Rightarrow> rollup_update \<Rightarrow> u64 \<Rightarrow> claimed_entry_shape" where
  "classify_claimed_entry A entry update settled_rollup =
     (if \<not> entry_success entry \<or> expectedL1ToL2Calls entry \<noteq> [] then ShapeInvalid
      else if proxyEntryHash entry \<noteq> 0 then (if l2ToL1Calls entry = [] then ShapeInbound else ShapeInvalid)
      else if l2ToL1Calls entry \<noteq> [] then
        (if length (l2ToL1Calls entry) = 1 \<and> revertNextNCalls (l2ToL1Calls entry ! 0) = 0
            \<and> \<not> isStatic (l2ToL1Calls entry ! 0) \<and> call_gas (l2ToL1Calls entry ! 0) = 0
         then ShapeOutbound else ShapeInvalid)
      else let expected_anchor_hash = current (seed_for_l1 A [(ru_rollupId update, ru_currentRoot update)] 0) in
        if destinationRollupId entry = settled_rollup \<and> returnData entry = []
           \<and> rollingHash entry = expected_anchor_hash
        then ShapeAnchor else ShapeInvalid)"

fun claim_effects ::
    "alloy \<Rightarrow> u64 \<Rightarrow> nat \<Rightarrow> verified_update_entry list \<Rightarrow> effect_prefix_error + (nat \<times> effect_kind \<times> verified_update_entry) list" where
  "claim_effects A rollup i [] = Inr []"
| "claim_effects A rollup i (u # us) =
     (case classify_claimed_entry A (vu_entry u) (vu_update u) rollup of
        ShapeAnchor \<Rightarrow> Inl (LaterAnchor i)
      | ShapeInvalid \<Rightarrow> Inl (InvalidEntry i)
      | ShapeOutbound \<Rightarrow> and_then (claim_effects A rollup (Suc i) us) (\<lambda>cs. Inr ((i, OutboundEffect, u) # cs))
      | ShapeInbound \<Rightarrow> and_then (claim_effects A rollup (Suc i) us) (\<lambda>cs. Inr ((i, InboundEffect, u) # cs)))"

fun bind_loop ::
    "settling_block_observations \<Rightarrow> nat list \<Rightarrow> state_checkpoint list \<Rightarrow> nat
     \<Rightarrow> (nat \<times> effect_kind \<times> verified_update_entry) list \<Rightarrow> effect_prefix_error + bound_effect list" where
  "bind_loop obs positions checkpoints k [] = Inr []"
| "bind_loop obs positions checkpoints k ((entry_index, kind, u) # cs) =
     (let transaction_index = positions ! k;
          checkpoint = checkpoints ! k;
          observed = (if obs_system_sender_flags obs ! transaction_index then ObservedInbound else ObservedOutbound);
          observed_kind = (case observed of ObservedOutbound \<Rightarrow> OutboundEffect | ObservedInbound \<Rightarrow> InboundEffect) in
      if kind \<noteq> observed_kind
      then Inl (EffectKindMismatch entry_index transaction_index (claimed_shape kind) observed)
      else if cp_at checkpoint \<noteq> Transaction transaction_index
      then Inl (CheckpointIndexMismatch k transaction_index (cp_at checkpoint))
      else if ru_newRoot (vu_update u) \<noteq> cp_block_hash checkpoint
      then Inl (EffectCandidateMismatch entry_index transaction_index (cp_block_hash checkpoint) (ru_newRoot (vu_update u)))
      else and_then (bind_loop obs positions checkpoints (Suc k) cs) (\<lambda>bs.
        Inr (\<lparr>be_entry_index = entry_index, be_transaction_index = transaction_index, be_kind = kind,
              be_entry = vu_entry u, be_update = vu_update u\<rparr> # bs)))"

definition bind_effects_to_execution ::
    "alloy \<Rightarrow> verified_update_chain \<Rightarrow> state_checkpoint list \<Rightarrow> settling_block_observations
     \<Rightarrow> effect_prefix_error + bound_effect_sequence" where
  "bind_effects_to_execution A verified checkpoints obs =
     (let leading = chain_leading verified;
          anchor_update = vu_update leading;
          rollup = chain_rollup verified;
          leading_kind = classify_claimed_entry A (vu_entry leading) anchor_update rollup in
      if leading_kind \<noteq> ShapeAnchor then Inl (LeadingEntryNotAnchor leading_kind)
      else and_then (claim_effects A rollup 1 (chain_trailing verified)) (\<lambda>claimed_effects.
        let positions = effect_candidate_positions obs;
            claimed = length claimed_effects;
            observed = length positions in
        if claimed \<noteq> observed then Inl (EffectCountMismatch claimed observed)
        else if ru_etherDelta anchor_update \<noteq> 0 then Inl (NonZeroAnchorEtherDelta (ru_etherDelta anchor_update))
        else case checkpoints of
          [] \<Rightarrow> Inl (CheckpointCountMismatch (observed + 1) 0)
        | anchor_checkpoint # effect_checkpoints \<Rightarrow>
          if length effect_checkpoints \<noteq> observed
          then Inl (CheckpointCountMismatch (observed + 1) (length checkpoints))
          else if cp_at anchor_checkpoint \<noteq> PreExecution
          then Inl (AnchorCheckpointPositionMismatch (cp_at anchor_checkpoint))
          else if ru_newRoot anchor_update \<noteq> cp_block_hash anchor_checkpoint
          then Inl (AnchorRootMismatch (cp_block_hash anchor_checkpoint) (ru_newRoot anchor_update))
          else and_then (bind_loop obs positions effect_checkpoints 0 claimed_effects) (\<lambda>bound.
            Inr \<lparr>bes_effects = bound, bes_observations = obs\<rparr>)))"

section \<open>Entry shapes\<close>

definition anchor_entry :: "alloy \<Rightarrow> u64 \<Rightarrow> execution_entry \<Rightarrow> rollup_update \<Rightarrow> bool" where
  "anchor_entry A rollup e u \<longleftrightarrow> entry_success e \<and> expectedL1ToL2Calls e = [] \<and> proxyEntryHash e = 0
     \<and> l2ToL1Calls e = [] \<and> destinationRollupId e = rollup \<and> returnData e = []
     \<and> rollingHash e = current (seed_for_l1 A [(ru_rollupId u, ru_currentRoot u)] 0)"

definition inbound_shape :: "execution_entry \<Rightarrow> bool" where
  "inbound_shape e \<longleftrightarrow> entry_success e \<and> expectedL1ToL2Calls e = [] \<and> proxyEntryHash e \<noteq> 0 \<and> l2ToL1Calls e = []"

definition outbound_effect_shape :: "execution_entry \<Rightarrow> bool" where
  "outbound_effect_shape e \<longleftrightarrow> entry_success e \<and> expectedL1ToL2Calls e = [] \<and> proxyEntryHash e = 0
     \<and> (\<exists>call. l2ToL1Calls e = [call] \<and> plain_call call)"

lemma classify_anchor: "classify_claimed_entry A e u r = ShapeAnchor \<longleftrightarrow> anchor_entry A r e u"
  by (auto simp: classify_claimed_entry_def anchor_entry_def Let_def)

lemma classify_inbound: "classify_claimed_entry A e u r = ShapeInbound \<longleftrightarrow> inbound_shape e"
  by (auto simp: classify_claimed_entry_def inbound_shape_def Let_def)

lemma classify_outbound: "classify_claimed_entry A e u r = ShapeOutbound \<longleftrightarrow> outbound_effect_shape e"
proof -
  have "(length cs = 1 \<and> revertNextNCalls (cs ! 0) = 0 \<and> \<not> isStatic (cs ! 0) \<and> call_gas (cs ! 0) = 0)
      \<longleftrightarrow> (\<exists>call. cs = [call] \<and> plain_call call)" for cs :: "l2_to_l1_call list"
    by (cases cs; cases "tl cs") (auto simp: plain_call_def)
  then show ?thesis by (auto simp: classify_claimed_entry_def outbound_effect_shape_def Let_def)
qed

definition entry_kind :: "execution_entry \<Rightarrow> effect_kind" where
  "entry_kind e = (if inbound_shape e then InboundEffect else OutboundEffect)"

definition effect_entry :: "execution_entry \<Rightarrow> bool" where
  "effect_entry e \<longleftrightarrow> inbound_shape e \<or> outbound_effect_shape e"

lemma claim_effects_Inr:
  "claim_effects A r i us = Inr cs \<longleftrightarrow> list_all (\<lambda>u. effect_entry (vu_entry u)) us
     \<and> cs = map (\<lambda>(k, u). (k, entry_kind (vu_entry u), u)) (enumerate i us)"
proof (induction us arbitrary: i cs)
  case (Cons u us)
  note shapes = classify_outbound[where A = A and e = "vu_entry u" and u = "vu_update u" and r = r]
    classify_inbound[where A = A and e = "vu_entry u" and u = "vu_update u" and r = r]
  show ?case
    using shapes
    by (cases "classify_claimed_entry A (vu_entry u) (vu_update u) r")
      (auto simp: and_then_eq_Inr Cons.IH effect_entry_def entry_kind_def)
qed auto

section \<open>Exactness\<close>

definition observed_kind_at :: "settling_block_observations \<Rightarrow> nat \<Rightarrow> effect_kind" where
  "observed_kind_at obs i = (if obs_system_sender_flags obs ! i then InboundEffect else OutboundEffect)"

definition bound_row :: "settling_block_observations \<Rightarrow> verified_update_entry \<Rightarrow> nat \<Rightarrow> state_checkpoint \<Rightarrow> bool" where
  "bound_row obs u position checkpoint \<longleftrightarrow> entry_kind (vu_entry u) = observed_kind_at obs position
     \<and> cp_at checkpoint = Transaction position \<and> ru_newRoot (vu_update u) = cp_block_hash checkpoint"

definition bound_at :: "verified_update_entry \<Rightarrow> nat \<Rightarrow> nat \<Rightarrow> bound_effect" where
  "bound_at u entry_index position = \<lparr>be_entry_index = entry_index, be_transaction_index = position,
     be_kind = entry_kind (vu_entry u), be_entry = vu_entry u, be_update = vu_update u\<rparr>"

lemma bind_loop_Inr:
  "k + length us \<le> length ps \<Longrightarrow> k + length us \<le> length cps \<Longrightarrow>
   bind_loop obs ps cps k (map (\<lambda>(i, u). (i, entry_kind (vu_entry u), u)) (enumerate n us)) = Inr bs \<longleftrightarrow>
     (\<forall>j < length us. bound_row obs (us ! j) (ps ! (k + j)) (cps ! (k + j)))
     \<and> bs = map (\<lambda>j. bound_at (us ! j) (n + j) (ps ! (k + j))) [0..<length us]"
proof (induction us arbitrary: k n bs)
  case (Cons u us)
  have ex: "(\<forall>j < Suc m. P j) \<longleftrightarrow> P 0 \<and> (\<forall>j < m. P (Suc j))" for m and P :: "nat \<Rightarrow> bool"
    by (auto simp: less_Suc_eq_0_disj)
  have up: "map f [0..<Suc m] = f 0 # map (\<lambda>j. f (Suc j)) [0..<m]" for m and f :: "nat \<Rightarrow> 'b"
    by (simp add: upt_conv_Cons map_Suc_upt[symmetric] comp_def del: upt_Suc)
  have kind: "(case if b then ObservedInbound else ObservedOutbound of
      ObservedOutbound \<Rightarrow> OutboundEffect | ObservedInbound \<Rightarrow> InboundEffect) = (if b then InboundEffect else OutboundEffect)" for b
    by simp
  show ?case
    using Cons.prems Cons.IH[of "Suc k" "Suc n"]
    by (auto simp: Let_def if_Inl_eq_Inr and_then_eq_Inr bound_row_def observed_kind_at_def bound_at_def ex up kind
        simp del: upt_Suc)
qed auto

lemma bind_effects_Inr:
  "bind_effects_to_execution A c cps obs = Inr b \<longleftrightarrow>
     (let us = chain_trailing c; ps = effect_candidate_positions obs; a = chain_leading c in
      anchor_entry A (chain_rollup c) (vu_entry a) (vu_update a) \<and> ru_etherDelta (vu_update a) = 0
      \<and> list_all (\<lambda>u. effect_entry (vu_entry u)) us
      \<and> length us = length ps \<and> length cps = Suc (length ps)
      \<and> cp_at (hd cps) = PreExecution \<and> ru_newRoot (vu_update a) = cp_block_hash (hd cps)
      \<and> (\<forall>j < length us. bound_row obs (us ! j) (ps ! j) (cps ! Suc j))
      \<and> b = \<lparr>bes_effects = map (\<lambda>j. bound_at (us ! j) (Suc j) (ps ! j)) [0..<length us], bes_observations = obs\<rparr>)"
proof (cases cps)
  case Nil
  then show ?thesis
    by (auto simp: bind_effects_to_execution_def Let_def if_Inl_eq_Inr and_then_eq_Inr)
next
  case (Cons a cs)
  show ?thesis
  proof (cases "length (chain_trailing c) = length (effect_candidate_positions obs)
      \<and> length cs = length (effect_candidate_positions obs)")
    case True
    note l = bind_loop_Inr[of 0 "chain_trailing c" "effect_candidate_positions obs" cs obs 1]
    show ?thesis
      using True l
      by (auto simp: bind_effects_to_execution_def Cons Let_def if_Inl_eq_Inr and_then_eq_Inr classify_anchor claim_effects_Inr)
  next
    case False
    then show ?thesis
      by (auto simp: bind_effects_to_execution_def Cons Let_def if_Inl_eq_Inr and_then_eq_Inr claim_effects_Inr)
  qed
qed

end
