(* ===== verification/Claim_Merge.thy ===== *)
theory Claim_Merge
  imports Prelude
begin

text \<open>
  The forward merge both effect gates of the proof signer perform: effects and candidates ascend by
  transaction index, each claiming effect consumes the candidate at its own index, and a candidate that no
  effect claims fails the gate. The locale states what one step of such a merge does; its theorem is that
  the merge succeeds exactly when the candidates are, in order, those of the claiming effects.
\<close>

fun matched ::
    "('e \<Rightarrow> nat) \<Rightarrow> ('c \<Rightarrow> nat) \<Rightarrow> ('e \<Rightarrow> bool) \<Rightarrow> ('s \<Rightarrow> 'e \<Rightarrow> 'c \<Rightarrow> bool) \<Rightarrow> ('e \<Rightarrow> 's \<Rightarrow> 's) \<Rightarrow> ('e \<Rightarrow> 'c \<Rightarrow> 'b)
     \<Rightarrow> 's \<Rightarrow> 'e list \<Rightarrow> 'c list \<Rightarrow> 'b list \<Rightarrow> bool" where
  "matched ea ca claims ok nxt out s [] cs bs \<longleftrightarrow> cs = [] \<and> bs = []"
| "matched ea ca claims ok nxt out s (e # es) cs bs \<longleftrightarrow>
     (if claims e
      then \<exists>c cs' bs'. cs = c # cs' \<and> bs = out e c # bs' \<and> ca c = ea e \<and> ok s e c
             \<and> matched ea ca claims ok nxt out (nxt e s) es cs' bs'
      else matched ea ca claims ok nxt out (nxt e s) es cs bs)"

lemma matched_positions:
  "matched ea ca claims ok nxt out s es cs bs \<Longrightarrow> c \<in> set cs \<Longrightarrow> \<exists>e \<in> set es. ca c = ea e"
proof (induction es arbitrary: s cs bs)
  case (Cons e es)
  show ?case
  proof (cases "claims e")
    case True
    then obtain c0 cs' bs' where "cs = c0 # cs'" "ca c0 = ea e" "matched ea ca claims ok nxt out (nxt e s) es cs' bs'"
      using Cons.prems(1) by auto
    with Cons.IH Cons.prems(2) show ?thesis by auto
  next
    case False
    with Cons show ?thesis by (metis list.set_intros(2) matched.simps(2))
  qed
qed simp

locale claim_merge =
  fixes effect_at :: "'e \<Rightarrow> nat"
    and candidate_at :: "'c \<Rightarrow> nat"
    and claims :: "'e \<Rightarrow> bool"
    and ok :: "'s \<Rightarrow> 'e \<Rightarrow> 'c \<Rightarrow> bool"
    and nxt :: "'e \<Rightarrow> 's \<Rightarrow> 's"
    and out :: "'e \<Rightarrow> 'c \<Rightarrow> 'b"
    and run :: "'s \<Rightarrow> 'e list \<Rightarrow> 'c list \<Rightarrow> 'err + 'b list"
  assumes run_Nil: "run s [] cs = Inr bs \<longleftrightarrow> cs = [] \<and> bs = []"
    and run_skip: "\<not> claims e \<Longrightarrow> run s (e # es) cs = Inr bs \<longleftrightarrow>
      (cs \<noteq> [] \<longrightarrow> effect_at e < candidate_at (hd cs)) \<and> run (nxt e s) es cs = Inr bs"
    and run_claim_sound: "claims e \<Longrightarrow> run s (e # es) cs = Inr bs \<Longrightarrow>
      \<exists>c cs' bs'. cs = c # cs' \<and> bs = out e c # bs' \<and> candidate_at c = effect_at e \<and> ok s e c
        \<and> run (nxt e s) es cs' = Inr bs'"
    and run_claim_complete: "claims e \<Longrightarrow> candidate_at c = effect_at e \<Longrightarrow> ok s e c
      \<Longrightarrow> (cs' \<noteq> [] \<longrightarrow> effect_at e < candidate_at (hd cs')) \<Longrightarrow> run (nxt e s) es cs' = Inr bs'
      \<Longrightarrow> run s (e # es) (c # cs') = Inr (out e c # bs')"
begin

lemma run_matched:
  assumes "sorted_wrt (<) (map effect_at es)"
  shows "run s es cs = Inr bs \<longleftrightarrow> matched effect_at candidate_at claims ok nxt out s es cs bs"
  using assms
proof (induction es arbitrary: s cs bs)
  case Nil
  then show ?case by (simp add: run_Nil)
next
  case (Cons e es)
  then have IH: "\<And>s cs bs. run s es cs = Inr bs \<longleftrightarrow> matched effect_at candidate_at claims ok nxt out s es cs bs"
    and later: "\<forall>f \<in> set es. effect_at e < effect_at f" by simp_all
  have fresh: "cs \<noteq> [] \<longrightarrow> effect_at e < candidate_at (hd cs)"
    if "matched effect_at candidate_at claims ok nxt out s' es cs bs'" for s' cs bs'
    using matched_positions[OF that] later by (metis list.set_sel(1))
  show ?case
  proof (cases "claims e")
    case True
    show ?thesis
    proof
      assume "run s (e # es) cs = Inr bs"
      from run_claim_sound[OF True this] show "matched effect_at candidate_at claims ok nxt out s (e # es) cs bs"
        using True by (simp add: IH)
    next
      assume "matched effect_at candidate_at claims ok nxt out s (e # es) cs bs"
      then obtain c cs' bs' where c: "cs = c # cs'" "bs = out e c # bs'" "candidate_at c = effect_at e" "ok s e c"
          "matched effect_at candidate_at claims ok nxt out (nxt e s) es cs' bs'"
        using True by auto
      with run_claim_complete[OF True c(3,4) fresh[OF c(5)]] show "run s (e # es) cs = Inr bs" by (simp add: IH)
    qed
  next
    case False
    then show ?thesis using fresh[of "nxt e s" cs bs] by (simp add: run_skip IH) blast
  qed
qed

end

text \<open>Without state the matching is a pointwise one over the claiming effects.\<close>

lemma matched_stateless:
  "matched ea ca claims (\<lambda>_. ok) nxt out s es cs bs \<longleftrightarrow>
     list_all2 (\<lambda>e c. ca c = ea e \<and> ok e c) (filter claims es) cs \<and> bs = map2 out (filter claims es) cs"
proof (induction es arbitrary: s cs bs)
  case (Cons e es)
  then show ?case by (auto simp: list_all2_Cons1)
qed auto

text \<open>With the flag of the outbound gate, no claim may follow a non-claiming effect.\<close>

lemma matched_ordered:
  "matched ea ca claims (\<lambda>s e c. \<not> s \<and> ok e c) (\<lambda>e s. s \<or> \<not> claims e) out s es cs bs \<longleftrightarrow>
     (s \<longrightarrow> filter claims es = []) \<and> sorted_wrt (\<lambda>e f. claims f \<longrightarrow> claims e) es
     \<and> list_all2 (\<lambda>e c. ca c = ea e \<and> ok e c) (filter claims es) cs \<and> bs = map2 out (filter claims es) cs"
proof (induction es arbitrary: s cs bs)
  case (Cons e es)
  then show ?case by (auto simp: list_all2_Cons1 filter_empty_conv)
qed auto

end
