(* ===== verification/Effect_Gates.thy ===== *)
theory Effect_Gates
  imports Effect_Binding Claim_Merge
begin

text \<open>
  The two directional gates of the proof signer: inbound effects
  (\<^verbatim>\<open>crates/eez-proof-signer/src/settlement/inbound.rs\<close>, second half) and outbound effects
  (\<^verbatim>\<open>settlement/outbound.rs\<close>). Both are interpretations of the merge of \<open>Claim_Merge\<close>; the lemmas
  give the exact acceptance condition of each gate.
\<close>

section \<open>Inbound effects\<close>

datatype inbound_effect_error =
    MissingCandidate nat nat
  | UnexpectedCandidate nat
  | InvalidObservation nat nat inbound_observation_error
  | InboundEntryShape nat string
  | InboundDestinationMismatch nat u64 u64
  | InboundCallHashMismatch nat b256 b256
  | ReturnDataMismatch nat
  | InboundValueOutOfRange nat nat u256
  | InboundEtherDeltaMismatch nat "192 word" "192 word"

fun poisoned_entry_index :: "inbound_effect_error \<Rightarrow> nat option" where
  "poisoned_entry_index (InvalidObservation entry_index _ RevertedTransaction) = Some entry_index"
| "poisoned_entry_index _ = None"

record authorized_inbound_effect =
  ai_transaction_index :: nat
  ai_observation :: inbound_observation

definition authorize_inbound_effect ::
    "alloy \<Rightarrow> bound_effect \<Rightarrow> inbound_observation \<Rightarrow> u64 \<Rightarrow> inbound_effect_error + unit" where
  "authorize_inbound_effect A effect ob rollup =
     (let i = be_entry_index effect; entry = be_entry effect; update = be_update effect in
      if destinationRollupId entry \<noteq> rollup
      then Inl (InboundDestinationMismatch i rollup (destinationRollupId entry))
      else if proxyEntryHash entry \<noteq> recomputed_call_hash ob
      then Inl (InboundCallHashMismatch i (recomputed_call_hash ob) (proxyEntryHash entry))
      else if returnData entry \<noteq> io_return_data ob then Inl (ReturnDataMismatch i)
      else if rollingHash entry \<noteq> current (seed_for_l1 A [(ru_rollupId update, ru_currentRoot update)] (proxyEntryHash entry))
      then Inl (InboundEntryShape i ''rollingHash'')
      else and_then (ok_or (InboundValueOutOfRange i (be_transaction_index effect) (io_value ob))
        (u256_to_i192 (io_value ob))) (\<lambda>expected.
      if ru_etherDelta update \<noteq> expected then Inl (InboundEtherDeltaMismatch i expected (ru_etherDelta update))
      else Inr ()))"

fun inbound_loop ::
    "alloy \<Rightarrow> u64 \<Rightarrow> bound_effect list \<Rightarrow> inbound_candidate list \<Rightarrow> inbound_effect_error + authorized_inbound_effect list" where
  "inbound_loop A rollup [] cs =
     (case cs of [] \<Rightarrow> Inr [] | c # _ \<Rightarrow> Inl (UnexpectedCandidate (cand_transaction_index c)))"
| "inbound_loop A rollup (effect # es) cs =
     (if cs \<noteq> [] \<and> cand_transaction_index (hd cs) < be_transaction_index effect
      then Inl (UnexpectedCandidate (cand_transaction_index (hd cs)))
      else case be_kind effect of
        OutboundEffect \<Rightarrow>
          if cs \<noteq> [] \<and> cand_transaction_index (hd cs) = be_transaction_index effect
          then Inl (UnexpectedCandidate (be_transaction_index effect))
          else inbound_loop A rollup es cs
      | InboundEffect \<Rightarrow>
          (case cs of
             c # cs' \<Rightarrow>
               if cand_transaction_index c = be_transaction_index effect
               then and_then (map_err (InvalidObservation (be_entry_index effect) (be_transaction_index effect))
                      (cand_inspection c)) (\<lambda>ob.
                    and_then (authorize_inbound_effect A effect ob rollup) (\<lambda>_.
                    and_then (inbound_loop A rollup es cs') (\<lambda>bs.
                    Inr (\<lparr>ai_transaction_index = be_transaction_index effect, ai_observation = ob\<rparr> # bs))))
               else Inl (MissingCandidate (be_entry_index effect) (be_transaction_index effect))
           | [] \<Rightarrow> Inl (MissingCandidate (be_entry_index effect) (be_transaction_index effect))))"

definition authorize_inbound_effects ::
    "alloy \<Rightarrow> bound_effect_sequence \<Rightarrow> u64 \<Rightarrow> inbound_effect_error + authorized_inbound_effect list" where
  "authorize_inbound_effects A bound rollup =
     inbound_loop A rollup (bes_effects bound) (obs_inbound_candidates (bes_observations bound))"

section \<open>Outbound effects\<close>

datatype outbound_effect_error =
    MissingPrecedingSystemTransaction nat nat
  | NonCanonicalEffectOrder nat nat
  | MissingObservation nat nat
  | UnexpectedObservation nat nat
  | MalformedObservation nat nat
  | UnsupportedCallGas nat nat u64
  | L2ToL1CallCount nat nat
  | OutboundDestinationMismatch nat u64 u64
  | SourceRollupMismatch nat u64 u64
  | OutboundCallHashMismatch nat nat b256 b256
  | NonCanonicalReturnData nat
  | ReservedSourceAddress nat
  | OutboundValueOutOfRange nat u256
  | OutboundEtherDeltaMismatch nat "192 word" "192 word"

fun poisoned_transaction_index :: "outbound_effect_error \<Rightarrow> nat option" where
  "poisoned_transaction_index (MissingObservation _ t) = Some t"
| "poisoned_transaction_index (MalformedObservation t _) = Some t"
| "poisoned_transaction_index (UnsupportedCallGas t _ _) = Some t"
| "poisoned_transaction_index _ = None"

record authorized_outbound_effect =
  ao_load_index :: nat
  ao_transaction_index :: nat
  ao_base_entry :: execution_entry
  ao_pending_hash :: entry_rolling_hash
  ao_claimed_hash :: b256

definition derived_outbound_entry :: "authorized_outbound_effect \<Rightarrow> bytes \<Rightarrow> execution_entry" where
  "derived_outbound_entry ao ret = (ao_base_entry ao)\<lparr>returnData := ret\<rparr>"

definition bind_return_data :: "alloy \<Rightarrow> authorized_outbound_effect \<Rightarrow> bytes \<Rightarrow> b256 + unit" where
  "bind_return_data A ao ret =
     (let recomputed = current (call_end A (entry_success (ao_base_entry ao)) ret (ao_pending_hash ao)) in
      if recomputed \<noteq> ao_claimed_hash ao then Inl recomputed else Inr ())"

definition unexpected_outbound_observation :: "outbound_event_observation \<Rightarrow> outbound_effect_error" where
  "unexpected_outbound_observation ob = UnexpectedObservation (obs_transaction_index ob) (obs_receipt_log_index ob)"

definition authorize_outbound_effect ::
    "alloy \<Rightarrow> bound_effect \<Rightarrow> outbound_event_observation \<Rightarrow> u64 \<Rightarrow> address \<Rightarrow> outbound_effect_error + entry_rolling_hash" where
  "authorize_outbound_effect A effect ob rollup system_address =
     (let i = be_entry_index effect; entry = be_entry effect; update = be_update effect in
      if length (l2ToL1Calls entry) \<noteq> 1 then Inl (L2ToL1CallCount i (length (l2ToL1Calls entry)))
      else let call = hd (l2ToL1Calls entry) in
        if destinationRollupId entry \<noteq> rollup
        then Inl (OutboundDestinationMismatch i rollup (destinationRollupId entry))
        else if sourceRollupId call \<noteq> rollup then Inl (SourceRollupMismatch i rollup (sourceRollupId call))
        else and_then (ok_or (MalformedObservation (obs_transaction_index ob) (obs_receipt_log_index ob))
            (obs_decoded_event ob)) (\<lambda>event.
          if obs_call_gas event \<noteq> 0
          then Inl (UnsupportedCallGas (obs_transaction_index ob) (obs_receipt_log_index ob) (obs_call_gas event))
          else let recomputed = l2_outbound_call_hash A
              \<lparr>chi_call_mode = Mutable, chi_source_address = sourceAddress call, chi_source_rollup_id = rollup,
               chi_target_address = targetAddress call, chi_target_rollup_id = MAINNET,
               chi_value = call_value call, chi_data = call_data call\<rparr> (obs_call_gas event) in
            if call_hash event \<noteq> recomputed
            then Inl (OutboundCallHashMismatch i (obs_transaction_index ob) recomputed (call_hash event))
            else if returnData entry \<noteq> [] then Inl (NonCanonicalReturnData i)
            else if sourceAddress call = system_address then Inl (ReservedSourceAddress i)
            else and_then (ok_or (OutboundValueOutOfRange i (call_value call)) (u256_to_i192 (call_value call))) (\<lambda>v.
              if ru_etherDelta update \<noteq> - v then Inl (OutboundEtherDeltaMismatch i (- v) (ru_etherDelta update))
              else Inr (call_begin A recomputed
                (seed_for_l1 A [(ru_rollupId update, ru_currentRoot update)] (proxyEntryHash entry))))))"

definition base_da_entry :: "execution_entry \<Rightarrow> execution_entry" where
  "base_da_entry entry = entry\<lparr>rollupUpdates := [], rollingHash := 0\<rparr>"

fun outbound_loop ::
    "alloy \<Rightarrow> u64 \<Rightarrow> address \<Rightarrow> bool list \<Rightarrow> bool \<Rightarrow> bound_effect list \<Rightarrow> outbound_event_observation list
     \<Rightarrow> outbound_effect_error + authorized_outbound_effect list" where
  "outbound_loop A rollup system_address flags saw_inbound [] obs =
     (case obs of [] \<Rightarrow> Inr [] | ob # _ \<Rightarrow> Inl (unexpected_outbound_observation ob))"
| "outbound_loop A rollup system_address flags saw_inbound (effect # es) obs =
     (if obs \<noteq> [] \<and> obs_transaction_index (hd obs) < be_transaction_index effect
      then Inl (unexpected_outbound_observation (hd obs))
      else case be_kind effect of
        InboundEffect \<Rightarrow>
          if obs \<noteq> [] \<and> obs_transaction_index (hd obs) = be_transaction_index effect
          then Inl (unexpected_outbound_observation (hd obs))
          else outbound_loop A rollup system_address flags True es obs
      | OutboundEffect \<Rightarrow>
          if saw_inbound then Inl (NonCanonicalEffectOrder (be_entry_index effect) (be_transaction_index effect))
          else if be_transaction_index effect = 0
          then Inl (MissingPrecedingSystemTransaction (be_entry_index effect) (be_transaction_index effect))
          else if get flags (be_transaction_index effect - 1) \<noteq> Some True
          then Inl (MissingPrecedingSystemTransaction (be_entry_index effect) (be_transaction_index effect))
          else (case obs of
             [] \<Rightarrow> Inl (MissingObservation (be_entry_index effect) (be_transaction_index effect))
           | ob # obs' \<Rightarrow>
             if obs_transaction_index ob \<noteq> be_transaction_index effect
             then Inl (MissingObservation (be_entry_index effect) (be_transaction_index effect))
             else if obs' \<noteq> [] \<and> obs_transaction_index (hd obs') = be_transaction_index effect
             then Inl (unexpected_outbound_observation (hd obs'))
             else and_then (authorize_outbound_effect A effect ob rollup system_address) (\<lambda>pending.
               and_then (outbound_loop A rollup system_address flags saw_inbound es obs') (\<lambda>bs.
               Inr (\<lparr>ao_load_index = be_transaction_index effect - 1, ao_transaction_index = be_transaction_index effect,
                     ao_base_entry = base_da_entry (be_entry effect), ao_pending_hash = pending,
                     ao_claimed_hash = rollingHash (be_entry effect)\<rparr> # bs)))))"

definition authorize_outbound_effects ::
    "alloy \<Rightarrow> bound_effect_sequence \<Rightarrow> u64 \<Rightarrow> address \<Rightarrow> outbound_effect_error + authorized_outbound_effect list" where
  "authorize_outbound_effects A bound rollup system_address =
     outbound_loop A rollup system_address (obs_system_sender_flags (bes_observations bound)) False
       (bes_effects bound) (obs_outbound_event_candidates (bes_observations bound))"

section \<open>Acceptance of one effect\<close>

definition update_seed :: "bound_effect \<Rightarrow> (u64 \<times> b256) list" where
  "update_seed e = [(ru_rollupId (be_update e), ru_currentRoot (be_update e))]"

definition inbound_effect_ok :: "alloy \<Rightarrow> u64 \<Rightarrow> bound_effect \<Rightarrow> inbound_observation \<Rightarrow> bool" where
  "inbound_effect_ok A rollup e ob \<longleftrightarrow> destinationRollupId (be_entry e) = rollup
     \<and> proxyEntryHash (be_entry e) = recomputed_call_hash ob \<and> returnData (be_entry e) = io_return_data ob
     \<and> rollingHash (be_entry e) = current (seed_for_l1 A (update_seed e) (proxyEntryHash (be_entry e)))
     \<and> u256_to_i192 (io_value ob) = Some (ru_etherDelta (be_update e))"

lemma authorize_inbound_effect_Inr:
  "authorize_inbound_effect A e ob rollup = Inr () \<longleftrightarrow> inbound_effect_ok A rollup e ob"
  by (auto simp: authorize_inbound_effect_def inbound_effect_ok_def update_seed_def Let_def if_Inl_eq_Inr and_then_eq_Inr)

definition inbound_pair_ok :: "alloy \<Rightarrow> u64 \<Rightarrow> bound_effect \<Rightarrow> inbound_candidate \<Rightarrow> bool" where
  "inbound_pair_ok A rollup e c \<longleftrightarrow> (\<exists>ob. cand_inspection c = Inr ob \<and> inbound_effect_ok A rollup e ob)"

definition authorized_inbound :: "bound_effect \<Rightarrow> inbound_candidate \<Rightarrow> authorized_inbound_effect" where
  "authorized_inbound e c = \<lparr>ai_transaction_index = be_transaction_index e, ai_observation = projr (cand_inspection c)\<rparr>"

abbreviation is_inbound :: "bound_effect \<Rightarrow> bool" where
  "is_inbound e \<equiv> be_kind e = InboundEffect"

abbreviation is_outbound :: "bound_effect \<Rightarrow> bool" where
  "is_outbound e \<equiv> be_kind e = OutboundEffect"

interpretation inbound_merge: claim_merge be_transaction_index cand_transaction_index is_inbound
  "\<lambda>_ :: unit. inbound_pair_ok A rollup" "\<lambda>_ s. s" authorized_inbound "\<lambda>_. inbound_loop A rollup"
  for A rollup
proof unfold_locales
  fix s :: unit and cs bs
  show "inbound_loop A rollup [] cs = Inr bs \<longleftrightarrow> cs = [] \<and> bs = []" by (auto split: list.splits)
next
  fix s :: unit and es cs bs
  fix e :: bound_effect assume "\<not> is_inbound e"
  then have "be_kind e = OutboundEffect" by (cases "be_kind e") auto
  then show "inbound_loop A rollup (e # es) cs = Inr bs \<longleftrightarrow>
      (cs \<noteq> [] \<longrightarrow> be_transaction_index e < cand_transaction_index (hd cs)) \<and> inbound_loop A rollup es cs = Inr bs"
    by (auto simp: if_Inl_eq_Inr)
next
  fix s :: unit and es cs bs
  fix e :: bound_effect assume e: "is_inbound e" and run: "inbound_loop A rollup (e # es) cs = Inr bs"
  from run e show "\<exists>c cs' bs'. cs = c # cs' \<and> bs = authorized_inbound e c # bs'
      \<and> cand_transaction_index c = be_transaction_index e \<and> inbound_pair_ok A rollup e c \<and> inbound_loop A rollup es cs' = Inr bs'"
    by (cases cs) (auto simp: if_Inl_eq_Inr and_then_eq_Inr authorize_inbound_effect_Inr inbound_pair_ok_def
        authorized_inbound_def split: if_splits)
next
  fix e :: bound_effect and s :: unit and cs' es bs'
  fix c assume "is_inbound e" "cand_transaction_index c = be_transaction_index e" "inbound_pair_ok A rollup e c"
    "cs' \<noteq> [] \<longrightarrow> be_transaction_index e < cand_transaction_index (hd cs')" "inbound_loop A rollup es cs' = Inr bs'"
  then show "inbound_loop A rollup (e # es) (c # cs') = Inr (authorized_inbound e c # bs')"
    by (auto simp: inbound_pair_ok_def authorize_inbound_effect_Inr[symmetric] authorized_inbound_def)
qed

definition outbound_input :: "u64 \<Rightarrow> l2_to_l1_call \<Rightarrow> call_hash_input" where
  "outbound_input rollup call = \<lparr>chi_call_mode = Mutable, chi_source_address = sourceAddress call,
     chi_source_rollup_id = rollup, chi_target_address = targetAddress call, chi_target_rollup_id = MAINNET,
     chi_value = call_value call, chi_data = call_data call\<rparr>"

definition outbound_effect_ok ::
    "alloy \<Rightarrow> u64 \<Rightarrow> address \<Rightarrow> bound_effect \<Rightarrow> outbound_event_observation \<Rightarrow> bool" where
  "outbound_effect_ok A rollup system_address e ob \<longleftrightarrow>
     (\<exists>call v. l2ToL1Calls (be_entry e) = [call] \<and> destinationRollupId (be_entry e) = rollup
       \<and> sourceRollupId call = rollup \<and> sourceAddress call \<noteq> system_address \<and> returnData (be_entry e) = []
       \<and> obs_decoded_event ob = Some \<lparr>call_hash = l2_outbound_call_hash A (outbound_input rollup call) 0, obs_call_gas = 0\<rparr>
       \<and> u256_to_i192 (call_value call) = Some v \<and> ru_etherDelta (be_update e) = - v)"

definition pending_hash :: "alloy \<Rightarrow> u64 \<Rightarrow> bound_effect \<Rightarrow> entry_rolling_hash" where
  "pending_hash A rollup e = call_begin A (l2_outbound_call_hash A (outbound_input rollup (hd (l2ToL1Calls (be_entry e)))) 0)
     (seed_for_l1 A (update_seed e) (proxyEntryHash (be_entry e)))"

lemma authorize_outbound_effect_Inr:
  "authorize_outbound_effect A e ob rollup sys = Inr p \<longleftrightarrow> outbound_effect_ok A rollup sys e ob \<and> p = pending_hash A rollup e"
proof (cases "length (l2ToL1Calls (be_entry e)) = 1")
  case True
  then obtain call where call: "l2ToL1Calls (be_entry e) = [call]" by (cases "l2ToL1Calls (be_entry e)") auto
  have ob: "x = \<lparr>call_hash = h, obs_call_gas = 0\<rparr> \<longleftrightarrow> call_hash x = h \<and> obs_call_gas x = 0" for x :: observation and h
    by (cases x) simp
  show ?thesis
    by (auto simp: authorize_outbound_effect_def Let_def if_Inl_eq_Inr and_then_eq_Inr call outbound_effect_ok_def
        pending_hash_def update_seed_def outbound_input_def ob)
next
  case False
  then show ?thesis by (auto simp: authorize_outbound_effect_def outbound_effect_ok_def Let_def)
qed

definition outbound_pair_ok ::
    "alloy \<Rightarrow> u64 \<Rightarrow> address \<Rightarrow> bool list \<Rightarrow> bound_effect \<Rightarrow> outbound_event_observation \<Rightarrow> bool" where
  "outbound_pair_ok A rollup sys flags e ob \<longleftrightarrow> 0 < be_transaction_index e
     \<and> get flags (be_transaction_index e - 1) = Some True \<and> outbound_effect_ok A rollup sys e ob"

definition authorized_outbound :: "alloy \<Rightarrow> u64 \<Rightarrow> bound_effect \<Rightarrow> outbound_event_observation \<Rightarrow> authorized_outbound_effect" where
  "authorized_outbound A rollup e ob = \<lparr>ao_load_index = be_transaction_index e - 1,
     ao_transaction_index = be_transaction_index e, ao_base_entry = base_da_entry (be_entry e),
     ao_pending_hash = pending_hash A rollup e, ao_claimed_hash = rollingHash (be_entry e)\<rparr>"

interpretation outbound_merge: claim_merge be_transaction_index obs_transaction_index is_outbound
  "\<lambda>saw e ob. \<not> saw \<and> outbound_pair_ok A rollup sys flags e ob" "\<lambda>e saw. saw \<or> \<not> is_outbound e"
  "authorized_outbound A rollup" "outbound_loop A rollup sys flags"
  for A rollup sys flags
proof unfold_locales
  fix saw cs bs
  show "outbound_loop A rollup sys flags saw [] cs = Inr bs \<longleftrightarrow> cs = [] \<and> bs = []" by (auto split: list.splits)
next
  fix saw es cs bs
  fix e :: bound_effect assume "\<not> is_outbound e"
  then have "be_kind e = InboundEffect" by (cases "be_kind e") auto
  then show "outbound_loop A rollup sys flags saw (e # es) cs = Inr bs \<longleftrightarrow>
      (cs \<noteq> [] \<longrightarrow> be_transaction_index e < obs_transaction_index (hd cs))
      \<and> outbound_loop A rollup sys flags (saw \<or> \<not> is_outbound e) es cs = Inr bs"
    by (auto simp: if_Inl_eq_Inr)
next
  fix saw es cs bs
  fix e :: bound_effect assume e: "is_outbound e" and run: "outbound_loop A rollup sys flags saw (e # es) cs = Inr bs"
  from run e show "\<exists>c cs' bs'. cs = c # cs' \<and> bs = authorized_outbound A rollup e c # bs'
      \<and> obs_transaction_index c = be_transaction_index e \<and> (\<not> saw \<and> outbound_pair_ok A rollup sys flags e c)
      \<and> outbound_loop A rollup sys flags (saw \<or> \<not> is_outbound e) es cs' = Inr bs'"
    by (cases cs) (auto simp: if_Inl_eq_Inr and_then_eq_Inr authorize_outbound_effect_Inr outbound_pair_ok_def authorized_outbound_def)
next
  fix e :: bound_effect and saw cs' es bs'
  fix c assume "is_outbound e" "obs_transaction_index c = be_transaction_index e"
    "\<not> saw \<and> outbound_pair_ok A rollup sys flags e c"
    "cs' \<noteq> [] \<longrightarrow> be_transaction_index e < obs_transaction_index (hd cs')"
    "outbound_loop A rollup sys flags (saw \<or> \<not> is_outbound e) es cs' = Inr bs'"
  then show "outbound_loop A rollup sys flags saw (e # es) (c # cs') = Inr (authorized_outbound A rollup e c # bs')"
    using authorize_outbound_effect_Inr[of A e c rollup sys "pending_hash A rollup e"]
    by (auto simp: outbound_pair_ok_def authorized_outbound_def)
qed

section \<open>Acceptance of the gates\<close>

definition ascending_effects :: "bound_effect_sequence \<Rightarrow> bool" where
  "ascending_effects b \<longleftrightarrow> sorted_wrt (<) (map be_transaction_index (bes_effects b))"

lemma authorize_inbound_effects_Inr:
  assumes "ascending_effects b"
  shows "authorize_inbound_effects A b rollup = Inr bs \<longleftrightarrow>
    list_all2 (\<lambda>e c. cand_transaction_index c = be_transaction_index e \<and> inbound_pair_ok A rollup e c)
      (filter is_inbound (bes_effects b)) (obs_inbound_candidates (bes_observations b))
    \<and> bs = map2 authorized_inbound (filter is_inbound (bes_effects b)) (obs_inbound_candidates (bes_observations b))"
  unfolding authorize_inbound_effects_def
  by (subst inbound_merge.run_matched[OF assms[unfolded ascending_effects_def]]) (rule matched_stateless)

lemma authorize_outbound_effects_Inr:
  assumes "ascending_effects b"
  shows "authorize_outbound_effects A b rollup sys = Inr bs \<longleftrightarrow>
    sorted_wrt (\<lambda>e f. is_outbound f \<longrightarrow> is_outbound e) (bes_effects b)
    \<and> list_all2 (\<lambda>e ob. obs_transaction_index ob = be_transaction_index e
        \<and> outbound_pair_ok A rollup sys (obs_system_sender_flags (bes_observations b)) e ob)
      (filter is_outbound (bes_effects b)) (obs_outbound_event_candidates (bes_observations b))
    \<and> bs = map2 (authorized_outbound A rollup) (filter is_outbound (bes_effects b))
        (obs_outbound_event_candidates (bes_observations b))"
  unfolding authorize_outbound_effects_def
  by (subst outbound_merge.run_matched[OF assms[unfolded ascending_effects_def]]) (simp add: matched_ordered)

lemma bound_effects_ascending:
  assumes "bind_effects_to_execution A c cps obs = Inr b"
  shows "ascending_effects b" "bes_observations b = obs"
proof -
  let ?ps = "effect_candidate_positions obs" and ?us = "chain_trailing c"
  have "length ?us = length ?ps"
    and b: "bes_effects b = map (\<lambda>j. bound_at (?us ! j) (Suc j) (?ps ! j)) [0..<length ?us]" "bes_observations b = obs"
    using assms by (auto simp: bind_effects_Inr Let_def)
  then have "map be_transaction_index (bes_effects b) = map (\<lambda>j. ?ps ! j) [0..<length ?ps]"
    by (simp add: bound_at_def)
  also have "\<dots> = ?ps" by (rule map_nth)
  finally show "ascending_effects b"
    using pair_end_positions_sorted by (simp add: ascending_effects_def effect_candidate_positions_def)
  show "bes_observations b = obs" by (rule b(2))
qed

end
