(* ===== verification/Manifest.thy ===== *)
theory Manifest
  imports Entries Container_Codec
begin

text \<open>
  The projection between execution entries and the published actions of the data-availability stream,
  \<^verbatim>\<open>crates/eez-protocol/src/entries/manifest.rs\<close>. The lemmas show that it loses nothing
  for the entries the builders emit, and for which actions it can be inverted.
\<close>

section \<open>Model\<close>

definition action_from_entry :: "execution_entry \<Rightarrow> rollup_id \<Rightarrow> action protocol_result" where
  "action_from_entry entry local = (case l2ToL1Calls entry of
     [call] \<Rightarrow>
       if expectedL1ToL2Calls entry \<noteq> []
       then Inl (InvalidEncoding ''a DA action cannot carry nested expected calls'' [])
       else if isStatic call \<or> revertNextNCalls call \<noteq> 0
       then Inl (InvalidEncoding ''a DA action needs a flat, mutable call: no static call, no revert span'' [])
       else
         and_then (if sourceRollupId call = local then Inr MAINNET
           else if destinationRollupId entry \<noteq> local
           then Inl (InvalidEncoding ''a DA action's inbound entry targets another rollup''
                       [unat (destinationRollupId entry), unat local])
           else Inr local) (\<lambda>target_rollup_id.
         Inr \<lparr>act_source_rollup_id = sourceRollupId call, act_target_rollup_id = target_rollup_id,
              act_source_address = be_bytes 20 (sourceAddress call),
              act_target_address = be_bytes 20 (targetAddress call),
              act_value = be_bytes 32 (call_value call), act_gas = call_gas call,
              act_data = call_data call, act_success = entry_success entry,
              act_return_data = returnData entry\<rparr>)
   | _ \<Rightarrow> Inl (InvalidEncoding ''a DA action needs exactly one call on its entry'' []))"

definition entry_from_action :: "alloy \<Rightarrow> action \<Rightarrow> rollup_id \<Rightarrow> execution_entry protocol_result" where
  "entry_from_action A action local =
     (let source_rollup_id = act_source_rollup_id action;
          target_rollup_id = act_target_rollup_id action;
          outbound = (source_rollup_id = local \<and> is_mainnet target_rollup_id);
          inbound = (target_rollup_id = local) in
      if \<not> outbound \<and> \<not> inbound
      then Inl (InvalidEncoding ''a DA action must have this rollup as its source or its target'' [])
      else
        let call = \<lparr>revertNextNCalls = 0, isStatic = False, call_gas = act_gas action,
              sourceAddress = of_be_bytes (act_source_address action), sourceRollupId = source_rollup_id,
              targetAddress = of_be_bytes (act_target_address action),
              call_value = of_be_bytes (act_value action), call_data = act_data action\<rparr>;
            (proxy_entry_hash, rh) =
              (if outbound then (0, 0)
               else let call_hash = common_cross_chain_call_hash A
                      \<lparr>chi_call_mode = Mutable, chi_source_address = sourceAddress call,
                       chi_source_rollup_id = source_rollup_id, chi_target_address = targetAddress call,
                       chi_target_rollup_id = target_rollup_id, chi_value = call_value call,
                       chi_data = call_data call\<rparr>
                    in (call_hash, current (call_end A (act_success action) (act_return_data action)
                          (call_begin A call_hash (seed_for_l2 A call_hash)))))
        in Inr \<lparr>rollupUpdates = [], proxyEntryHash = proxy_entry_hash, l2ToL1Calls = [call],
                expectedL1ToL2Calls = [], rollingHash = rh, destinationRollupId = local,
                entry_success = act_success action, returnData = act_return_data action\<rparr>)"

section \<open>Losslessness\<close>

definition rebuilt :: "alloy \<Rightarrow> rollup_id \<Rightarrow> execution_entry \<Rightarrow> bool" where
  "rebuilt A local e \<longleftrightarrow>
     and_then (action_from_entry e local) (\<lambda>a. entry_from_action A a local) = Inr e"

lemma of_be_bytes_address [simp]: "of_be_bytes (be_bytes 20 a) = (a :: address)"
  by (rule of_be_bytes_be_bytes) simp

lemma of_be_bytes_u256 [simp]: "of_be_bytes (be_bytes 32 v) = (v :: u256)"
  by (rule of_be_bytes_be_bytes) simp

lemma be_bytes_address: "length bs = 20 \<Longrightarrow> be_bytes 20 (of_be_bytes bs :: address) = bs"
  using be_bytes_of_be_bytes[of bs, where 'a = 160] by simp

lemma be_bytes_u256: "length bs = 32 \<Longrightarrow> be_bytes 32 (of_be_bytes bs :: u256) = bs"
  using be_bytes_of_be_bytes[of bs, where 'a = 256] by simp

lemma l1_postbatch_entry_Inr:
  "l1_postbatch_entry local call = Inr e \<longleftrightarrow>
     (\<exists>rd. supported_return_data call = Inr rd \<and> ea_source_rollup_id call = local \<and> ea_target_rollup_id call = 0
       \<and> e = \<lparr>rollupUpdates = [], proxyEntryHash = 0, l2ToL1Calls = [l1_call_from_action call],
              expectedL1ToL2Calls = [], rollingHash = 0, destinationRollupId = local,
              entry_success = True, returnData = rd\<rparr>)"
  by (auto simp: l1_postbatch_entry_def supported_top_level_return_data_def and_then_eq_Inr is_mainnet_def
      MAINNET_def split: if_splits)

lemma rebuilt_outbound: "l1_postbatch_entry local call = Inr e \<Longrightarrow> rebuilt A local e"
  by (auto simp: l1_postbatch_entry_Inr rebuilt_def action_from_entry_def entry_from_action_def
      l1_call_from_action_def is_mainnet_def Let_def)

lemma rebuilt_sidecar:
  assumes "deliverable i"
  shows "rebuilt A (inc_l2_rollup_id i) (sidecar_entry A i)"
  using assms transcript_l2[of A "[Call_begin (incoming_call_hash A i), Call_end True (inc_return_data i)]"
      "incoming_call_hash A i"]
  by (simp add: rebuilt_def sidecar_entry_def action_from_entry_def entry_from_action_def deliverable_def
      is_mainnet_def MAINNET_def incoming_call_hash_def Let_def)

lemma inbound_target_entry_Inr:
  "inbound_target_entry A local call = Inr e \<Longrightarrow>
     \<exists>i. deliverable i \<and> inc_l2_rollup_id i = local \<and> e = sidecar_entry A i"
  by (auto simp: inbound_target_entry_def and_then_eq_Inr inbound_sidecar_new_Inr split: if_splits)

lemma action_from_entry_well_typed: "action_from_entry e local = Inr a \<Longrightarrow> well_typed_action a"
  by (auto simp: action_from_entry_def well_typed_action_def value_bytes_def and_then_eq_Inr
      split: list.splits if_splits)

lemma rebuilt_action:
  "rebuilt A local e \<Longrightarrow> \<exists>a. action_from_entry e local = Inr a \<and> entry_from_action A a local = Inr e"
  by (auto simp: rebuilt_def and_then_eq_Inr)

lemma rebuilt_all:
  "list_all (rebuilt A local) es \<Longrightarrow>
    \<exists>as. map_result (\<lambda>e. action_from_entry e local) es = Inr as
      \<and> map_result (\<lambda>a. entry_from_action A a local) as = Inr es"
proof (induction es)
  case (Cons e es)
  then obtain a as where "action_from_entry e local = Inr a" "entry_from_action A a local = Inr e"
    "map_result (\<lambda>e. action_from_entry e local) es = Inr as"
    "map_result (\<lambda>a. entry_from_action A a local) as = Inr es"
    using rebuilt_action[of A local e] by auto
  then show ?case by (intro exI[of _ "a # as"]) simp
qed simp

lemma builders_rebuilt:
  assumes "build_l1_postbatch calls local = Inr b \<or> build_inbound_target_entries A calls local = Inr b"
  shows "list_all (rebuilt A local) (entries b)"
  using assms
proof
  assume "build_l1_postbatch calls local = Inr b"
  then obtain es where "map_result (l1_postbatch_entry local) calls = Inr es" "entries b = es"
    by (auto simp: build_l1_postbatch_def and_then_eq_Inr batch_with_entries_def)
  then show ?thesis
    by (auto simp: list_all_length map_result_Inr_iff list_all2_conv_all_nth intro: rebuilt_outbound)
next
  assume "build_inbound_target_entries A calls local = Inr b"
  then obtain es where "map_result (inbound_target_entry A local) calls = Inr es" "entries b = es"
    by (auto simp: build_inbound_target_entries_def and_then_eq_Inr batch_with_entries_def)
  then show ?thesis
    by (fastforce simp: list_all_length map_result_Inr_iff list_all2_conv_all_nth
        dest: inbound_target_entry_Inr intro: rebuilt_sidecar)
qed

section \<open>Properties\<close>

text \<open>
  C27. The projection is lossless on every entry the builders emit: an outbound entry of
  \<open>build_l1_postbatch\<close> and an inbound sidecar of \<open>build_inbound_target_entries\<close> can each be
  described as an action, and the entry rebuilt from that action is the same entry, hashes included.
\<close>

theorem manifest_lossless:
  assumes "build_l1_postbatch calls local = Inr b \<or> build_inbound_target_entries A calls local = Inr b"
  shows "list_all (rebuilt A local) (entries b)"
  using assms by (rule builders_rebuilt)

definition example_executed :: executed_action where
  "example_executed = \<lparr>ea_call_mode = Mutable, ea_target_address = 1, ea_target_rollup_id = 0, ea_source_rollup_id = 7,
     ea_source_address = 2, ea_data = [], ea_value = 3, ea_outcome = Resolved [9] 21000 True, ea_revert_span = None\<rparr>"

theorem manifest_lossless_witness:
  "\<exists>b. build_l1_postbatch [example_executed] 7 = Inr b \<and> length (entries b) = 1
     \<and> list_all (rebuilt example_alloy 7) (entries b)"
proof -
  obtain b where b: "build_l1_postbatch [example_executed] 7 = Inr b" "length (entries b) = 1"
    by (simp add: build_l1_postbatch_def l1_postbatch_entry_def supported_top_level_return_data_def
        supported_return_data_def example_executed_def is_mainnet_def MAINNET_def batch_with_entries_def)
  with manifest_lossless[of "[example_executed]" 7 b example_alloy] show ?thesis by blast
qed

text \<open>
  C18. In the other direction the projection inverts reconstruction exactly for the actions that are
  not calls of the rollup to itself: a rebuilt entry is described by the action it came from unless the
  action has the rollup as both its source and its target.
\<close>

theorem action_round_trip:
  assumes "entry_from_action A a local = Inr e" "well_typed_action a"
  shows "action_from_entry e local = Inr a \<longleftrightarrow>
    \<not> (act_source_rollup_id a = local \<and> act_target_rollup_id a = local \<and> local \<noteq> 0)"
  using assms
  by (cases a) (auto simp: entry_from_action_def action_from_entry_def well_typed_action_def value_bytes_def
      is_mainnet_def MAINNET_def be_bytes_address be_bytes_u256 Let_def split: if_splits)

theorem action_round_trip_witness:
  "\<exists>e. entry_from_action example_alloy example_action 7 = Inr e \<and> action_from_entry e 7 = Inr example_action"
proof -
  have wt: "well_typed_action example_action"
    by (simp add: well_typed_action_def example_action_def value_bytes_def)
  obtain e where e: "entry_from_action example_alloy example_action 7 = Inr e"
    by (simp add: entry_from_action_def example_action_def Let_def is_mainnet_def MAINNET_def)
  from action_round_trip[OF e wt] e show ?thesis by (simp add: example_action_def)
qed

text \<open>
  C10. What is published is what is derived: the actions of the entries a builder emitted, encoded into
  the message stream beside a block span and decoded from it, rebuild exactly those entries, in order,
  together with the span's columns.
\<close>

theorem published_entries_are_derived:
  assumes "build_l1_postbatch calls local = Inr b \<or> build_inbound_target_entries A calls local = Inr b"
    and "map_result (\<lambda>e. action_from_entry e local) (entries b) = Inr actions"
    and "encode_container local blocks actions = Inr bs" "well_typed_span blocks" "length bs < 2 ^ 64"
  shows "\<exists>d. decode_container bs = Inr d \<and> con_span d = columns blocks \<and> con_rollup_id d = local
    \<and> map_result (\<lambda>a. entry_from_action A a local) (con_actions d) = Inr (entries b)"
proof -
  have all: "list_all (rebuilt A local) (entries b)"
    using assms(1) by (rule builders_rebuilt)
  have "list_all well_typed_action actions"
    using assms(2) by (auto simp: map_result_Inr_iff list_all_length list_all2_conv_all_nth
        dest: action_from_entry_well_typed)
  then obtain ops where "encode blocks = Inr ops" "length ops < 2 ^ 32"
    "list_all (ok_action local) actions" "bs = stream_bytes local ops actions"
    using assms(3) by (auto simp: encode_container_Inr)
  then have "decode_container bs = Inr \<lparr>con_rollup_id = local, con_span = columns blocks, con_actions = actions\<rparr>"
    using decode_stream_bytes[of ops "columns blocks" local actions] decode_span_bytes[of blocks] assms(4,5)
    by (auto simp: encode_eq)
  moreover have "map_result (\<lambda>a. entry_from_action A a local) actions = Inr (entries b)"
    using rebuilt_all[OF all] assms(2) by auto
  ultimately show ?thesis by auto
qed

theorem published_entries_are_derived_witness:
  "\<exists>b bs d. build_l1_postbatch [example_executed] 7 = Inr b \<and> decode_container bs = Inr d
    \<and> map_result (\<lambda>a. entry_from_action example_alloy a 7) (con_actions d) = Inr (entries b)"
proof -
  obtain b where b: "build_l1_postbatch [example_executed] 7 = Inr b"
    "entries b = [\<lparr>rollupUpdates = [], proxyEntryHash = 0, l2ToL1Calls = [l1_call_from_action example_executed],
              expectedL1ToL2Calls = [], rollingHash = 0, destinationRollupId = 7,
              entry_success = True, returnData = [9]\<rparr>]"
    by (simp add: build_l1_postbatch_def l1_postbatch_entry_def supported_top_level_return_data_def
        supported_return_data_def example_executed_def is_mainnet_def MAINNET_def batch_with_entries_def)
  let ?a = "\<lparr>act_source_rollup_id = 7, act_target_rollup_id = 0, act_source_address = be_bytes 20 (2 :: address),
    act_target_address = be_bytes 20 (1 :: address), act_value = be_bytes 32 (3 :: u256), act_gas = 0,
    act_data = [], act_success = True, act_return_data = [9]\<rparr>"
  have a: "map_result (\<lambda>e. action_from_entry e 7) (entries b) = Inr [?a]"
    by (simp add: b(2) action_from_entry_def l1_call_from_action_def example_executed_def MAINNET_def)
  have wt: "list_all well_typed_action [?a]" by (simp add: well_typed_action_def value_bytes_def)
  have s: "length (span_bytes example_blocks) < 128"
    by (simp add: example_blocks_def span_bytes_def all_txs_def leb128_small enc_extra_def)
  let ?bs = "stream_bytes 7 (span_bytes example_blocks) [?a]"
  have e: "encode_container 7 example_blocks [?a] = Inr ?bs"
    using example_blocks_ok(1) s unfolding encode_container_Inr[OF wt] encode_eq
    by (simp add: ok_action_def value_bytes_def)
  have len: "length ?bs < 2 ^ 64"
    using s by (simp add: stream_bytes_def enc_bytes_def enc_action_def leb128_small reversed_def)
  show ?thesis
    using published_entries_are_derived[OF disjI1[OF b(1)] a e example_blocks_ok(2) len, of example_alloy] b(1)
    by blast
qed

end
