(* ===== verification/Da_Payload.thy ===== *)
theory Da_Payload
  imports Effect_Gates Manifest
begin

text \<open>
  Verification of the published data-availability payload against the validated window
  (\<^verbatim>\<open>crates/eez-proof-signer/src/settlement/da.rs\<close> and \<^verbatim>\<open>system_transactions.rs\<close>). The
  lemmas show that an accepted payload reproduces every block of the window: ordinary transactions and
  header inputs verbatim, and the settling block by rebuilding its system transactions from the published
  actions.
\<close>

section \<open>The payload cursor\<close>

datatype da_payload_error =
    DaDecode codec_error
  | DaWrongRollup u64 u64
  | DaTrailingBytes nat
  | DaBlockCount nat nat
  | UnexpectedItems string nat
  | ProjectedTransactionCount u64 nat nat
  | TransactionMismatch u64 nat
  | MissingAction nat nat
  | ActionMismatch nat nat
  | RollingHashMismatch nat nat b256
  | UnrebuildableAction nat u64 protocol_error
  | HeaderInputMismatch string u64
  | SystemTransactionReconstruction system_tx_error
  | SyncBlockTransactionMismatch nat
  | SyncBlockTransactionCount nat nat
  | InvalidEffectTransactionLayout

record da_payload =
  da_span :: decoded_span
  da_actions :: "action list"
  next_transaction :: nat

definition da_payload_decode :: "bytes \<Rightarrow> u64 \<Rightarrow> da_payload_error + da_payload" where
  "da_payload_decode payload expected_rollup_id =
     and_then (map_err (\<lambda>e. case e of TrailingBytes n \<Rightarrow> DaTrailingBytes n | other \<Rightarrow> DaDecode other)
       (decode_container payload)) (\<lambda>container.
     if con_rollup_id container \<noteq> expected_rollup_id
     then Inl (DaWrongRollup (con_rollup_id container) expected_rollup_id)
     else Inr \<lparr>da_span = con_span container, da_actions = con_actions container, next_transaction = 0\<rparr>)"

definition da_block_count :: "da_payload \<Rightarrow> nat \<Rightarrow> nat \<Rightarrow> da_payload_error + nat" where
  "da_block_count p expected_blocks index =
     (let actual = block_count (da_span p) in
      if actual \<noteq> expected_blocks then Inl (DaBlockCount expected_blocks actual)
      else ok_or (DaBlockCount expected_blocks actual) (map_option unat (get (block_tx_counts (da_span p)) index)))"

definition expect_transaction :: "da_payload \<Rightarrow> u64 \<Rightarrow> nat \<Rightarrow> bytes \<Rightarrow> da_payload_error + da_payload" where
  "expect_transaction p block_number transaction_index expected =
     (let submitted = get (span_transactions (da_span p)) (next_transaction p) in
      if submitted \<noteq> Some expected then Inl (TransactionMismatch block_number transaction_index)
      else Inr (p\<lparr>next_transaction := next_transaction p + 1\<rparr>))"

definition transactions_exhausted :: "da_payload \<Rightarrow> nat \<Rightarrow> da_payload_error + unit" where
  "transactions_exhausted p retained =
     (if next_transaction p = length (span_transactions (da_span p)) then Inr ()
      else Inl (UnexpectedItems ''transactions'' retained))"

definition verify_header_inputs :: "da_payload \<Rightarrow> nat \<Rightarrow> u64 \<Rightarrow> eth_block \<Rightarrow> da_payload_error + unit" where
  "verify_header_inputs p block_index block_number block =
     and_then (ok_or (HeaderInputMismatch ''beneficiary'' block_number)
       (get (beneficiaries (da_span p)) block_index)) (\<lambda>submitted_beneficiary.
     if submitted_beneficiary \<noteq> be_bytes 20 (hdr_beneficiary (blk_header block))
     then Inl (HeaderInputMismatch ''beneficiary'' block_number)
     else and_then (ok_or (HeaderInputMismatch ''extraData'' block_number)
       (get (extra_datas (da_span p)) block_index)) (\<lambda>submitted_extra_data.
     if submitted_extra_data \<noteq> hdr_extra_data (blk_header block)
     then Inl (HeaderInputMismatch ''extraData'' block_number)
     else Inr ()))"

section \<open>Block transactions\<close>

definition encoded_transactions :: "alloy \<Rightarrow> eth_block \<Rightarrow> bytes list" where
  "encoded_transactions A block = map (tx_encoded A) (blk_transactions block)"

fun expect_all :: "u64 \<Rightarrow> nat \<Rightarrow> bytes list \<Rightarrow> da_payload \<Rightarrow> da_payload_error + da_payload" where
  "expect_all number i [] p = Inr p"
| "expect_all number i (tx # txs) p =
     and_then (expect_transaction p number i tx) (\<lambda>p'. expect_all number (Suc i) txs p')"

fun verify_preceding_block_transactions ::
    "alloy \<Rightarrow> nat \<Rightarrow> nat \<Rightarrow> (u64 \<times> eth_block) list \<Rightarrow> nat \<Rightarrow> da_payload \<Rightarrow> da_payload_error + nat \<times> da_payload" where
  "verify_preceding_block_transactions A expected_blocks k [] transaction_count p = Inr (transaction_count, p)"
| "verify_preceding_block_transactions A expected_blocks k ((number, block) # bs) transaction_count p =
     and_then (da_block_count p expected_blocks k) (\<lambda>submitted_count.
     and_then (verify_header_inputs p k number block) (\<lambda>_.
     let validated_count = length (blk_transactions block) in
     if submitted_count \<noteq> validated_count
     then Inl (ProjectedTransactionCount number submitted_count validated_count)
     else and_then (expect_all number 0 (encoded_transactions A block) p) (\<lambda>p'.
       verify_preceding_block_transactions A expected_blocks (Suc k) bs
         (saturating_add_usize transaction_count validated_count) p')))"

fun expect_retained :: "u64 \<Rightarrow> nat \<Rightarrow> bytes list \<Rightarrow> nat list \<Rightarrow> da_payload \<Rightarrow> da_payload_error + nat list \<times> da_payload" where
  "expect_retained number i [] omitted p = Inr (omitted, p)"
| "expect_retained number i (tx # txs) omitted p =
     (if omitted \<noteq> [] \<and> hd omitted = i then expect_retained number (Suc i) txs (tl omitted) p
      else and_then (expect_transaction p number i tx) (\<lambda>p'. expect_retained number (Suc i) txs omitted p'))"

record settling_verification =
  sv_encoded_transactions :: "bytes list"
  sv_retained_count :: nat
  sv_requires_reconstruction :: bool

definition verify_settling_block_transactions ::
    "alloy \<Rightarrow> u64 \<Rightarrow> eth_block \<Rightarrow> nat \<Rightarrow> authorized_outbound_effect list \<Rightarrow> authorized_inbound_effect list \<Rightarrow> nat
     \<Rightarrow> da_payload \<Rightarrow> da_payload_error + settling_verification \<times> da_payload" where
  "verify_settling_block_transactions A number block expected_blocks outbound inbound omitted_count p =
     and_then (da_block_count p expected_blocks (expected_blocks - 1)) (\<lambda>submitted_count.
     and_then (verify_header_inputs p (expected_blocks - 1) number block) (\<lambda>_.
     let validated_count = length (blk_transactions block) in
     if validated_count < omitted_count then Inl InvalidEffectTransactionLayout
     else let retained_count = validated_count - omitted_count in
       if submitted_count \<noteq> retained_count
       then Inl (ProjectedTransactionCount number submitted_count retained_count)
       else let requires_reconstruction = (omitted_count \<noteq> 0);
                omitted = map ao_load_index outbound @ map ai_transaction_index inbound in
         and_then (expect_retained number 0 (encoded_transactions A block) omitted p) (\<lambda>(left, p').
         if left \<noteq> [] then Inl InvalidEffectTransactionLayout
         else Inr (\<lparr>sv_encoded_transactions = (if requires_reconstruction then encoded_transactions A block else []),
                    sv_retained_count = retained_count, sv_requires_reconstruction = requires_reconstruction\<rparr>, p'))))"

section \<open>Sidecars\<close>

definition rebuild_action :: "alloy \<Rightarrow> da_payload \<Rightarrow> u64 \<Rightarrow> nat \<Rightarrow> nat \<Rightarrow> da_payload_error + execution_entry" where
  "rebuild_action A p rollup entry_index transaction_index =
     and_then (ok_or (MissingAction entry_index transaction_index) (get (da_actions p) entry_index)) (\<lambda>action.
     map_err (UnrebuildableAction entry_index rollup) (entry_from_action A action rollup))"

fun outbound_sidecars ::
    "alloy \<Rightarrow> da_payload \<Rightarrow> u64 \<Rightarrow> nat \<Rightarrow> authorized_outbound_effect list \<Rightarrow> da_payload_error + execution_entry list" where
  "outbound_sidecars A p rollup i [] = Inr []"
| "outbound_sidecars A p rollup i (ao # aos) =
     and_then (rebuild_action A p rollup i (ao_transaction_index ao)) (\<lambda>rebuilt.
     let expected = derived_outbound_entry ao (returnData rebuilt) in
     if encode_entry A rebuilt \<noteq> encode_entry A expected then Inl (ActionMismatch i (ao_transaction_index ao))
     else and_then (map_err (RollingHashMismatch i (ao_transaction_index ao)) (bind_return_data A ao (returnData rebuilt))) (\<lambda>_.
     and_then (outbound_sidecars A p rollup (Suc i) aos) (\<lambda>es. Inr (expected # es))))"

fun inbound_sidecars ::
    "alloy \<Rightarrow> da_payload \<Rightarrow> u64 \<Rightarrow> nat \<Rightarrow> authorized_inbound_effect list \<Rightarrow> da_payload_error + unit" where
  "inbound_sidecars A p rollup i [] = Inr ()"
| "inbound_sidecars A p rollup i (ai # ais) =
     and_then (rebuild_action A p rollup i (ai_transaction_index ai)) (\<lambda>rebuilt.
     if encode_entry A rebuilt \<noteq> encoded A (derived_da_entry (ai_observation ai))
     then Inl (ActionMismatch i (ai_transaction_index ai))
     else inbound_sidecars A p rollup (Suc i) ais)"

definition verify_effect_sidecars ::
    "alloy \<Rightarrow> da_payload \<Rightarrow> authorized_outbound_effect list \<Rightarrow> authorized_inbound_effect list \<Rightarrow> nat \<Rightarrow> u64
     \<Rightarrow> da_payload_error + execution_entry list" where
  "verify_effect_sidecars A p outbound inbound expected_count rollup =
     and_then (outbound_sidecars A p rollup 0 outbound) (\<lambda>outbound_entries.
     and_then (inbound_sidecars A p rollup (length outbound_entries) inbound) (\<lambda>_.
     if length (da_actions p) \<noteq> expected_count then Inl (UnexpectedItems ''actions'' expected_count)
     else Inr outbound_entries))"

section \<open>Reconstruction\<close>

definition reconstructor_new :: "u64 \<Rightarrow> u64 \<Rightarrow> system_tx_context" where
  "reconstructor_new chain_id rollup =
     \<lparr>eezl2_address = EEZL2_ADDRESS, l2_chain_id = chain_id, this_rollup_id = rollup\<rparr>"

fun first_mismatch :: "nat \<Rightarrow> bytes list \<Rightarrow> bytes list \<Rightarrow> nat option" where
  "first_mismatch i (x # xs) (y # ys) = (if x \<noteq> y then Some i else first_mismatch (Suc i) xs ys)"
| "first_mismatch i _ _ = None"

definition user_inputs ::
    "bytes list \<Rightarrow> authorized_outbound_effect list \<Rightarrow> execution_entry list \<Rightarrow> da_payload_error + (execution_entry \<times> bytes) list" where
  "user_inputs validated outbound es =
     map_result (\<lambda>(ao, e). and_then (ok_or InvalidEffectTransactionLayout (get validated (ao_transaction_index ao)))
       (\<lambda>user. Inr (e, user))) (zip outbound es)"

definition verify_reconstructed_sync_block ::
    "alloy \<Rightarrow> eth_block \<Rightarrow> bytes list \<Rightarrow> authorized_outbound_effect list \<Rightarrow> execution_entry list
     \<Rightarrow> authorized_inbound_effect list \<Rightarrow> system_tx_context \<Rightarrow> da_payload_error + unit" where
  "verify_reconstructed_sync_block A block validated outbound outbound_entries inbound cfg =
     and_then (ok_or InvalidEffectTransactionLayout
       (case outbound of ao # _ \<Rightarrow> Some (ao_load_index ao)
        | [] \<Rightarrow> (case inbound of ai # _ \<Rightarrow> Some (ai_transaction_index ai) | [] \<Rightarrow> None))) (\<lambda>first_system_position.
     and_then (ok_or InvalidEffectTransactionLayout (get (blk_transactions block) first_system_position)) (\<lambda>first_tx.
     and_then (user_inputs validated outbound outbound_entries) (\<lambda>outbound_inputs.
     let inbound_entries = map (\<lambda>ai. as_abi_entry (derived_da_entry (ai_observation ai))) inbound in
     and_then (map_err SystemTransactionReconstruction
       (build_cross_chain_sync_pairs A outbound_inputs inbound_entries cfg (tx_nonce first_tx))) (\<lambda>pairs.
     let reconstructed = interleave_sync_block_txs pairs in
     if length reconstructed \<noteq> length validated
     then Inl (SyncBlockTransactionCount (length reconstructed) (length validated))
     else case first_mismatch 0 validated reconstructed of
       Some i \<Rightarrow> Inl (SyncBlockTransactionMismatch i)
     | None \<Rightarrow> Inr ()))))"

definition verify_encoded_da_payload ::
    "alloy \<Rightarrow> bytes \<Rightarrow> (u64 \<times> eth_block) list \<Rightarrow> u64 \<times> eth_block \<Rightarrow> authorized_outbound_effect list
     \<Rightarrow> authorized_inbound_effect list \<Rightarrow> system_tx_context \<Rightarrow> u64 \<Rightarrow> da_payload_error + unit" where
  "verify_encoded_da_payload A payload intermediate settling outbound inbound cfg rollup =
     and_then (da_payload_decode payload rollup) (\<lambda>p.
     let expected_blocks = length intermediate + 1;
         omitted_count = length outbound + length inbound in
     if omitted_count \<ge> 2 ^ 64 then Inl InvalidEffectTransactionLayout
     else and_then (verify_preceding_block_transactions A expected_blocks 0 intermediate 0 p) (\<lambda>(preceding_count, p').
       and_then (verify_settling_block_transactions A (fst settling) (snd settling) expected_blocks outbound inbound
         omitted_count p') (\<lambda>(sv, p'').
       and_then (transactions_exhausted p'' (saturating_add_usize preceding_count (sv_retained_count sv))) (\<lambda>_.
       and_then (verify_effect_sidecars A p'' outbound inbound omitted_count rollup) (\<lambda>outbound_entries.
       if sv_requires_reconstruction sv
       then verify_reconstructed_sync_block A (snd settling) (sv_encoded_transactions sv) outbound outbound_entries
         inbound cfg
       else Inr ())))))"

definition verify_da_payload ::
    "alloy \<Rightarrow> evm_batch \<Rightarrow> validated_window \<Rightarrow> authorized_outbound_effect list \<Rightarrow> authorized_inbound_effect list
     \<Rightarrow> system_tx_context \<Rightarrow> u64 \<Rightarrow> da_payload_error + unit" where
  "verify_da_payload A batch w outbound inbound cfg rollup =
     verify_encoded_da_payload A (batch_callData batch)
       (map (\<lambda>v. (vb_number v, vb_decoded v)) (preceding_blocks w))
       (vb_number (settling_block w), vb_decoded (settling_block w)) outbound inbound cfg rollup"

section \<open>What the cursor has consumed\<close>

lemma drop_Cons_nth: "(\<exists>r. drop n xs = x # r) \<longleftrightarrow> n < length xs \<and> xs ! n = x"
  by (metis Cons_nth_drop_Suc drop_all list.discI list.inject not_le_imp_less)

lemma drop_eq_Cons: "drop n xs = x # r \<longleftrightarrow> n < length xs \<and> xs ! n = x \<and> drop (Suc n) xs = r"
  by (metis Cons_nth_drop_Suc drop_Cons_nth list.inject)

lemma expect_transaction_Inr:
  "expect_transaction p n i tx = Inr p' \<longleftrightarrow> (\<exists>r. drop (next_transaction p) (span_transactions (da_span p)) = tx # r)
     \<and> p' = p\<lparr>next_transaction := Suc (next_transaction p)\<rparr>"
  unfolding drop_Cons_nth by (auto simp: expect_transaction_def Let_def if_Inl_eq_Inr get_def)

lemma expect_all_Inr:
  "expect_all n i txs p = Inr p' \<longleftrightarrow>
     (\<exists>rest. drop (next_transaction p) (span_transactions (da_span p)) = txs @ rest)
     \<and> p' = p\<lparr>next_transaction := next_transaction p + length txs\<rparr>"
proof (induction txs arbitrary: i p)
  case (Cons tx txs)
  show ?case
    by (auto simp: and_then_eq_Inr expect_transaction_Inr Cons.IH drop_eq_Cons)
qed auto

fun retained :: "nat \<Rightarrow> nat list \<Rightarrow> 'a list \<Rightarrow> 'a list" where
  "retained i omitted [] = []"
| "retained i omitted (x # xs) =
     (if omitted \<noteq> [] \<and> hd omitted = i then retained (Suc i) (tl omitted) xs else x # retained (Suc i) omitted xs)"

fun unclaimed :: "nat \<Rightarrow> nat list \<Rightarrow> 'a list \<Rightarrow> nat list" where
  "unclaimed i omitted [] = omitted"
| "unclaimed i omitted (x # xs) = unclaimed (Suc i) (if omitted \<noteq> [] \<and> hd omitted = i then tl omitted else omitted) xs"

lemma expect_retained_Inr:
  "expect_retained n i txs omitted p = Inr (left, p') \<longleftrightarrow>
     (\<exists>rest. drop (next_transaction p) (span_transactions (da_span p)) = retained i omitted txs @ rest)
     \<and> p' = p\<lparr>next_transaction := next_transaction p + length (retained i omitted txs)\<rparr> \<and> left = unclaimed i omitted txs"
proof (induction txs arbitrary: i omitted p)
  case (Cons tx txs)
  show ?case
    by (auto simp: and_then_eq_Inr expect_transaction_Inr Cons.IH drop_eq_Cons)
qed auto

text \<open>Once every omitted position has been met, what is retained is the rest of the block.\<close>

lemma retained_positions:
  assumes "unclaimed i omitted xs = []" "sorted_wrt (<) omitted" "\<forall>j \<in> set omitted. i \<le> j"
  shows "set omitted \<subseteq> {i..<i + length xs}"
    and "retained i omitted xs = map (\<lambda>j. xs ! (j - i)) (filter (\<lambda>j. j \<notin> set omitted) [i..<i + length xs])"
  using assms
proof (induction xs arbitrary: i omitted)
  case (Cons x xs)
  have upt: "[i..<i + length (x # xs)] = i # [Suc i..<Suc i + length xs]" for i by (simp add: upt_conv_Cons del: upt_Suc)
  have nth: "map (\<lambda>j. (x # xs) ! (j - i)) (filter P [Suc i..<Suc i + length xs])
      = map (\<lambda>j. xs ! (j - Suc i)) (filter P [Suc i..<Suc i + length xs])" for P i
    by (auto simp: nth_Cons' Suc_diff_le simp del: upt_Suc)
  { case 1
    show ?case
    proof (cases "omitted \<noteq> [] \<and> hd omitted = i")
      case True
      then obtain os where "omitted = i # os" by (cases omitted) auto
      with 1 Cons.IH(1)[of "Suc i" os] show ?thesis by (auto simp: Suc_le_eq)
    next
      case False
      with 1 have "\<forall>j \<in> set omitted. Suc i \<le> j" by (cases omitted) (auto simp: Suc_le_eq)
      with False 1 Cons.IH(1)[of "Suc i" omitted] show ?thesis by (fastforce split: if_splits)
    qed }
  { case 2
    show ?case
    proof (cases "omitted \<noteq> [] \<and> hd omitted = i")
      case True
      then obtain os where os: "omitted = i # os" by (cases omitted) auto
      with 2 have "i \<notin> set os" by auto
      have skip: "filter (\<lambda>j. j \<notin> set omitted) (i # ys) = filter (\<lambda>j. j \<notin> set os) ys" if "\<forall>j \<in> set ys. i < j" for ys
        unfolding os using that by simp (rule filter_cong, auto)
      have "filter (\<lambda>j. j \<notin> set omitted) [i..<i + length (x # xs)]
          = filter (\<lambda>j. j \<notin> set os) [Suc i..<Suc i + length xs]"
        unfolding upt by (rule skip) auto
      moreover have "retained i omitted (x # xs) = retained (Suc i) os xs" using os by simp
      ultimately show ?thesis using os 2 Cons.IH(2)[of "Suc i" os] nth[of i "\<lambda>j. j \<notin> set os"]
        by (simp add: Suc_le_eq del: upt_Suc)
    next
      case False
      with 2 have le: "\<forall>j \<in> set omitted. Suc i \<le> j" by (cases omitted) (auto simp: Suc_le_eq)
      then have "i \<notin> set omitted" by auto
      moreover have "retained i omitted (x # xs) = x # retained (Suc i) omitted xs" "unclaimed (Suc i) omitted xs = []"
        using False 2 by (auto split: if_splits)
      ultimately show ?thesis using 2 le Cons.IH(2)[of "Suc i" omitted] nth[of i "\<lambda>j. j \<notin> set omitted"] unfolding upt
        by (simp del: upt_Suc)
    qed }
qed simp_all

section \<open>What the payload publishes\<close>

text \<open>The inputs of one block that derivation needs: beneficiary, extra data and transaction bytes.\<close>

type_synonym block_inputs = "bytes \<times> bytes \<times> bytes list"

definition block_inputs :: "alloy \<Rightarrow> eth_block \<Rightarrow> block_inputs" where
  "block_inputs A block = (be_bytes 20 (hdr_beneficiary (blk_header block)), hdr_extra_data (blk_header block),
     encoded_transactions A block)"

definition tx_offset :: "decoded_span \<Rightarrow> nat \<Rightarrow> nat" where
  "tx_offset span k = sum_list (map unat (take k (block_tx_counts span)))"

definition published_txs :: "decoded_span \<Rightarrow> nat \<Rightarrow> bytes list" where
  "published_txs span k = take (unat (block_tx_counts span ! k)) (drop (tx_offset span k) (span_transactions span))"

definition published_block :: "decoded_span \<Rightarrow> nat \<Rightarrow> block_inputs" where
  "published_block span k = (beneficiaries span ! k, extra_datas span ! k, published_txs span k)"

text \<open>The window a follower rebuilds from the payload and the nonce of the first system transaction.\<close>

definition rebuilt_blocks :: "alloy \<Rightarrow> system_tx_context \<Rightarrow> u64 \<Rightarrow> u64 \<Rightarrow> bytes \<Rightarrow> block_inputs list option" where
  "rebuilt_blocks A cfg rollup nonce payload =
     (case da_payload_decode payload rollup of Inl _ \<Rightarrow> None
      | Inr p \<Rightarrow>
        let span = da_span p; last = block_count span - 1; users = published_txs span last in
        case map_result (\<lambda>a. entry_from_action A a rollup) (da_actions p) of Inl _ \<Rightarrow> None
        | Inr es \<Rightarrow>
          if es = [] then Some (map (published_block span) [0..<block_count span])
          else case build_cross_chain_sync_pairs A (zip (take (length users) es) users) (drop (length users) es) cfg nonce
            of Inl _ \<Rightarrow> None
            | Inr pairs \<Rightarrow> Some (map (published_block span) [0..<last]
                @ [(beneficiaries span ! last, extra_datas span ! last, interleave_sync_block_txs pairs)]))"

lemma da_block_count_Inr:
  "da_block_count p n k = Inr c \<longleftrightarrow> block_count (da_span p) = n \<and> k < length (block_tx_counts (da_span p))
     \<and> c = unat (block_tx_counts (da_span p) ! k)"
  by (auto simp: da_block_count_def Let_def if_Inl_eq_Inr get_def)

lemma verify_header_inputs_Inr:
  "verify_header_inputs p k n b = Inr () \<longleftrightarrow> k < length (beneficiaries (da_span p)) \<and> k < length (extra_datas (da_span p))
     \<and> beneficiaries (da_span p) ! k = be_bytes 20 (hdr_beneficiary (blk_header b))
     \<and> extra_datas (da_span p) ! k = hdr_extra_data (blk_header b)"
  by (auto simp: verify_header_inputs_def if_Inl_eq_Inr and_then_eq_Inr get_def)

lemma tx_offset_Suc:
  "k < length (block_tx_counts span) \<Longrightarrow> tx_offset span (Suc k) = tx_offset span k + unat (block_tx_counts span ! k)"
  by (simp add: tx_offset_def take_Suc_conv_app_nth)

lemma preceding_step:
  assumes run: "verify_preceding_block_transactions A n k ((number, block) # bs) c p = Inr r"
    and at: "next_transaction p = tx_offset (da_span p) k"
  shows "block_inputs A block = published_block (da_span p) k"
    and "\<exists>c'. verify_preceding_block_transactions A n (Suc k) bs c'
      (p\<lparr>next_transaction := tx_offset (da_span p) (Suc k)\<rparr>) = Inr r"
proof -
  let ?txs = "encoded_transactions A block"
  have len: "length ?txs = length (blk_transactions block)" by (simp add: encoded_transactions_def)
  from run len have cnt: "k < length (block_tx_counts (da_span p))" "unat (block_tx_counts (da_span p) ! k) = length ?txs"
    and hdr: "verify_header_inputs p k number block = Inr ()"
    and pre: "\<exists>rest. drop (next_transaction p) (span_transactions (da_span p)) = ?txs @ rest"
    and rec: "verify_preceding_block_transactions A n (Suc k) bs
      (saturating_add_usize c (length (blk_transactions block))) (p\<lparr>next_transaction := next_transaction p + length ?txs\<rparr>) = Inr r"
    by (auto simp: and_then_eq_Inr da_block_count_Inr Let_def if_Inl_eq_Inr expect_all_Inr)
  show "block_inputs A block = published_block (da_span p) k"
    using pre hdr cnt at by (auto simp: block_inputs_def published_block_def published_txs_def verify_header_inputs_Inr)
  have "next_transaction p + length ?txs = tx_offset (da_span p) (Suc k)" using cnt at by (simp add: tx_offset_Suc)
  with rec show "\<exists>c'. verify_preceding_block_transactions A n (Suc k) bs c'
      (p\<lparr>next_transaction := tx_offset (da_span p) (Suc k)\<rparr>) = Inr r" by auto
qed

lemma preceding_published:
  assumes "verify_preceding_block_transactions A n k bs c p = Inr (c', p')"
    and "next_transaction p = tx_offset (da_span p) k"
  shows "map (\<lambda>b. block_inputs A (snd b)) bs = map (published_block (da_span p)) [k..<k + length bs]
    \<and> p' = p\<lparr>next_transaction := tx_offset (da_span p) (k + length bs)\<rparr>"
  using assms
proof (induction bs arbitrary: k c p)
  case Nil
  then show ?case by simp
next
  case (Cons b bs)
  obtain number block where b: "b = (number, block)" by (cases b)
  note st = preceding_step[OF Cons.prems[unfolded b]]
  from st(2) obtain d where "verify_preceding_block_transactions A n (Suc k) bs d
      (p\<lparr>next_transaction := tx_offset (da_span p) (Suc k)\<rparr>) = Inr (c', p')" ..
  from Cons.IH[OF this] show ?case using st(1) by (simp add: b upt_conv_Cons del: upt_Suc)
qed

section \<open>The layout of the settling block\<close>

text \<open>
  The positions of authorized effects: each outbound load directly precedes its user transaction and all
  positions ascend, outbound before inbound. When these positions are as many as the transactions of the block,
  they are all of its positions.
\<close>

definition effect_positions :: "authorized_outbound_effect list \<Rightarrow> authorized_inbound_effect list \<Rightarrow> nat list" where
  "effect_positions outs ins = concat (map (\<lambda>ao. [ao_load_index ao, ao_transaction_index ao]) outs)
     @ map ai_transaction_index ins"

definition effect_layout :: "authorized_outbound_effect list \<Rightarrow> authorized_inbound_effect list \<Rightarrow> bool" where
  "effect_layout outs ins \<longleftrightarrow> sorted_wrt (<) (effect_positions outs ins)"

lemma length_effect_positions: "length (effect_positions outs ins) = 2 * length outs + length ins"
  by (induction outs) (simp_all add: effect_positions_def)

lemma set_effect_positions:
  "set (effect_positions outs ins) = ao_load_index ` set outs \<union> ao_transaction_index ` set outs \<union> ai_transaction_index ` set ins"
  by (auto simp: effect_positions_def)

lemma sorted_concat_pairs:
  fixes f g :: "'a \<Rightarrow> nat"
  assumes "sorted_wrt (<) (concat (map (\<lambda>x. [f x, g x]) xs) @ ys)"
  shows "sorted_wrt (<) (map f xs @ ys)" and "sorted_wrt (<) (map g xs)" and "f ` set xs \<inter> g ` set xs = {}"
    and "g ` set xs \<inter> set ys = {}"
proof -
  have "sorted_wrt (<) (map f xs @ ys) \<and> sorted_wrt (<) (map g xs) \<and> f ` set xs \<inter> g ` set xs = {} \<and> g ` set xs \<inter> set ys = {}"
    using assms
  proof (induction xs)
    case (Cons x xs)
    let ?ps = "concat (map (\<lambda>x. [f x, g x]) xs)"
    have srt: "sorted_wrt (<) (?ps @ ys)" and below: "f x < g x" "\<forall>z \<in> set (?ps @ ys). f x < z" "\<forall>z \<in> set (?ps @ ys). g x < z"
      using Cons.prems by auto
    have mem: "set ?ps = f ` set xs \<union> g ` set xs" by auto
    note IH = Cons.IH[OF srt]
    have "f x \<notin> g ` set xs" "g x \<notin> f ` set xs" "g x \<notin> set ys" "f x \<noteq> g x"
      using below unfolding set_append mem by (auto dest: less_imp_neq)
    with IH have "f ` set (x # xs) \<inter> g ` set (x # xs) = {}" "g ` set (x # xs) \<inter> set ys = {}" by auto
    moreover have "sorted_wrt (<) (map f (x # xs) @ ys)" "sorted_wrt (<) (map g (x # xs))"
      using IH below unfolding set_append mem by auto
    ultimately show ?case by blast
  qed (simp_all add: sorted_wrt_append)
  then show "sorted_wrt (<) (map f xs @ ys)" "sorted_wrt (<) (map g xs)" "f ` set xs \<inter> g ` set xs = {}"
    "g ` set xs \<inter> set ys = {}" by blast+
qed

lemma ascending_all:
  assumes "sorted_wrt (<) ps" "set ps \<subseteq> {..<n}" "n \<le> length ps"
  shows "ps = [0..<n]"
proof -
  have "distinct ps" using assms(1) unfolding strict_sorted_iff by (rule conjunct2)
  then have "card (set ps) = length ps" by (rule distinct_card)
  moreover have "card (set ps) \<le> card {..<n}" using assms(2) by (rule card_mono[rotated]) (rule finite_lessThan)
  ultimately have "card (set ps) = card {..<n}" using assms(3) unfolding card_lessThan by linarith
  then have "set ps = {..<n}" by (rule card_subset_eq[OF finite_lessThan assms(2)])
  then have "set ps = set [0..<n]" unfolding set_upt atLeast0LessThan .
  then show ?thesis by (rule strict_sorted_equal[OF sorted_wrt_upt assms(1)])
qed

lemma full_layout:
  assumes lay: "effect_layout outs ins" and un: "unclaimed 0 (map ao_load_index outs @ map ai_transaction_index ins) xs = []"
    and tx: "\<forall>ao \<in> set outs. ao_transaction_index ao < length xs" and le: "length xs \<le> 2 * length outs + length ins"
  shows "effect_positions outs ins = [0..<length xs]"
    and "retained 0 (map ao_load_index outs @ map ai_transaction_index ins) xs = map (\<lambda>ao. xs ! ao_transaction_index ao) outs"
proof -
  let ?om = "map ao_load_index outs @ map ai_transaction_index ins" and ?tx = "map ao_transaction_index outs"
  note lay = sorted_concat_pairs[OF lay[unfolded effect_layout_def effect_positions_def]]
  have "\<forall>j \<in> set ?om. 0 \<le> j" by simp
  note ret = retained_positions[OF un lay(1) this, unfolded add_0 diff_zero]
  have om: "set ?om = ao_load_index ` set outs \<union> ai_transaction_index ` set ins" by simp
  have "set ?om \<subseteq> {..<length xs}" using ret(1) by (simp add: atLeast0LessThan del: set_append set_map)
  then have "set (effect_positions outs ins) \<subseteq> {..<length xs}"
    unfolding set_effect_positions om using tx by blast
  then show all: "effect_positions outs ins = [0..<length xs]"
    using assms(1) le by (intro ascending_all) (simp_all add: effect_layout_def length_effect_positions)
  have "set (effect_positions outs ins) = {0..<length xs}" unfolding all by simp
  then have "set (filter (\<lambda>j. j \<notin> set ?om) [0..<length xs]) = set (effect_positions outs ins) - set ?om"
    by (simp only: set_filter set_upt) blast
  also have "\<dots> = set ?tx" using lay(3,4) unfolding set_effect_positions om set_map by blast
  finally have "filter (\<lambda>j. j \<notin> set ?om) [0..<length xs] = ?tx"
    by (rule strict_sorted_equal[OF lay(2) sorted_wrt_filter[OF sorted_wrt_upt]])
  then show "retained 0 ?om xs = map (\<lambda>ao. xs ! ao_transaction_index ao) outs"
    unfolding ret(2) by (simp only: map_map comp_def)
qed

section \<open>Sidecars rebuild the authorized entries\<close>

lemma rebuild_action_Inr:
  "rebuild_action A p r i t = Inr e \<longleftrightarrow> (\<exists>a as. drop i (da_actions p) = a # as \<and> entry_from_action A a r = Inr e)"
  unfolding drop_eq_Cons by (auto simp: rebuild_action_def and_then_eq_Inr get_def)

definition outbound_matches :: "alloy \<Rightarrow> authorized_outbound_effect \<Rightarrow> execution_entry \<Rightarrow> bool" where
  "outbound_matches A ao e \<longleftrightarrow> encode_entry A e = encode_entry A (derived_outbound_entry ao (returnData e))
     \<and> bind_return_data A ao (returnData e) = Inr ()"

definition inbound_matches :: "alloy \<Rightarrow> authorized_inbound_effect \<Rightarrow> execution_entry \<Rightarrow> bool" where
  "inbound_matches A ai e \<longleftrightarrow> encode_entry A e = encode_entry A (as_abi_entry (derived_da_entry (ai_observation ai)))"

lemma outbound_sidecars_Inr:
  "outbound_sidecars A p r i outs = Inr E \<longleftrightarrow>
     (\<exists>es. map_result (\<lambda>a. entry_from_action A a r) (take (length outs) (drop i (da_actions p))) = Inr es
       \<and> list_all2 (outbound_matches A) outs es
       \<and> E = map2 (\<lambda>ao e. derived_outbound_entry ao (returnData e)) outs es)"
proof (induction outs arbitrary: i E)
  case (Cons ao outs)
  show ?case
  proof (cases "drop i (da_actions p)")
    case Nil
    then show ?thesis by (auto simp: and_then_eq_Inr rebuild_action_Inr)
  next
    case (Cons a as)
    then have as: "drop (Suc i) (da_actions p) = as" by (simp add: drop_eq_Cons)
    show ?thesis
      by (auto simp: and_then_eq_Inr rebuild_action_Inr Cons as Cons.IH Let_def if_Inl_eq_Inr outbound_matches_def list_all2_Cons1)
  qed
qed auto

lemma inbound_sidecars_Inr:
  "inbound_sidecars A p r i ins = Inr () \<longleftrightarrow>
     (\<exists>es. map_result (\<lambda>a. entry_from_action A a r) (take (length ins) (drop i (da_actions p))) = Inr es
       \<and> list_all2 (inbound_matches A) ins es)"
proof (induction ins arbitrary: i)
  case (Cons ai ins)
  show ?case
  proof (cases "drop i (da_actions p)")
    case Nil
    then show ?thesis by (auto simp: and_then_eq_Inr rebuild_action_Inr)
  next
    case (Cons a as)
    then have as: "drop (Suc i) (da_actions p) = as" by (simp add: drop_eq_Cons)
    show ?thesis
      by (auto simp: and_then_eq_Inr rebuild_action_Inr Cons as Cons.IH Let_def if_Inl_eq_Inr inbound_matches_def
          encoded_def list_all2_Cons1)
  qed
qed auto

lemma map_result_append:
  "map_result f (xs @ ys) = Inr zs \<longleftrightarrow> (\<exists>us vs. map_result f xs = Inr us \<and> map_result f ys = Inr vs \<and> zs = us @ vs)"
  unfolding map_result_Inr_iff list_all2_append1 by (metis list_all2_lengthD)

lemma verify_effect_sidecars_Inr:
  "verify_effect_sidecars A p outs ins (length outs + length ins) r = Inr E \<longleftrightarrow>
     (\<exists>es fs. map_result (\<lambda>a. entry_from_action A a r) (da_actions p) = Inr (es @ fs)
       \<and> list_all2 (outbound_matches A) outs es \<and> list_all2 (inbound_matches A) ins fs
       \<and> E = map2 (\<lambda>ao e. derived_outbound_entry ao (returnData e)) outs es)"
proof
  assume run: "verify_effect_sidecars A p outs ins (length outs + length ins) r = Inr E"
  then have len: "length (da_actions p) = length outs + length ins"
    and o: "outbound_sidecars A p r 0 outs = Inr E" and i: "inbound_sidecars A p r (length E) ins = Inr ()"
    by (auto simp: verify_effect_sidecars_def and_then_eq_Inr if_Inl_eq_Inr)
  from o obtain es where es: "map_result (\<lambda>a. entry_from_action A a r) (take (length outs) (da_actions p)) = Inr es"
    "list_all2 (outbound_matches A) outs es" and E: "E = map2 (\<lambda>ao e. derived_outbound_entry ao (returnData e)) outs es"
    by (auto simp: outbound_sidecars_Inr)
  then have "length E = length outs" by (simp add: list_all2_lengthD)
  with i len obtain fs where "map_result (\<lambda>a. entry_from_action A a r) (drop (length outs) (da_actions p)) = Inr fs"
    "list_all2 (inbound_matches A) ins fs"
    by (auto simp: inbound_sidecars_Inr)
  with es E have "map_result (\<lambda>a. entry_from_action A a r) (take (length outs) (da_actions p) @ drop (length outs) (da_actions p)) = Inr (es @ fs)"
    unfolding map_result_append by blast
  with es(2) E \<open>list_all2 (inbound_matches A) ins fs\<close>
  show "\<exists>es fs. map_result (\<lambda>a. entry_from_action A a r) (da_actions p) = Inr (es @ fs)
       \<and> list_all2 (outbound_matches A) outs es \<and> list_all2 (inbound_matches A) ins fs
       \<and> E = map2 (\<lambda>ao e. derived_outbound_entry ao (returnData e)) outs es" by auto
next
  assume "\<exists>es fs. map_result (\<lambda>a. entry_from_action A a r) (da_actions p) = Inr (es @ fs)
       \<and> list_all2 (outbound_matches A) outs es \<and> list_all2 (inbound_matches A) ins fs
       \<and> E = map2 (\<lambda>ao e. derived_outbound_entry ao (returnData e)) outs es"
  then obtain es fs as bs where m: "list_all2 (outbound_matches A) outs es" "list_all2 (inbound_matches A) ins fs"
    "E = map2 (\<lambda>ao e. derived_outbound_entry ao (returnData e)) outs es" and acts: "da_actions p = as @ bs"
    "map_result (\<lambda>a. entry_from_action A a r) as = Inr es" "map_result (\<lambda>a. entry_from_action A a r) bs = Inr fs"
    unfolding map_result_Inr_iff list_all2_append2 by blast
  then have len: "length as = length outs" "length bs = length ins" "length E = length outs"
    by (auto dest!: list_all2_lengthD map_result_length)
  then have "outbound_sidecars A p r 0 outs = Inr E" "inbound_sidecars A p r (length E) ins = Inr ()"
    using m acts by (auto simp: outbound_sidecars_Inr inbound_sidecars_Inr)
  with len acts show "verify_effect_sidecars A p outs ins (length outs + length ins) r = Inr E"
    by (simp add: verify_effect_sidecars_def)
qed

section \<open>Reconstruction reproduces the block\<close>

lemma first_mismatch_None:
  "length xs = length ys \<Longrightarrow> first_mismatch i xs ys = None \<longleftrightarrow> xs = ys"
  by (induction xs ys arbitrary: i rule: list_induct2) auto

lemma compare_blocks_Inr:
  "(if length ys \<noteq> length xs then Inl (SyncBlockTransactionCount (length ys) (length xs))
    else case first_mismatch 0 xs ys of Some i \<Rightarrow> Inl (SyncBlockTransactionMismatch i) | None \<Rightarrow> Inr ()) = Inr () \<longleftrightarrow> xs = ys"
  using first_mismatch_None[of xs ys 0] by (auto split: option.splits)

lemma get_eq_Some: "get xs i = Some x \<longleftrightarrow> i < length xs \<and> x = xs ! i"
  by (auto simp: get_def)

lemma user_inputs_Inr:
  "user_inputs encs outs E = Inr us \<longleftrightarrow> (\<forall>(ao, e) \<in> set (zip outs E). ao_transaction_index ao < length encs)
     \<and> us = map2 (\<lambda>ao e. (e, encs ! ao_transaction_index ao)) outs E"
proof -
  have "map_result (\<lambda>(ao, e). and_then (ok_or InvalidEffectTransactionLayout (get encs (ao_transaction_index ao)))
       (\<lambda>user. Inr (e, user))) zs = Inr us \<longleftrightarrow> (\<forall>(ao, e) \<in> set zs. ao_transaction_index ao < length encs)
     \<and> us = map (\<lambda>(ao, e). (e, encs ! ao_transaction_index ao)) zs" for zs :: "(authorized_outbound_effect \<times> execution_entry) list"
    by (induction zs arbitrary: us) (auto simp: and_then_eq_Inr get_def split: prod.splits)
  then show ?thesis unfolding user_inputs_def .
qed

definition first_system_position :: "authorized_outbound_effect list \<Rightarrow> authorized_inbound_effect list \<Rightarrow> nat option" where
  "first_system_position outs ins = (case outs of ao # _ \<Rightarrow> Some (ao_load_index ao)
     | [] \<Rightarrow> (case ins of ai # _ \<Rightarrow> Some (ai_transaction_index ai) | [] \<Rightarrow> None))"

lemma first_system_position_hd:
  "first_system_position outs ins = Some i \<longleftrightarrow> effect_positions outs ins \<noteq> [] \<and> i = hd (effect_positions outs ins)"
  by (cases outs; cases ins) (auto simp: first_system_position_def effect_positions_def)

lemma verify_reconstructed_Inr:
  "verify_reconstructed_sync_block A block encs outs E ins cfg = Inr () \<longleftrightarrow>
     (\<exists>i us pairs. first_system_position outs ins = Some i \<and> i < length (blk_transactions block)
       \<and> user_inputs encs outs E = Inr us
       \<and> build_cross_chain_sync_pairs A us (map (\<lambda>ai. as_abi_entry (derived_da_entry (ai_observation ai))) ins) cfg
           (tx_nonce (blk_transactions block ! i)) = Inr pairs
       \<and> encs = interleave_sync_block_txs pairs)"
  unfolding verify_reconstructed_sync_block_def first_system_position_def[symmetric] Let_def and_then_eq_Inr
    compare_blocks_Inr map_err_eq_Inr ok_or_eq_Inr get_eq_Some
  by blast

section \<open>The accepted payload\<close>

definition rebuilt_entries :: "alloy \<Rightarrow> u64 \<Rightarrow> bytes \<Rightarrow> execution_entry set" where
  "rebuilt_entries A r payload = {e. \<exists>p a. da_payload_decode payload r = Inr p \<and> a \<in> set (da_actions p) \<and> entry_from_action A a r = Inr e}"

text \<open>The entries whose encodings the verifier compares.\<close>

definition compared_entries ::
    "alloy \<Rightarrow> u64 \<Rightarrow> bytes \<Rightarrow> authorized_outbound_effect list \<Rightarrow> authorized_inbound_effect list \<Rightarrow> execution_entry set" where
  "compared_entries A r payload outs ins = rebuilt_entries A r payload
     \<union> {derived_outbound_entry ao (returnData e) | ao e. ao \<in> set outs \<and> e \<in> rebuilt_entries A r payload}
     \<union> (\<lambda>ai. as_abi_entry (derived_da_entry (ai_observation ai))) ` set ins"

lemma retained_length: "length (retained i om xs) + length om = length xs + length (unclaimed i om xs)"
proof (induction i om xs rule: retained.induct)
  case (2 i om x xs)
  then show ?case by (cases om) auto
qed simp

lemma retained_nothing: "retained i [] xs = xs"
  by (induction xs arbitrary: i) auto

lemma settling_published:
  assumes run: "verify_settling_block_transactions A number block n outs ins (length outs + length ins) p = Inr (sv, p')"
    and ex: "transactions_exhausted p' c = Inr ()" and at: "next_transaction p = tx_offset (da_span p) (n - 1)"
  defines "om \<equiv> map ao_load_index outs @ map ai_transaction_index ins"
  shows "block_count (da_span p) = n" "da_span p' = da_span p" "da_actions p' = da_actions p"
    "published_block (da_span p) (n - 1) = (be_bytes 20 (hdr_beneficiary (blk_header block)), hdr_extra_data (blk_header block),
       retained 0 om (encoded_transactions A block))"
    "unclaimed 0 om (encoded_transactions A block) = []"
    "sv_requires_reconstruction sv \<longleftrightarrow> om \<noteq> []"
    "om \<noteq> [] \<Longrightarrow> sv_encoded_transactions sv = encoded_transactions A block"
proof -
  let ?encs = "encoded_transactions A block" and ?span = "da_span p"
  let ?r = "retained 0 om ?encs"
  have len: "length ?encs = length (blk_transactions block)" by (simp add: encoded_transactions_def)
  have oml: "length om = length outs + length ins" by (simp add: om_def)
  from run obtain rest where cnt: "block_count ?span = n" "n - 1 < length (block_tx_counts ?span)"
      "unat (block_tx_counts ?span ! (n - 1)) = length (blk_transactions block) - length om"
    and hdr: "verify_header_inputs p (n - 1) number block = Inr ()"
    and ret: "drop (next_transaction p) (span_transactions ?span) = ?r @ rest"
    and un: "unclaimed 0 om ?encs = []" and p': "p' = p\<lparr>next_transaction := next_transaction p + length ?r\<rparr>"
    and sv: "sv_requires_reconstruction sv \<longleftrightarrow> length outs + length ins \<noteq> 0"
      "sv_encoded_transactions sv = (if length outs + length ins \<noteq> 0 then ?encs else [])"
    unfolding verify_settling_block_transactions_def om_def[symmetric] Let_def and_then_eq_Inr
    by (auto simp: if_Inl_eq_Inr da_block_count_Inr and_then_eq_Inr expect_retained_Inr oml split: prod.splits)
  have R: "length ?r = length (blk_transactions block) - length om" using retained_length[of 0 om ?encs] un len by simp
  have "length (span_transactions ?span) = next_transaction p + length ?r"
    using ex by (simp add: transactions_exhausted_def p' split: if_splits)
  then have "length rest = 0" using arg_cong[OF ret, of length] unfolding length_drop length_append by linarith
  then have "rest = []" by simp
  with ret cnt(3) R at have "published_txs ?span (n - 1) = ?r" by (simp add: published_txs_def)
  then show "published_block ?span (n - 1) = (be_bytes 20 (hdr_beneficiary (blk_header block)), hdr_extra_data (blk_header block), ?r)"
    using hdr by (simp add: published_block_def verify_header_inputs_Inr)
  show "block_count ?span = n" "da_span p' = ?span" "da_actions p' = da_actions p" "unclaimed 0 om ?encs = []"
    using cnt(1) un by (simp_all add: p')
  show "sv_requires_reconstruction sv \<longleftrightarrow> om \<noteq> []" "om \<noteq> [] \<Longrightarrow> sv_encoded_transactions sv = ?encs"
    using sv by (auto simp: om_def)
qed

lemma map_result_source: "map_result f xs = Inr ys \<Longrightarrow> y \<in> set ys \<Longrightarrow> \<exists>x \<in> set xs. f x = Inr y"
  by (induction xs arbitrary: ys) (auto simp: and_then_eq_Inr)

lemma sidecars_are_effects:
  assumes inj: "inj_on (encode_entry A) (compared_entries A r payload outs ins)"
    and p: "da_payload_decode payload r = Inr p" "map_result (\<lambda>a. entry_from_action A a r) (da_actions p) = Inr (es @ fs)"
    and m: "list_all2 (outbound_matches A) outs es" "list_all2 (inbound_matches A) ins fs"
  shows "map2 (\<lambda>ao e. derived_outbound_entry ao (returnData e)) outs es = es"
    and "map (\<lambda>ai. as_abi_entry (derived_da_entry (ai_observation ai))) ins = fs"
proof -
  have reb: "set es \<union> set fs \<subseteq> rebuilt_entries A r payload"
    using p(1) map_result_source[OF p(2)] unfolding rebuilt_entries_def set_append by blast
  have o: "derived_outbound_entry (outs ! k) (returnData (es ! k)) = es ! k" if "k < length outs" for k
  proof (rule inj_onD[OF inj])
    from m(1) that have k: "k < length es" and eq: "outbound_matches A (outs ! k) (es ! k)"
      by (auto simp: list_all2_conv_all_nth)
    have "es ! k \<in> rebuilt_entries A r payload" "outs ! k \<in> set outs" using reb nth_mem[OF k] nth_mem[OF that] by auto
    then show "es ! k \<in> compared_entries A r payload outs ins"
      and "derived_outbound_entry (outs ! k) (returnData (es ! k)) \<in> compared_entries A r payload outs ins"
      unfolding compared_entries_def by blast+
    show "encode_entry A (derived_outbound_entry (outs ! k) (returnData (es ! k))) = encode_entry A (es ! k)"
      using eq by (simp add: outbound_matches_def)
  qed
  have i: "as_abi_entry (derived_da_entry (ai_observation (ins ! k))) = fs ! k" if "k < length ins" for k
  proof (rule inj_onD[OF inj])
    from m(2) that have k: "k < length fs" and eq: "inbound_matches A (ins ! k) (fs ! k)"
      by (auto simp: list_all2_conv_all_nth)
    have "fs ! k \<in> rebuilt_entries A r payload" "ins ! k \<in> set ins" using reb nth_mem[OF k] nth_mem[OF that] by auto
    then show "fs ! k \<in> compared_entries A r payload outs ins"
      and "as_abi_entry (derived_da_entry (ai_observation (ins ! k))) \<in> compared_entries A r payload outs ins"
      unfolding compared_entries_def by blast+
    show "encode_entry A (as_abi_entry (derived_da_entry (ai_observation (ins ! k)))) = encode_entry A (fs ! k)"
      using eq by (simp add: inbound_matches_def)
  qed
  show "map2 (\<lambda>ao e. derived_outbound_entry ao (returnData e)) outs es = es"
    using o list_all2_lengthD[OF m(1)] by (intro nth_equalityI) auto
  show "map (\<lambda>ai. as_abi_entry (derived_da_entry (ai_observation ai))) ins = fs"
    using i list_all2_lengthD[OF m(2)] by (intro nth_equalityI) auto
qed

lemma interleave_pairs_length:
  "length (interleave_sync_block_txs (sync_pairs A (numbered cfg n (sync_payloads A cfg us inb)) (sync_users cfg us inb)))
     \<le> 2 * length us + length inb"
proof -
  let ?txs = "numbered cfg n (sync_payloads A cfg us inb)" and ?users = "sync_users cfg us inb"
  have len: "length ?txs = length ?users" by (simp add: sync_payloads_def sync_users_def)
  have il: "length (interleave_sync_block_txs pairs) = length pairs + length (filter (\<lambda>u. u \<noteq> None) (map user_tx pairs))" for pairs
    by (induction pairs rule: interleave_sync_block_txs.induct) (auto split: option.splits)
  have "length (sync_pairs A ?txs ?users) = length ?users" using len by (simp add: sync_pairs_def)
  then have "length (interleave_sync_block_txs (sync_pairs A ?txs ?users)) = length ?users + length (filter (\<lambda>u. u \<noteq> None) ?users)"
    unfolding il map_user_tx[OF len] by (rule arg_cong)
  also have "\<dots> \<le> 2 * length us + length inb" by (simp add: sync_users_def)
  finally show ?thesis .
qed

text \<open>With effects, the retained transactions are the users of the pairs and the block is the interleaving.\<close>

lemma reconstructed_settling:
  assumes rec: "verify_reconstructed_sync_block A block (encoded_transactions A block) outs E ins cfg = Inr ()"
    and lay: "effect_layout outs ins" and lenE: "length E = length outs"
    and un: "unclaimed 0 (map ao_load_index outs @ map ai_transaction_index ins) (encoded_transactions A block) = []"
  defines "users \<equiv> retained 0 (map ao_load_index outs @ map ai_transaction_index ins) (encoded_transactions A block)"
  shows "length users = length outs \<and> (\<exists>pairs. build_cross_chain_sync_pairs A (zip E users)
      (map (\<lambda>ai. as_abi_entry (derived_da_entry (ai_observation ai))) ins) cfg (tx_nonce (hd (blk_transactions block))) = Inr pairs
    \<and> encoded_transactions A block = interleave_sync_block_txs pairs)"
proof -
  let ?encs = "encoded_transactions A block"
  let ?inb = "map (\<lambda>ai. as_abi_entry (derived_da_entry (ai_observation ai))) ins"
  from rec obtain i us pairs where i: "first_system_position outs ins = Some i" "i < length (blk_transactions block)"
    and us: "user_inputs ?encs outs E = Inr us"
    and build: "build_cross_chain_sync_pairs A us ?inb cfg (tx_nonce (blk_transactions block ! i)) = Inr pairs"
    and encs: "?encs = interleave_sync_block_txs pairs"
    unfolding verify_reconstructed_Inr by blast
  from us have us': "us = map2 (\<lambda>ao e. (e, ?encs ! ao_transaction_index ao)) outs E"
    and "\<forall>(ao, e) \<in> set (zip outs E). ao_transaction_index ao < length ?encs" unfolding user_inputs_Inr by blast+
  then have tx: "\<forall>ao \<in> set outs. ao_transaction_index ao < length ?encs"
    using lenE by (metis (no_types, lifting) case_prodD in_set_impl_in_set_zip1)
  have "length us = length outs" using us' lenE by simp
  then have le: "length ?encs \<le> 2 * length outs + length ins"
    using build encs interleave_pairs_length[where us = us and inb = ?inb] unfolding build_sync_Inr by simp
  note full = full_layout[OF lay un tx le, folded users_def]
  have "i = 0" using i unfolding first_system_position_hd full(1)
    by (cases "length ?encs") (simp_all add: upt_conv_Cons del: upt_Suc)
  then have hd: "blk_transactions block ! i = hd (blk_transactions block)" using i(2) by (simp add: hd_conv_nth)
  have "us = zip E users" unfolding us' full(2) using lenE
    by (intro nth_equalityI) simp_all
  with build encs hd full(2) show ?thesis by auto
qed

lemma if_required: "(if P then r else Inr ()) = Inr () \<longleftrightarrow> (P \<longrightarrow> r = Inr ())"
  by simp

lemma verify_encoded_rebuilds:
  assumes run: "verify_encoded_da_payload A payload prec settling outs ins cfg r = Inr ()"
    and lay: "effect_layout outs ins" and inj: "inj_on (encode_entry A) (compared_entries A r payload outs ins)"
  shows "rebuilt_blocks A cfg r (tx_nonce (hd (blk_transactions (snd settling)))) payload
    = Some (map (\<lambda>b. block_inputs A (snd b)) (prec @ [settling]))"
proof -
  let ?n = "length prec" and ?block = "snd settling"
  let ?om = "map ao_load_index outs @ map ai_transaction_index ins" and ?encs = "encoded_transactions A (snd settling)"
  from run obtain p c p' sv p'' E where p: "da_payload_decode payload r = Inr p"
    and pre: "verify_preceding_block_transactions A (?n + 1) 0 prec 0 p = Inr (c, p')"
    and set: "verify_settling_block_transactions A (fst settling) ?block (?n + 1) outs ins (length outs + length ins) p' = Inr (sv, p'')"
    and ex: "transactions_exhausted p'' (saturating_add_usize c (sv_retained_count sv)) = Inr ()"
    and side: "verify_effect_sidecars A p'' outs ins (length outs + length ins) r = Inr E"
    and rec: "sv_requires_reconstruction sv \<longrightarrow>
      verify_reconstructed_sync_block A ?block (sv_encoded_transactions sv) outs E ins cfg = Inr ()"
    unfolding verify_encoded_da_payload_def Let_def and_then_eq_Inr
    by (auto simp: if_Inl_eq_Inr and_then_eq_Inr if_required split: prod.splits)
  have start: "next_transaction p = tx_offset (da_span p) 0"
    using p by (auto simp: da_payload_decode_def and_then_eq_Inr tx_offset_def split: if_splits)
  from preceding_published[OF pre start]
  have blocks: "map (\<lambda>b. block_inputs A (snd b)) prec = map (published_block (da_span p)) [0..<?n]"
    and p': "da_span p' = da_span p" "da_actions p' = da_actions p" "next_transaction p' = tx_offset (da_span p) ?n" by simp_all
  have "next_transaction p' = tx_offset (da_span p') (?n + 1 - 1)" using p' by simp
  note st = settling_published[OF set ex this, unfolded p' add_diff_cancel_right']
  from side obtain es fs where acts: "map_result (\<lambda>a. entry_from_action A a r) (da_actions p) = Inr (es @ fs)"
    and m: "list_all2 (outbound_matches A) outs es" "list_all2 (inbound_matches A) ins fs"
    and E: "E = map2 (\<lambda>ao e. derived_outbound_entry ao (returnData e)) outs es"
    unfolding verify_effect_sidecars_Inr st(3) p' by blast
  note eff = sidecars_are_effects[OF inj p acts m]
  have len: "length es = length outs" "length fs = length ins" using m by (simp_all add: list_all2_lengthD)
  show ?thesis
  proof (cases "?om = []")
    case True
    then have "es @ fs = []" using len by simp
    moreover have "published_block (da_span p) ?n = block_inputs A ?block"
      using st(4) True by (simp add: block_inputs_def retained_nothing)
    ultimately show ?thesis using p acts blocks st(1) by (simp add: rebuilt_blocks_def Let_def)
  next
    case False
    have "verify_reconstructed_sync_block A ?block ?encs outs es ins cfg = Inr ()"
      using rec st(6,7) False E eff(1) by simp
    from reconstructed_settling[OF this lay len(1) st(5)]
    obtain pairs where u: "length (retained 0 ?om ?encs) = length outs"
      and build: "build_cross_chain_sync_pairs A (zip es (retained 0 ?om ?encs)) fs cfg (tx_nonce (hd (blk_transactions ?block))) = Inr pairs"
      and encs: "?encs = interleave_sync_block_txs pairs"
      unfolding eff(2) by blast
    have users: "published_txs (da_span p) ?n = retained 0 ?om ?encs"
      and hdr: "beneficiaries (da_span p) ! ?n = be_bytes 20 (hdr_beneficiary (blk_header ?block))"
      "extra_datas (da_span p) ! ?n = hdr_extra_data (blk_header ?block)"
      using st(4) by (simp_all add: published_block_def)
    have "es @ fs \<noteq> []" using False len by auto
    then have "rebuilt_blocks A cfg r (tx_nonce (hd (blk_transactions ?block))) payload
        = Some (map (published_block (da_span p)) [0..<?n] @ [block_inputs A ?block])"
      using p acts st(1) users u len build hdr encs by (auto simp: rebuilt_blocks_def Let_def block_inputs_def)
    then show ?thesis using blocks by simp
  qed
qed

section \<open>Authorization establishes the layout\<close>

lemma interleaved_ascending:
  fixes t :: "'a \<Rightarrow> nat" and u :: "'b \<Rightarrow> nat"
  assumes "sorted_wrt (<) (map t xs @ map u ys)" "\<forall>x \<in> set xs. 0 < t x \<and> flag (t x - 1) \<and> \<not> flag (t x)"
  shows "sorted_wrt (<) (concat (map (\<lambda>x. [t x - 1, t x]) xs) @ map u ys)"
  using assms
proof (induction xs)
  case (Cons x xs)
  let ?ps = "concat (map (\<lambda>x. [t x - 1, t x]) xs) @ map u ys"
  have t: "0 < t x" "\<not> flag (t x)" and f: "\<And>z. z \<in> set xs \<Longrightarrow> flag (t z - 1)" using Cons.prems(2) by auto
  have later: "\<And>z. z \<in> set xs \<Longrightarrow> t x < t z" "\<And>y. y \<in> set ys \<Longrightarrow> t x < u y" using Cons.prems(1) by auto
  have gap: "t x < t z - 1" if "z \<in> set xs" for z
  proof -
    have "t x \<noteq> t z - 1" using f[OF that] t(2) by metis
    then show ?thesis using later(1)[OF that] by linarith
  qed
  have above: "t x < z" if "z \<in> set ?ps" for z
    using that gap later by auto
  have "sorted_wrt (<) ?ps" using Cons.prems by (intro Cons.IH) auto
  moreover have "t x - 1 < z" if "z \<in> set ?ps" for z using above[OF that] by linarith
  moreover have "t x - 1 < t x" using t(1) by linarith
  ultimately show ?case using above
    unfolding list.map concat.simps append_Cons append_Nil sorted_wrt.simps list.set Ball_def insert_iff by blast
qed simp

lemma ordered_partition:
  "sorted_wrt (\<lambda>e f. P f \<longrightarrow> P e) xs \<Longrightarrow> xs = filter P xs @ filter (\<lambda>x. \<not> P x) xs"
proof (induction xs)
  case (Cons x xs)
  show ?case
  proof (cases "P x")
    case True
    with Cons show ?thesis by auto
  next
    case False
    with Cons.prems have "filter P xs = []" by (auto simp: filter_empty_conv)
    with False Cons show ?thesis by simp
  qed
qed simp

lemma authorized_layout:
  assumes bind: "bind_effects_to_execution A c cps obs = Inr b"
    and outs: "authorize_outbound_effects A b rollup sys = Inr outs" and ins: "authorize_inbound_effects A b rollup = Inr ins"
  shows "effect_layout outs ins"
proof -
  let ?es = "bes_effects b"
  let ?O = "filter is_outbound ?es" and ?I = "filter is_inbound ?es" and ?flags = "obs_system_sender_flags obs"
  note asc = bound_effects_ascending[OF bind]
  from outs have ord: "sorted_wrt (\<lambda>e f. is_outbound f \<longrightarrow> is_outbound e) ?es"
    and o: "list_all2 (\<lambda>e ob. obs_transaction_index ob = be_transaction_index e
        \<and> outbound_pair_ok A rollup sys ?flags e ob) ?O (obs_outbound_event_candidates obs)"
      "outs = map2 (authorized_outbound A rollup) ?O (obs_outbound_event_candidates obs)"
    unfolding authorize_outbound_effects_Inr[OF asc(1)] asc(2) by blast+
  from ins have i: "list_all2 (\<lambda>e c. cand_transaction_index c = be_transaction_index e \<and> inbound_pair_ok A rollup e c)
      ?I (obs_inbound_candidates obs)" "ins = map2 authorized_inbound ?I (obs_inbound_candidates obs)"
    unfolding authorize_inbound_effects_Inr[OF asc(1)] asc(2) by blast+
  have inb: "map ai_transaction_index ins = map be_transaction_index ?I"
    using list_all2_lengthD[OF i(1)] unfolding i(2) by (intro nth_equalityI) (simp_all add: authorized_inbound_def)
  have pos: "effect_positions outs ins = concat (map (\<lambda>e. [be_transaction_index e - 1, be_transaction_index e]) ?O)
      @ map be_transaction_index ?I"
  proof -
    have "map (\<lambda>ao. [ao_load_index ao, ao_transaction_index ao]) outs
        = map (\<lambda>e. [be_transaction_index e - 1, be_transaction_index e]) ?O"
      using list_all2_lengthD[OF o(1)] unfolding o(2) by (intro nth_equalityI) (simp_all add: authorized_outbound_def)
    then show ?thesis unfolding effect_positions_def inb by simp
  qed
  have kind: "(\<lambda>e. \<not> is_outbound e) = is_inbound" by (metis effect_kind.exhaust effect_kind.distinct(1))
  have srt: "sorted_wrt (<) (map be_transaction_index ?O @ map be_transaction_index ?I)"
    using asc(1) ordered_partition[OF ord] unfolding ascending_effects_def kind map_append[symmetric] by simp
  have row: "\<not> ?flags ! be_transaction_index e" if "e \<in> set ?O" for e
  proof -
    have "e \<in> (\<lambda>j. bound_at (chain_trailing c ! j) (Suc j) (effect_candidate_positions obs ! j)) ` {0..<length (chain_trailing c)}"
      "is_outbound e" using bind that by (auto simp: bind_effects_Inr Let_def)
    with bind show ?thesis
      by (auto simp: bind_effects_Inr Let_def bound_row_def bound_at_def observed_kind_at_def split: if_splits)
  qed
  have "0 < be_transaction_index e \<and> ?flags ! (be_transaction_index e - 1)" if "e \<in> set ?O" for e
  proof -
    from that obtain k where "k < length ?O" "e = ?O ! k" by (metis in_set_conv_nth)
    with list_all2_nthD[OF o(1)] obtain ob where "outbound_pair_ok A rollup sys ?flags e ob" by blast
    then show ?thesis by (auto simp: outbound_pair_ok_def get_eq_Some)
  qed
  with row interleaved_ascending[OF srt, where flag = "\<lambda>i. ?flags ! i"] show ?thesis
    unfolding effect_layout_def pos by blast
qed

end
