(* ===== verification/Proof_Plan.thy ===== *)
theory Proof_Plan
  imports Rolling_Hash
begin

text \<open>
  Proof plans and public inputs: \<^verbatim>\<open>crates/eez-protocol/src/proof_plan.rs\<close> and
  \<^verbatim>\<open>public_inputs.rs\<close>. The lemmas show that the structural check accepts exactly the
  well-formed plans, that the index lookup by binary search is the position in the sorted row, and what
  a per-proof-system public-input hash binds.
\<close>

section \<open>Plans\<close>

record rollup_proof_assignment =
  rpa_rollup_id :: rollup_id
  proof_system_indexes :: "u64 list"

record proof_plan =
  proof_systems :: "address list"
  rollup_assignments :: "rollup_proof_assignment list"
  custom_data :: "bytes list"
  vk_matrix :: "b256 list list"

definition rollup_count :: "proof_plan \<Rightarrow> nat" where
  "rollup_count plan = length (rollup_assignments plan)"

definition proof_system_count :: "proof_plan \<Rightarrow> nat" where
  "proof_system_count plan = length (proof_systems plan)"

datatype proof_plan_invariant_error =
    EmptyProofSystems
  | EmptyRollupAssignments
  | ProofSystemsNotSorted nat
  | RollupAssignmentsNotSorted nat
  | EmptyProofSystemIndex nat
  | ProofSystemIndexNotSorted nat nat
  | ProofSystemIndexOutOfBounds nat nat u64 nat
  | VkMatrixOuterLength nat nat
  | VkMatrixRowLength nat nat nat
  | CustomDataLength nat nat

type_synonym 'a plan_result = "proof_plan_invariant_error + 'a"

text \<open>The first \<open>windows(2)\<close> pair that does not increase, counted from \<open>i\<close>.\<close>

fun first_descent :: "nat \<Rightarrow> 'a::len word list \<Rightarrow> nat option" where
  "first_descent i (x # y # xs) = (if x \<ge> y then Some i else first_descent (Suc i) (y # xs))"
| "first_descent i _ = None"

fun check_rollup_order :: "nat \<Rightarrow> u64 \<Rightarrow> bool \<Rightarrow> rollup_proof_assignment list \<Rightarrow> unit plan_result" where
  "check_rollup_order i prev_rid first [] = Inr ()"
| "check_rollup_order i prev_rid first (a # as) =
     (if \<not> first \<and> rpa_rollup_id a \<le> prev_rid then Inl (RollupAssignmentsNotSorted i)
      else if first \<and> rpa_rollup_id a = 0 then Inl (RollupAssignmentsNotSorted 0)
      else check_rollup_order (Suc i) (rpa_rollup_id a) False as)"

fun check_index_bounds :: "nat \<Rightarrow> nat \<Rightarrow> nat \<Rightarrow> u64 list \<Rightarrow> unit plan_result" where
  "check_index_bounds ps_len r j [] = Inr ()"
| "check_index_bounds ps_len r j (idx # idxs) =
     (if unat idx \<ge> ps_len then Inl (ProofSystemIndexOutOfBounds r j idx ps_len)
      else check_index_bounds ps_len r (Suc j) idxs)"

definition check_row :: "proof_plan \<Rightarrow> nat \<Rightarrow> rollup_proof_assignment \<Rightarrow> unit plan_result" where
  "check_row plan r a =
     (if proof_system_indexes a = [] then Inl (EmptyProofSystemIndex r)
      else case first_descent 1 (proof_system_indexes a) of
          Some j \<Rightarrow> Inl (ProofSystemIndexNotSorted r j)
        | None \<Rightarrow>
            and_then (check_index_bounds (length (proof_systems plan)) r 0 (proof_system_indexes a)) (\<lambda>_.
            let expected_row = length (proof_system_indexes a);
                got_row = length (vk_matrix plan ! r) in
            if expected_row \<noteq> got_row then Inl (VkMatrixRowLength r expected_row got_row) else Inr ()))"

fun check_rows :: "proof_plan \<Rightarrow> nat \<Rightarrow> rollup_proof_assignment list \<Rightarrow> unit plan_result" where
  "check_rows plan r [] = Inr ()"
| "check_rows plan r (a # as) = and_then (check_row plan r a) (\<lambda>_. check_rows plan (Suc r) as)"

definition check_invariants :: "proof_plan \<Rightarrow> unit plan_result" where
  "check_invariants plan =
     (if proof_systems plan = [] then Inl EmptyProofSystems
      else if rollup_assignments plan = [] then Inl EmptyRollupAssignments
      else if hd (proof_systems plan) = 0 then Inl (ProofSystemsNotSorted 0)
      else case first_descent 1 (proof_systems plan) of
          Some i \<Rightarrow> Inl (ProofSystemsNotSorted i)
        | None \<Rightarrow>
            and_then (check_rollup_order 0 0 True (rollup_assignments plan)) (\<lambda>_.
            if length (custom_data plan) \<noteq> length (rollup_assignments plan)
            then Inl (CustomDataLength (length (rollup_assignments plan)) (length (custom_data plan)))
            else if length (vk_matrix plan) \<noteq> length (rollup_assignments plan)
            then Inl (VkMatrixOuterLength (length (rollup_assignments plan)) (length (vk_matrix plan)))
            else check_rows plan 0 (rollup_assignments plan)))"

section \<open>Public inputs\<close>

definition entry_hash :: "alloy \<Rightarrow> execution_entry \<Rightarrow> b256" where
  "entry_hash A entry = keccak256 A (encode_entry A entry)"

definition static_entry_hash :: "alloy \<Rightarrow> static_execution_entry \<Rightarrow> b256" where
  "static_entry_hash A entry = keccak256 A (encode_static_entry A entry)"

definition shared_buffer ::
    "alloy \<Rightarrow> b256 list \<Rightarrow> b256 list \<Rightarrow> b256 list \<Rightarrow> bytes \<Rightarrow> b256 list \<Rightarrow> address \<Rightarrow> bytes" where
  "shared_buffer A entry_hashes static_entry_hashes blob_hashes cd custom_data_hashes bound_sender =
     encode_hash_list A entry_hashes @ encode_hash_list A static_entry_hashes
     @ encode_hash_list A blob_hashes @ as_slice (keccak256 A cd)
     @ encode_hash_list A custom_data_hashes @ be_bytes 20 bound_sender"

definition shared_public_input ::
    "alloy \<Rightarrow> b256 list \<Rightarrow> b256 list \<Rightarrow> b256 list \<Rightarrow> bytes \<Rightarrow> b256 list \<Rightarrow> address \<Rightarrow> b256" where
  "shared_public_input A entry_hashes static_entry_hashes blob_hashes cd custom_data_hashes bound_sender =
     keccak256 A (shared_buffer A entry_hashes static_entry_hashes blob_hashes cd custom_data_hashes bound_sender)"

definition custom_data_hash :: "alloy \<Rightarrow> rollup_id \<Rightarrow> bytes \<Rightarrow> b256" where
  "custom_data_hash A rollup_id data = keccak256 A (encode_custom_data A (rollup_id, data))"

text \<open>
  \<open>slice::binary_search\<close> of the Rust standard library: the window \<open>base, size\<close> is halved
  until one element is left, which is then compared.
\<close>

function search_base :: "u64 \<Rightarrow> u64 list \<Rightarrow> nat \<Rightarrow> nat \<Rightarrow> nat" where
  "search_base k xs base sz =
     (if sz > 1 then
        let half = sz div 2; mid = base + half in
        search_base k xs (if xs ! mid > k then base else mid) (sz - half)
      else base)"
  by pat_completeness auto
termination
  by (relation "measure (\<lambda>(_, _, _, sz). sz)") auto

declare search_base.simps [simp del]

definition binary_search :: "u64 \<Rightarrow> u64 list \<Rightarrow> nat option" where
  "binary_search k xs =
     (if xs = [] then None
      else let base = search_base k xs 0 (length xs) in
        if xs ! base = k then Some base else None)"

definition position_of :: "u64 \<Rightarrow> u64 list \<Rightarrow> nat option" where
  "position_of k indices = binary_search k indices"

fun fold_assignments ::
    "alloy \<Rightarrow> b256 list list \<Rightarrow> u64 \<Rightarrow> nat \<Rightarrow> b256 \<Rightarrow> rollup_proof_assignment list \<Rightarrow> b256" where
  "fold_assignments A vks k r acc [] = acc"
| "fold_assignments A vks k r acc (a # as) =
     (case position_of k (proof_system_indexes a) of
        None \<Rightarrow> fold_assignments A vks k (Suc r) acc as
      | Some j \<Rightarrow> fold_assignments A vks k (Suc r)
          (keccak256 A (encode_fold_step A (acc, rpa_rollup_id a, vks ! r ! j))) as)"

definition per_ps_public_inputs_hash :: "alloy \<Rightarrow> b256 \<Rightarrow> proof_plan \<Rightarrow> u64 \<Rightarrow> b256" where
  "per_ps_public_inputs_hash A shared plan k =
     keccak256 A (as_slice shared
       @ as_slice (fold_assignments A (vk_matrix plan) k 0 0 (rollup_assignments plan)))"

definition per_ps_hashes :: "alloy \<Rightarrow> proof_plan \<Rightarrow> b256 \<Rightarrow> b256 list" where
  "per_ps_hashes A plan shared =
     map (\<lambda>k. per_ps_public_inputs_hash A shared plan (of_nat k)) [0..<length (proof_systems plan)]"

definition all_per_ps_hashes ::
    "alloy \<Rightarrow> proof_plan \<Rightarrow> b256 list \<Rightarrow> b256 list \<Rightarrow> b256 list \<Rightarrow> bytes \<Rightarrow> address \<Rightarrow> b256 list plan_result" where
  "all_per_ps_hashes A plan entry_hashes static_entry_hashes blob_hashes cd bound_sender =
     and_then (check_invariants plan) (\<lambda>_.
       let custom_data_hashes = map (\<lambda>(a, d). custom_data_hash A (rpa_rollup_id a) d)
             (zip (rollup_assignments plan) (custom_data plan));
           shared = shared_public_input A entry_hashes static_entry_hashes blob_hashes cd
             custom_data_hashes bound_sender
       in Inr (per_ps_hashes A plan shared))"

datatype public_inputs_error =
    InvalidPlan proof_plan_invariant_error
  | UnsupportedBlockNumber u64
  | UnsupportedSenderBinding
  | UnsupportedBlobIndices nat

definition batch_shared_public_input :: "alloy \<Rightarrow> evm_batch \<Rightarrow> address \<Rightarrow> public_inputs_error + b256" where
  "batch_shared_public_input A batch sender =
     (if blockNumber batch \<noteq> 0 then Inl (UnsupportedBlockNumber (blockNumber batch))
      else if blobIndices batch \<noteq> [] then Inl (UnsupportedBlobIndices (length (blobIndices batch)))
      else
        let entry_hashes = map (entry_hash A) (entries batch);
            static_entry_hashes = map (static_entry_hash A) (staticEntries batch);
            custom_data_hashes = map (\<lambda>r. custom_data_hash A (rps_rollupId r) [])
              (rollupIdsWithProofSystems batch);
            bound_sender = (if bindMsgSenderInPublicInput batch then sender else 0)
        in Inr (shared_public_input A entry_hashes static_entry_hashes [] (batch_callData batch)
             custom_data_hashes bound_sender))"

definition batch_plan :: "evm_batch \<Rightarrow> b256 \<Rightarrow> proof_plan" where
  "batch_plan batch vkey =
     (let assignments = map (\<lambda>r. \<lparr>rpa_rollup_id = rps_rollupId r, proof_system_indexes = proofSystemIndexes r\<rparr>)
            (rollupIdsWithProofSystems batch) in
      \<lparr>proof_systems = proofSystems batch, rollup_assignments = assignments,
       custom_data = replicate (length assignments) [],
       vk_matrix = map (\<lambda>a. replicate (length (proof_system_indexes a)) vkey) assignments\<rparr>)"

definition public_inputs_hashes :: "alloy \<Rightarrow> evm_batch \<Rightarrow> b256 \<Rightarrow> public_inputs_error + b256 list" where
  "public_inputs_hashes A batch vkey =
     (if bindMsgSenderInPublicInput batch then Inl UnsupportedSenderBinding
      else and_then (batch_shared_public_input A batch 0) (\<lambda>shared.
        let plan = batch_plan batch vkey in
        and_then (map_err InvalidPlan (check_invariants plan)) (\<lambda>_.
        Inr (per_ps_hashes A plan shared))))"

section \<open>The structural check\<close>

definition wf_row :: "nat \<Rightarrow> rollup_proof_assignment \<Rightarrow> b256 list \<Rightarrow> bool" where
  "wf_row ps_len a vks \<longleftrightarrow> proof_system_indexes a \<noteq> [] \<and> sorted_wrt (<) (proof_system_indexes a)
     \<and> (\<forall>i \<in> set (proof_system_indexes a). unat i < ps_len) \<and> length vks = length (proof_system_indexes a)"

definition wf_plan :: "proof_plan \<Rightarrow> bool" where
  "wf_plan plan \<longleftrightarrow> proof_systems plan \<noteq> [] \<and> rollup_assignments plan \<noteq> []
     \<and> sorted_wrt (<) (0 # proof_systems plan)
     \<and> sorted_wrt (<) (0 # map rpa_rollup_id (rollup_assignments plan))
     \<and> length (custom_data plan) = length (rollup_assignments plan)
     \<and> list_all2 (wf_row (length (proof_systems plan))) (rollup_assignments plan) (vk_matrix plan)"

lemma first_descent_None: "first_descent i xs = None \<longleftrightarrow> sorted_wrt (<) xs"
proof (induction i xs rule: first_descent.induct)
  case (1 i x y xs)
  then show ?case by (auto simp: not_le intro: less_trans)
qed auto

lemma sorted_wrt_zero:
  fixes xs :: "'a::len word list"
  assumes "xs \<noteq> []"
  shows "sorted_wrt (<) (0 # xs) \<longleftrightarrow> hd xs \<noteq> 0 \<and> sorted_wrt (<) xs"
  using assms by (cases xs) (auto simp: word_neq_0_conv intro: less_trans)

lemma check_rollup_order_rest:
  "check_rollup_order i p False as = Inr () \<longleftrightarrow> sorted_wrt (<) (p # map rpa_rollup_id as)"
proof (induction as arbitrary: i p)
  case (Cons a as)
  then show ?case by (auto simp: not_le intro: less_trans)
qed simp

lemma check_rollup_order_Inr:
  "check_rollup_order 0 0 True as = Inr () \<longleftrightarrow> sorted_wrt (<) (0 # map rpa_rollup_id as)"
proof (cases as)
  case (Cons a bs)
  then show ?thesis
    using sorted_wrt_zero[of "map rpa_rollup_id as"] check_rollup_order_rest[of "Suc 0" "rpa_rollup_id a" bs]
    by simp
qed simp

lemma check_index_bounds_Inr: "check_index_bounds n r j is = Inr () \<longleftrightarrow> (\<forall>i \<in> set is. unat i < n)"
  by (induction "is" arbitrary: j) (auto simp: not_le)

lemma check_row_Inr:
  "check_row plan r a = Inr () \<longleftrightarrow> wf_row (length (proof_systems plan)) a (vk_matrix plan ! r)"
  using first_descent_None[of 1 "proof_system_indexes a"]
  by (cases "first_descent 1 (proof_system_indexes a)")
    (auto simp: check_row_def wf_row_def check_index_bounds_Inr and_then_eq_Inr Let_def)

lemma check_rows_Inr:
  "check_rows plan r as = Inr () \<longleftrightarrow>
     (\<forall>i < length as. wf_row (length (proof_systems plan)) (as ! i) (vk_matrix plan ! (r + i)))"
proof (induction as arbitrary: r)
  case (Cons a as)
  then show ?case by (auto simp: and_then_eq_Inr check_row_Inr less_Suc_eq_0_disj)
qed simp

lemma check_invariants_Inr: "check_invariants plan = Inr () \<longleftrightarrow> wf_plan plan"
proof (cases "proof_systems plan = [] \<or> rollup_assignments plan = []")
  case False
  then show ?thesis
    using sorted_wrt_zero[of "proof_systems plan"] first_descent_None[of 1 "proof_systems plan"]
    by (cases "first_descent 1 (proof_systems plan)")
      (auto simp: check_invariants_def wf_plan_def and_then_eq_Inr check_rollup_order_Inr check_rows_Inr
        list_all2_conv_all_nth)
qed (auto simp: check_invariants_def wf_plan_def)

section \<open>Binary search\<close>

lemma sorted_words_less_iff:
  fixes xs :: "u64 list"
  assumes "sorted_wrt (<) xs" "i < length xs" "j < length xs"
  shows "xs ! i < xs ! j \<longleftrightarrow> i < j"
proof
  assume less: "xs ! i < xs ! j"
  show "i < j"
  proof (rule ccontr)
    assume "\<not> i < j"
    then have "i = j \<or> j < i" by auto
    with less sorted_wrt_nth_less[OF assms(1), of j i] assms(2) show False by auto
  qed
qed (use sorted_wrt_nth_less[OF assms(1)] assms(3) in blast)

lemma search_base_finds:
  "sorted_wrt (<) xs \<Longrightarrow> p < length xs \<Longrightarrow> xs ! p = k \<Longrightarrow> base \<le> p \<Longrightarrow> p < base + sz \<Longrightarrow>
    base + sz \<le> length xs \<Longrightarrow> search_base k xs base sz = p"
proof (induction k xs base sz rule: search_base.induct)
  case (1 k xs base sz)
  show ?case
  proof (cases "sz > 1")
    case False
    with "1.prems" show ?thesis by (simp add: search_base.simps)
  next
    case True
    let ?mid = "base + sz div 2"
    let ?base = "if k < xs ! ?mid then base else ?mid"
    have mid: "?mid < length xs" using True "1.prems" by linarith
    have "k < xs ! ?mid \<longleftrightarrow> p < ?mid"
      using sorted_words_less_iff[OF "1.prems"(1,2) mid] "1.prems"(3) by simp
    moreover have "?base \<le> p" "p < ?base + (sz - sz div 2)" "?base + (sz - sz div 2) \<le> length xs"
      using calculation True "1.prems"(4-6) by auto
    ultimately show ?thesis
      using "1.IH"[OF True refl refl "1.prems"(1-3)] True by (subst search_base.simps) (simp add: Let_def)
  qed
qed

lemma search_base_bound: "0 < sz \<Longrightarrow> search_base k xs base sz < base + sz"
proof (induction k xs base sz rule: search_base.induct)
  case (1 k xs base sz)
  show ?case
  proof (cases "sz > 1")
    case True
    have "search_base k xs (if k < xs ! (base + sz div 2) then base else base + sz div 2) (sz - sz div 2)
        < (if k < xs ! (base + sz div 2) then base else base + sz div 2) + (sz - sz div 2)"
      using "1.IH"[OF True refl refl] True by auto
    also have "\<dots> \<le> base + sz" by auto
    finally show ?thesis using True by (subst search_base.simps) (simp add: Let_def)
  next
    case False
    with "1.prems" show ?thesis by (simp add: search_base.simps)
  qed
qed

lemma position_of_Some:
  assumes "sorted_wrt (<) xs"
  shows "position_of k xs = Some j \<longleftrightarrow> j < length xs \<and> xs ! j = k"
proof
  assume "position_of k xs = Some j"
  then show "j < length xs \<and> xs ! j = k"
    using search_base_bound[of "length xs" k xs 0]
    by (auto simp: position_of_def binary_search_def Let_def split: if_splits)
next
  assume j: "j < length xs \<and> xs ! j = k"
  then have "search_base k xs 0 (length xs) = j" using assms by (intro search_base_finds) auto
  with j show "position_of k xs = Some j" by (auto simp: position_of_def binary_search_def)
qed

section \<open>What the hashes bind\<close>

definition fold_link :: "alloy \<Rightarrow> b256 \<Rightarrow> u64 \<times> b256 \<Rightarrow> bytes" where
  "fold_link A acc s = encode_fold_step A (acc, fst s, snd s)"

text \<open>The rollups a proof system attests to, with the verification key each of them uses.\<close>

definition attested :: "proof_plan \<Rightarrow> u64 \<Rightarrow> (u64 \<times> b256) list" where
  "attested plan k = List.map_filter (\<lambda>(a, vks).
     map_option (\<lambda>j. (rpa_rollup_id a, vks ! j)) (position_of k (proof_system_indexes a)))
     (zip (rollup_assignments plan) (vk_matrix plan))"

lemma fold_assignments_chain:
  assumes "r + length as \<le> length vks"
  shows "fold_assignments A vks k r acc as = gchain A (fold_link A) acc
    (List.map_filter (\<lambda>(a, vks). map_option (\<lambda>j. (rpa_rollup_id a, vks ! j)) (position_of k (proof_system_indexes a)))
      (zip as (drop r vks)))"
  using assms
proof (induction as arbitrary: r acc)
  case (Cons a as)
  have "drop r vks = vks ! r # drop (Suc r) vks" using Cons.prems by (simp add: Cons_nth_drop_Suc)
  with Cons show ?case by (simp add: List.map_filter_simps fold_link_def split: option.splits)
qed (simp add: List.map_filter_simps)

lemma fold_assignments_attested:
  assumes "wf_plan plan"
  shows "fold_assignments A (vk_matrix plan) k 0 acc (rollup_assignments plan)
    = gchain A (fold_link A) acc (attested plan k)"
proof -
  have "length (rollup_assignments plan) = length (vk_matrix plan)"
    using assms by (auto simp: wf_plan_def dest: list_all2_lengthD)
  then show ?thesis by (subst fold_assignments_chain) (simp_all add: attested_def)
qed

text \<open>The laws of the ABI coder the binding relies on: injective, and hash arrays self-delimiting.\<close>

definition coder_laws :: "alloy \<Rightarrow> execution_entry set \<Rightarrow> static_execution_entry set \<Rightarrow> bool" where
  "coder_laws A es ss \<longleftrightarrow> inj_on (encode_entry A) es \<and> inj_on (encode_static_entry A) ss
     \<and> inj (encode_custom_data A) \<and> inj (encode_fold_step A)
     \<and> (\<forall>xs ys r s. encode_hash_list A xs @ r = encode_hash_list A ys @ s \<longrightarrow> xs = ys)"

lemma map_hash_inject:
  assumes "collision_free A S" "enc ` (set xs \<union> set ys) \<subseteq> S" "inj_on enc (set xs \<union> set ys)"
    and "map (\<lambda>x. keccak256 A (enc x)) xs = map (\<lambda>x. keccak256 A (enc x)) ys"
  shows "xs = ys"
proof (rule map_inj_on[OF assms(4)])
  show "inj_on (\<lambda>x. keccak256 A (enc x)) (set xs \<union> set ys)"
  proof (rule inj_onI)
    fix x y
    assume "x \<in> set xs \<union> set ys" "y \<in> set xs \<union> set ys" "keccak256 A (enc x) = keccak256 A (enc y)"
    with collision_freeD[OF assms(1), of "enc x" "enc y"] assms(2,3) show "x = y"
      by (auto dest: inj_onD)
  qed
qed

lemma shared_buffer_inject:
  assumes "\<forall>xs ys r s. encode_hash_list A xs @ r = encode_hash_list A ys @ s \<longrightarrow> xs = ys"
    and "shared_buffer A a b c d e f = shared_buffer A a' b' c' d' e' f'"
  shows "a = a' \<and> b = b' \<and> c = c' \<and> keccak256 A d = keccak256 A d' \<and> e = e' \<and> f = f'"
proof -
  note sd = assms(1)[rule_format]
  note eq = assms(2)[unfolded shared_buffer_def]
  have a: "a = a'" using eq by (rule sd)
  note eq = eq[unfolded a same_append_eq]
  have b: "b = b'" using eq by (rule sd)
  note eq = eq[unfolded b same_append_eq]
  have c: "c = c'" using eq by (rule sd)
  note eq = eq[unfolded c same_append_eq]
  have d: "keccak256 A d = keccak256 A d'" and eq: "encode_hash_list A e @ be_bytes 20 f = encode_hash_list A e' @ be_bytes 20 f'"
    using eq by simp_all
  have e: "e = e'" using eq by (rule sd)
  have "f = f'" using eq[unfolded e same_append_eq] by (simp add: be_bytes_inject)
  with a b c d e show ?thesis by blast
qed

lemma linked_fold: "inj (encode_fold_step A) \<Longrightarrow> linked_steps (fold_link A)"
  by unfold_locales (auto simp: fold_link_def prod_eq_iff dest: injD)

text \<open>Everything that is hashed for one batch and one proof system.\<close>

definition batch_shared_buffer :: "alloy \<Rightarrow> evm_batch \<Rightarrow> bytes" where
  "batch_shared_buffer A b = shared_buffer A (map (entry_hash A) (entries b))
     (map (static_entry_hash A) (staticEntries b)) [] (batch_callData b)
     (map (\<lambda>r. custom_data_hash A (rps_rollupId r) []) (rollupIdsWithProofSystems b)) 0"

definition signed_buffer :: "alloy \<Rightarrow> evm_batch \<Rightarrow> b256 \<Rightarrow> u64 \<Rightarrow> bytes" where
  "signed_buffer A b vkey k = as_slice (keccak256 A (batch_shared_buffer A b))
     @ as_slice (gchain A (fold_link A) 0 (attested (batch_plan b vkey) k))"

definition batch_preimages :: "alloy \<Rightarrow> evm_batch \<Rightarrow> b256 \<Rightarrow> u64 \<Rightarrow> bytes set" where
  "batch_preimages A b vkey k =
     encode_entry A ` set (entries b) \<union> encode_static_entry A ` set (staticEntries b) \<union> {batch_callData b}
     \<union> (\<lambda>r. encode_custom_data A (rps_rollupId r, [])) ` set (rollupIdsWithProofSystems b)
     \<union> {batch_shared_buffer A b, signed_buffer A b vkey k}
     \<union> glinks A (fold_link A) 0 (attested (batch_plan b vkey) k)"

lemma public_inputs_hashes_Inr:
  "public_inputs_hashes A b vkey = Inr hs \<longleftrightarrow>
     \<not> bindMsgSenderInPublicInput b \<and> blockNumber b = 0 \<and> blobIndices b = [] \<and> wf_plan (batch_plan b vkey)
     \<and> hs = map (\<lambda>k. keccak256 A (signed_buffer A b vkey (of_nat k))) [0..<length (proofSystems b)]"
proof -
  have "per_ps_hashes A (batch_plan b vkey) (keccak256 A (batch_shared_buffer A b))
      = map (\<lambda>k. keccak256 A (signed_buffer A b vkey (of_nat k))) [0..<length (proofSystems b)]"
    if "wf_plan (batch_plan b vkey)"
    using fold_assignments_attested[OF that, of A _ 0]
    by (simp add: per_ps_hashes_def per_ps_public_inputs_hash_def signed_buffer_def)
      (simp add: batch_plan_def Let_def)
  then show ?thesis
    by (auto simp: public_inputs_hashes_def batch_shared_public_input_def shared_public_input_def
        batch_shared_buffer_def and_then_eq_Inr check_invariants_Inr Let_def)
qed

section \<open>Properties\<close>


text \<open>
  C29. On a strictly increasing row the binary search is the position of the index: it finds it when it
  is there and nothing else.
\<close>

theorem position_of_correct:
  assumes "sorted_wrt (<) indices"
  shows "position_of k indices = Some j \<longleftrightarrow> j < length indices \<and> indices ! j = k"
  using assms by (rule position_of_Some)

theorem position_of_correct_witness: "position_of 9 [2, 5, 9] = Some 2 \<and> position_of 4 [2, 5, 9] = None"
proof -
  have s: "sorted_wrt (<) [2, 5, 9 :: u64]" by simp
  have "position_of 9 [2, 5, 9] = Some 2" using position_of_correct[OF s, of 9 2] by simp
  moreover have "position_of 4 [2, 5, 9] \<noteq> Some j" for j
    using position_of_correct[OF s, of 4 j] nth_mem[of j "[2, 5, 9 :: u64]"] by auto
  ultimately show ?thesis by auto
qed

text \<open>
  C11. A public-input hash binds the batch: two batches with the same hash for a proof system have the
  same entries, static entries, call data and participating rollups, and the proof system attests to the
  same rollups with the same verification keys, unless Keccak collides on a string hashed for one of them.
\<close>

theorem public_inputs_bind:
  assumes hs: "public_inputs_hashes A b vkey = Inr hs" "public_inputs_hashes A c vkey' = Inr hs'"
    and k: "k < length hs" "k < length hs'" "hs ! k = hs' ! k"
    and laws: "coder_laws A (set (entries b) \<union> set (entries c)) (set (staticEntries b) \<union> set (staticEntries c))"
    and cf: "collision_free A (batch_preimages A b vkey (of_nat k) \<union> batch_preimages A c vkey' (of_nat k))"
  shows "entries b = entries c \<and> staticEntries b = staticEntries c \<and> batch_callData b = batch_callData c
    \<and> map rps_rollupId (rollupIdsWithProofSystems b) = map rps_rollupId (rollupIdsWithProofSystems c)
    \<and> attested (batch_plan b vkey) (of_nat k) = attested (batch_plan c vkey') (of_nat k)"
proof -
  let ?S = "batch_preimages A b vkey (of_nat k) \<union> batch_preimages A c vkey' (of_nat k)"
  note eqD = collision_freeD[OF cf]
  have "keccak256 A (signed_buffer A b vkey (of_nat k)) = keccak256 A (signed_buffer A c vkey' (of_nat k))"
    using hs k by (simp add: public_inputs_hashes_Inr)
  then have "signed_buffer A b vkey (of_nat k) = signed_buffer A c vkey' (of_nat k)"
    by (rule eqD[rotated 2]) (simp_all add: batch_preimages_def)
  then have sh: "keccak256 A (batch_shared_buffer A b) = keccak256 A (batch_shared_buffer A c)"
    and acc: "gchain A (fold_link A) 0 (attested (batch_plan b vkey) (of_nat k))
      = gchain A (fold_link A) 0 (attested (batch_plan c vkey') (of_nat k))"
    by (simp_all add: signed_buffer_def)
  from sh have "batch_shared_buffer A b = batch_shared_buffer A c"
    by (rule eqD[rotated 2]) (simp_all add: batch_preimages_def)
  from shared_buffer_inject[OF _ this[unfolded batch_shared_buffer_def]] laws
  have f: "map (\<lambda>e. keccak256 A (encode_entry A e)) (entries b) = map (\<lambda>e. keccak256 A (encode_entry A e)) (entries c)"
    "map (\<lambda>e. keccak256 A (encode_static_entry A e)) (staticEntries b)
      = map (\<lambda>e. keccak256 A (encode_static_entry A e)) (staticEntries c)"
    "keccak256 A (batch_callData b) = keccak256 A (batch_callData c)"
    "map (\<lambda>r. keccak256 A (encode_custom_data A (r, []))) (map rps_rollupId (rollupIdsWithProofSystems b))
      = map (\<lambda>r. keccak256 A (encode_custom_data A (r, []))) (map rps_rollupId (rollupIdsWithProofSystems c))"
    unfolding coder_laws_def entry_hash_def[abs_def] static_entry_hash_def[abs_def] custom_data_hash_def
    by (simp_all add: comp_def)
  have "entries b = entries c"
    by (rule map_hash_inject[OF cf _ _ f(1)])
      (use laws in \<open>auto simp: batch_preimages_def coder_laws_def\<close>)
  moreover have "staticEntries b = staticEntries c"
    by (rule map_hash_inject[OF cf _ _ f(2)])
      (use laws in \<open>auto simp: batch_preimages_def coder_laws_def\<close>)
  moreover have "batch_callData b = batch_callData c"
    using f(3) by (rule eqD[rotated 2]) (simp_all add: batch_preimages_def)
  moreover have "map rps_rollupId (rollupIdsWithProofSystems b) = map rps_rollupId (rollupIdsWithProofSystems c)"
    by (rule map_hash_inject[OF cf _ _ f(4)])
      (use laws in \<open>auto simp: batch_preimages_def coder_laws_def inj_on_def dest: injD\<close>)
  moreover have "attested (batch_plan b vkey) (of_nat k) = attested (batch_plan c vkey') (of_nat k)"
  proof (rule linked_steps.chain_inject[OF linked_fold _ acc])
    show "inj (encode_fold_step A)" using laws by (simp add: coder_laws_def)
    show "collision_free A (glinks A (fold_link A) 0 (attested (batch_plan b vkey) (of_nat k))
        \<union> glinks A (fold_link A) 0 (attested (batch_plan c vkey') (of_nat k)))"
      by (rule collision_free_mono[OF cf]) (auto simp: batch_preimages_def)
  qed
  ultimately show ?thesis by blast
qed

definition example_batch :: evm_batch where
  "example_batch = default_batch\<lparr>proofSystems := [1],
     rollupIdsWithProofSystems := [\<lparr>rps_rollupId = 7, proofSystemIndexes = [0]\<rparr>]\<rparr>"

lemma example_batch_fields [simp]:
  "entries example_batch = []" "staticEntries example_batch = []" "batch_callData example_batch = []"
  "blockNumber example_batch = 0" "blobIndices example_batch = []" "\<not> bindMsgSenderInPublicInput example_batch"
  "proofSystems example_batch = [1]"
  "rollupIdsWithProofSystems example_batch = [\<lparr>rps_rollupId = 7, proofSystemIndexes = [0]\<rparr>]"
  by (simp_all add: example_batch_def default_batch_def)

lemma example_batch_attested: "attested (batch_plan example_batch vkey) 0 = [(7, vkey)]"
proof -
  have "position_of 0 [0] = Some 0" using position_of_Some[of "[0]" 0 0] by simp
  then show ?thesis
    by (simp add: attested_def batch_plan_def List.map_filter_simps Let_def)
qed

lemma example_batch_hashes:
  "public_inputs_hashes A example_batch vkey = Inr [keccak256 A (signed_buffer A example_batch vkey 0)]"
  by (subst public_inputs_hashes_Inr)
    (simp add: wf_plan_def wf_row_def batch_plan_def Let_def)

lemma example_hash_list_delimits:
  "encode_hash_list example_alloy xs @ r = encode_hash_list example_alloy ys @ s \<Longrightarrow> xs = ys"
proof -
  let ?e = "\<lambda>hs. replicate (length hs) 1 @ 0 # concat (map (be_bytes 32) hs) :: bytes"
  have flat: "length xs = length ys \<Longrightarrow> concat (map (be_bytes 32) xs) @ r = concat (map (be_bytes 32) ys) @ s \<Longrightarrow> xs = ys"
    for xs ys :: "b256 list" by (induction xs ys rule: list_induct2) (auto simp: be_bytes_inject)
  have ones: "takeWhile (\<lambda>b. b = 1) (replicate n 1 @ 0 # t) = replicate n (1 :: byte)" for n t
    by (induction n) simp_all
  have len: "takeWhile (\<lambda>b. b = 1) (?e hs @ t) = replicate (length hs) 1" for hs :: "b256 list" and t
    using ones[of "length hs" "concat (map (be_bytes 32) hs) @ t"] by simp
  assume e: "encode_hash_list example_alloy xs @ r = encode_hash_list example_alloy ys @ s"
  then have eq: "?e xs @ r = ?e ys @ s" by (simp add: example_alloy_def)
  then have "replicate (length xs) (1 :: byte) = replicate (length ys) 1" using len[of xs r] len[of ys s] by metis
  then have "length xs = length ys" by (metis length_replicate)
  with eq flat show "xs = ys" by simp
qed

theorem public_inputs_bind_witness:
  "attested (batch_plan example_batch 9) 0 = [(7, 9)]
   \<and> (\<exists>hs. public_inputs_hashes example_alloy example_batch 9 = Inr hs \<and> 0 < length hs)
   \<and> entries example_batch = entries example_batch"
proof -
  have laws: "coder_laws example_alloy (set (entries example_batch) \<union> set (entries example_batch))
      (set (staticEntries example_batch) \<union> set (staticEntries example_batch))"
    using example_hash_list_delimits
    by (auto simp: coder_laws_def inj_def) (auto simp: example_alloy_def be_bytes_inject)
  let ?cd = "encode_custom_data example_alloy (7, [])" and ?sh = "batch_shared_buffer example_alloy example_batch"
  let ?sg = "signed_buffer example_alloy example_batch 9 0" and ?fl = "fold_link example_alloy 0 (7, 9)"
  have "length ?cd = 8" "length ?fl = 72" by (simp_all add: example_alloy_def fold_link_def)
  moreover have "length ?sg = 64" by (simp add: signed_buffer_def)
  moreover have "length ?sh = 89" by (simp add: batch_shared_buffer_def shared_buffer_def) (simp add: example_alloy_def)
  ultimately have "collision_free example_alloy {[], ?cd, ?sh, ?sg, ?fl}"
    by (intro example_alloy_lengths) (simp_all add: inj_on_def)
  then have "collision_free example_alloy (batch_preimages example_alloy example_batch 9 (of_nat 0)
      \<union> batch_preimages example_alloy example_batch 9 (of_nat 0))"
    by (rule collision_free_mono) (auto simp: batch_preimages_def example_batch_attested)
  from public_inputs_bind[OF example_batch_hashes example_batch_hashes _ _ _ laws this] example_batch_hashes
  show ?thesis using example_batch_attested by auto
qed

text \<open>
  C26. The hash the signer computes is the plan's own: for a supported batch, reconstructing the proof
  plan and hashing it through \<open>all_per_ps_hashes\<close> gives the same list of hashes, with the same
  errors of the structural check.
\<close>

theorem public_inputs_via_plan:
  assumes "\<not> bindMsgSenderInPublicInput b" "blockNumber b = 0" "blobIndices b = []"
  shows "public_inputs_hashes A b vkey = map_err InvalidPlan (all_per_ps_hashes A (batch_plan b vkey)
    (map (entry_hash A) (entries b)) (map (static_entry_hash A) (staticEntries b)) [] (batch_callData b) 0)"
proof -
  have "map (\<lambda>(a, d). custom_data_hash A (rpa_rollup_id a) d)
      (zip (rollup_assignments (batch_plan b vkey)) (custom_data (batch_plan b vkey)))
    = map (\<lambda>r. custom_data_hash A (rps_rollupId r) []) (rollupIdsWithProofSystems b)"
    by (rule nth_equalityI) (simp_all add: batch_plan_def Let_def)
  then show ?thesis
    using assms by (cases "check_invariants (batch_plan b vkey)")
      (simp_all add: public_inputs_hashes_def all_per_ps_hashes_def batch_shared_public_input_def Let_def)
qed

theorem public_inputs_via_plan_witness:
  "all_per_ps_hashes example_alloy (batch_plan example_batch 9) [] [] [] [] 0
    = Inr [keccak256 example_alloy (signed_buffer example_alloy example_batch 9 0)]"
proof -
  have "public_inputs_hashes example_alloy example_batch 9
      = map_err InvalidPlan (all_per_ps_hashes example_alloy (batch_plan example_batch 9) [] [] [] [] 0)"
    using public_inputs_via_plan[of example_batch example_alloy 9] by simp
  then have "map_err InvalidPlan (all_per_ps_hashes example_alloy (batch_plan example_batch 9) [] [] [] [] 0)
      = Inr [keccak256 example_alloy (signed_buffer example_alloy example_batch 9 0)]"
    by (simp only: example_batch_hashes)
  then show ?thesis by simp
qed

end
