(* ===== verification/Post_Batch.thy ===== *)
theory Post_Batch
  imports Proof_Plan Entries
begin

text \<open>
  Canonical post-batch decoding and the public-input profile the signer supports
  (\<^verbatim>\<open>crates/eez-proof-signer/src/settlement/post_batch.rs\<close>) with the attester's identity checks
  (\<^verbatim>\<open>attest.rs\<close>). The lemmas give the exact profile and show that a batch inside it always has one
  hash.
\<close>

section \<open>Decoding\<close>

datatype post_batch_decode_error = InvalidBatchAbi | NonCanonicalBatch

definition get_from :: "bytes \<Rightarrow> nat \<Rightarrow> bytes option" where
  "get_from bs i = (if i \<le> length bs then Some (drop i bs) else None)"

definition decode_canonical_post_batch :: "alloy \<Rightarrow> bytes \<Rightarrow> post_batch_decode_error + evm_batch" where
  "decode_canonical_post_batch A calldata =
     and_then (ok_or InvalidBatchAbi (decode_postbatch A calldata)) (\<lambda>batch.
     if get_from calldata 4 \<noteq> Some (encode_batch_args A batch) then Inl NonCanonicalBatch else Inr batch)"

definition entry_hash_at :: "alloy \<Rightarrow> evm_batch \<Rightarrow> nat \<Rightarrow> b256 option" where
  "entry_hash_at A batch i =
     (if i < length (entries batch) then Some (keccak256 A (encode_entry A (entries batch ! i))) else None)"

section \<open>The profile\<close>

datatype structure_error =
    ProofSystemCount nat
  | WrongProofSystem address address
  | RollupAssignmentCount nat
  | WrongRollup u64 u64
  | WrongProofSystemIndexes
  | ExpectedRootsPresent
  | WrongDestination nat u64
  | StaticEntriesPresent nat
  | ImmediateStaticEntries u256
  | ImmediateCountTooLarge u256
  | ImmediateCountMismatch nat nat
  | BlockNumberPresent u64
  | BlobIndicesPresent nat
  | SenderBindingPresent

datatype public_input_error =
    InvalidStructure structure_error
  | Computation public_inputs_error
  | HashCount nat

fun check_destinations :: "u64 \<Rightarrow> nat \<Rightarrow> execution_entry list \<Rightarrow> structure_error + unit" where
  "check_destinations rollup i [] = Inr ()"
| "check_destinations rollup i (e # es) =
     (if destinationRollupId e \<noteq> rollup then Inl (WrongDestination i (destinationRollupId e))
      else check_destinations rollup (Suc i) es)"

definition validate_public_input_structure :: "evm_batch \<Rightarrow> u64 \<Rightarrow> address \<Rightarrow> structure_error + unit" where
  "validate_public_input_structure batch rollup proof_system =
     (if length (proofSystems batch) \<noteq> 1 then Inl (ProofSystemCount (length (proofSystems batch)))
      else if hd (proofSystems batch) \<noteq> proof_system
      then Inl (WrongProofSystem (hd (proofSystems batch)) proof_system)
      else if length (rollupIdsWithProofSystems batch) \<noteq> 1
      then Inl (RollupAssignmentCount (length (rollupIdsWithProofSystems batch)))
      else let assignment = hd (rollupIdsWithProofSystems batch) in
        if rps_rollupId assignment \<noteq> rollup then Inl (WrongRollup (rps_rollupId assignment) rollup)
        else if proofSystemIndexes assignment \<noteq> [0] then Inl WrongProofSystemIndexes
        else if expectedRootPerRollup batch \<noteq> [] then Inl ExpectedRootsPresent
        else and_then (check_destinations rollup 0 (entries batch)) (\<lambda>_.
          if staticEntries batch \<noteq> [] then Inl (StaticEntriesPresent (length (staticEntries batch)))
          else if immediateStaticEntryCount batch \<noteq> 0
          then Inl (ImmediateStaticEntries (immediateStaticEntryCount batch))
          else if unat (immediateEntryCount batch) \<ge> 2 ^ 64
          then Inl (ImmediateCountTooLarge (immediateEntryCount batch))
          else let immediate = unat (immediateEntryCount batch);
                   leading = length (takeWhile (\<lambda>e. proxyEntryHash e = 0) (entries batch)) in
            if immediate \<noteq> leading then Inl (ImmediateCountMismatch immediate leading)
            else if blockNumber batch \<noteq> 0 then Inl (BlockNumberPresent (blockNumber batch))
            else if blobIndices batch \<noteq> [] then Inl (BlobIndicesPresent (length (blobIndices batch)))
            else if bindMsgSenderInPublicInput batch then Inl SenderBindingPresent
            else Inr ()))"

definition checked_profile_new :: "evm_batch \<Rightarrow> u64 \<Rightarrow> address \<Rightarrow> public_input_error + evm_batch" where
  "checked_profile_new batch rollup proof_system =
     and_then (map_err InvalidStructure (validate_public_input_structure batch rollup proof_system)) (\<lambda>_. Inr batch)"

definition recompute_public_inputs_hash :: "alloy \<Rightarrow> evm_batch \<Rightarrow> b256 \<Rightarrow> public_input_error + b256" where
  "recompute_public_inputs_hash A batch vkey =
     and_then (map_err Computation (public_inputs_hashes A batch vkey)) (\<lambda>hashes.
     if length hashes \<noteq> 1 then Inl (HashCount (length hashes)) else Inr (hd hashes))"

section \<open>The attester\<close>

definition vkey_new :: "b256 \<Rightarrow> b256 option" where
  "vkey_new v = (if v \<noteq> 0 then Some v else None)"

datatype attester_config_error = InvalidPrivateKey | ReservedSystemAddress | ZeroProofSystem

record 'k attester =
  att_signer :: 'k
  att_vkey :: b256
  att_proof_system :: address
  att_system_address :: address

text \<open>Key parsing and address derivation of the signing library are the arguments \<open>parse\<close> and \<open>addr\<close>.\<close>

definition attester_new ::
    "(b256 \<Rightarrow> 'k option) \<Rightarrow> ('k \<Rightarrow> address) \<Rightarrow> b256 \<Rightarrow> b256 \<Rightarrow> address \<Rightarrow> address \<Rightarrow> attester_config_error + 'k attester" where
  "attester_new parse addr private_key vkey proof_system system_address =
     (if proof_system = 0 then Inl ZeroProofSystem
      else and_then (ok_or InvalidPrivateKey (parse private_key)) (\<lambda>signer.
        if addr signer = system_address then Inl ReservedSystemAddress
        else Inr \<lparr>att_signer = signer, att_vkey = vkey, att_proof_system = proof_system,
          att_system_address = system_address\<rparr>))"

section \<open>Exactness\<close>

definition supported_profile :: "u64 \<Rightarrow> address \<Rightarrow> evm_batch \<Rightarrow> bool" where
  "supported_profile rollup proof_system b \<longleftrightarrow> proofSystems b = [proof_system]
     \<and> rollupIdsWithProofSystems b = [\<lparr>rps_rollupId = rollup, proofSystemIndexes = [0]\<rparr>]
     \<and> expectedRootPerRollup b = [] \<and> (\<forall>e \<in> set (entries b). destinationRollupId e = rollup)
     \<and> staticEntries b = [] \<and> immediateStaticEntryCount b = 0
     \<and> unat (immediateEntryCount b) = length (takeWhile (\<lambda>e. proxyEntryHash e = 0) (entries b))
     \<and> unat (immediateEntryCount b) < 2 ^ 64
     \<and> blockNumber b = 0 \<and> blobIndices b = [] \<and> \<not> bindMsgSenderInPublicInput b"

lemma check_destinations_Inr: "check_destinations r i es = Inr () \<longleftrightarrow> (\<forall>e \<in> set es. destinationRollupId e = r)"
  by (induction r i es rule: check_destinations.induct) auto

lemma validate_structure_Inr:
  "validate_public_input_structure b rollup ps = Inr () \<longleftrightarrow> supported_profile rollup ps b"
proof -
  have ps: "length (proofSystems b) = 1 \<and> hd (proofSystems b) = ps \<longleftrightarrow> proofSystems b = [ps]"
    by (cases "proofSystems b") auto
  have rps: "length (rollupIdsWithProofSystems b) = 1 \<and> rps_rollupId (hd (rollupIdsWithProofSystems b)) = rollup
      \<and> proofSystemIndexes (hd (rollupIdsWithProofSystems b)) = [0]
      \<longleftrightarrow> rollupIdsWithProofSystems b = [\<lparr>rps_rollupId = rollup, proofSystemIndexes = [0]\<rparr>]"
    by (cases "rollupIdsWithProofSystems b") auto
  show ?thesis
    unfolding supported_profile_def ps[symmetric] rps[symmetric]
    by (auto simp: validate_public_input_structure_def Let_def if_Inl_eq_Inr and_then_eq_Inr check_destinations_Inr)
qed

lemma decode_canonical_Inr:
  "decode_canonical_post_batch A cd = Inr b \<longleftrightarrow>
     decode_postbatch A cd = Some b \<and> 4 \<le> length cd \<and> drop 4 cd = encode_batch_args A b"
  by (auto simp: decode_canonical_post_batch_def and_then_eq_Inr get_from_def split: if_splits)

lemma recompute_supported:
  assumes "supported_profile rollup ps b" "rollup \<noteq> 0" "ps \<noteq> 0"
  shows "recompute_public_inputs_hash A b vkey = Inr (keccak256 A (signed_buffer A b vkey 0))"
proof -
  have "wf_plan (batch_plan b vkey)"
    using assms by (simp add: supported_profile_def wf_plan_def wf_row_def batch_plan_def Let_def word_neq_0_conv)
  then have "public_inputs_hashes A b vkey = Inr [keccak256 A (signed_buffer A b vkey 0)]"
    using assms(1) by (subst public_inputs_hashes_Inr) (simp add: supported_profile_def)
  then show ?thesis by (simp add: recompute_public_inputs_hash_def)
qed

section \<open>Properties\<close>

text \<open>
  C19. The signer's profile is exact and leaves nothing to fail. A decoded batch is admitted if and only if
  it names exactly the configured proof system and rollup, targets only that rollup, carries no static
  entries, expected roots, blobs, block number or sender binding, and counts as immediate exactly its
  leading entries without a proxy hash; and for every admitted batch of a configured (non-zero) rollup and
  proof system the public-input hash exists, so the internal-error branches of the computation are
  unreachable.
\<close>

theorem supported_profile_exact:
  assumes "rollup \<noteq> 0" "ps \<noteq> 0"
  shows "(checked_profile_new b rollup ps = Inr b' \<longleftrightarrow> supported_profile rollup ps b \<and> b' = b)
    \<and> (supported_profile rollup ps b \<longrightarrow>
        recompute_public_inputs_hash A b vkey = Inr (keccak256 A (signed_buffer A b vkey 0)))"
  using recompute_supported[OF _ assms]
  by (auto simp: checked_profile_new_def and_then_eq_Inr validate_structure_Inr)

theorem supported_profile_exact_witness:
  "checked_profile_new example_batch 7 1 = Inr example_batch
   \<and> recompute_public_inputs_hash example_alloy example_batch 9
      = Inr (keccak256 example_alloy (signed_buffer example_alloy example_batch 9 0))"
proof -
  have "supported_profile 7 1 example_batch"
    by (simp add: supported_profile_def example_batch_def default_batch_def)
  then show ?thesis
    using supported_profile_exact[of 7 1 example_batch example_batch example_alloy 9] by simp
qed

end
