(* ===== verification/Settlement_Job.thy ===== *)
theory Settlement_Job
  imports Da_Payload Post_Batch
begin

text \<open>
  The settlement job of one \<open>Prove\<close> request (\<^verbatim>\<open>crates/eez-proof-signer/src/service/settlement_job.rs\<close>):
  the gates of the other theories in the order the code runs them, the machine-readable eviction hints, and the
  mapping of every failure to its gate and public status. The properties state what an attestable hash
  means: the batch binds the executed window, its ether balance and its data.
\<close>

section \<open>Errors\<close>

datatype prove_failure = OutboundFailure u32 bytes | InboundFailure u32 bytes

datatype settlement_pipeline_error =
    Actionable settlement_pipeline_error prove_failure
  | PostBatchCalldata post_batch_decode_error
  | PublicInputs public_input_error
  | BlockInspection block_inspection_error
  | RollupUpdateChain update_chain_error
  | EffectPrefix effect_prefix_error
  | InboundEffects inbound_effect_error
  | OutboundEffects outbound_effect_error
  | DaPayload da_payload_error
  | SettlementCancelled

datatype pipeline_error =
    Validation validation_error
  | Settlement settlement_pipeline_error
  | DeadlineBeforeSettlement

fun settlement_gate :: "settlement_pipeline_error \<Rightarrow> string" where
  "settlement_gate (Actionable source failure) = settlement_gate source"
| "settlement_gate (PostBatchCalldata _) = ''post_batch_calldata''"
| "settlement_gate (PublicInputs _) = ''public_inputs''"
| "settlement_gate (BlockInspection _) = ''block_inspection''"
| "settlement_gate (RollupUpdateChain _) = ''state_update_chain''"
| "settlement_gate (EffectPrefix _) = ''effect_prefix''"
| "settlement_gate (InboundEffects _) = ''inbound_effects''"
| "settlement_gate (OutboundEffects _) = ''outbound_effects''"
| "settlement_gate (DaPayload _) = ''da_payload''"
| "settlement_gate SettlementCancelled = ''cancellation''"

fun pipeline_phase :: "pipeline_error \<Rightarrow> string" where
  "pipeline_phase (Validation _) = ''validation''"
| "pipeline_phase _ = ''settlement''"

fun pipeline_gate :: "pipeline_error \<Rightarrow> string" where
  "pipeline_gate (Validation _) = ''execution''"
| "pipeline_gate (Settlement e) = settlement_gate e"
| "pipeline_gate DeadlineBeforeSettlement = ''deadline''"

section \<open>Public statuses\<close>

datatype grpc_code =
    CodeOk
  | CodeCancelled
  | CodeUnknown
  | CodeInvalidArgument
  | CodeDeadlineExceeded
  | CodeNotFound
  | CodeAlreadyExists
  | CodePermissionDenied
  | CodeResourceExhausted
  | CodeFailedPrecondition
  | CodeAborted
  | CodeOutOfRange
  | CodeUnimplemented
  | CodeInternal
  | CodeUnavailable
  | CodeDataLoss
  | CodeUnauthenticated

record status =
  status_code :: grpc_code
  status_message :: string
  status_details :: "prove_failure option"

definition status_new :: "grpc_code \<Rightarrow> string \<Rightarrow> status" where
  "status_new code message = \<lparr>status_code = code, status_message = message, status_details = None\<rparr>"

definition settlement_rejected :: status where
  "settlement_rejected = status_new CodeFailedPrecondition ''settlement validation rejected''"

definition backend_invalid :: status where
  "backend_invalid = status_new CodeInternal ''validation backend returned invalid output''"

fun settlement_status :: "settlement_pipeline_error \<Rightarrow> status" where
  "settlement_status (Actionable source failure) = (settlement_status source)\<lparr>status_details := Some failure\<rparr>"
| "settlement_status (PostBatchCalldata _) = status_new CodeInvalidArgument ''invalid PostBatch calldata''"
| "settlement_status (PublicInputs (InvalidStructure _)) = settlement_rejected"
| "settlement_status (PublicInputs _) =
     status_new CodeInternal ''public-input hash computation violated its contract''"
| "settlement_status (BlockInspection _) = settlement_rejected"
| "settlement_status (RollupUpdateChain _) = settlement_rejected"
| "settlement_status (EffectPrefix e) =
     (case e of
        CheckpointCountMismatch _ _ \<Rightarrow> backend_invalid
      | CheckpointIndexMismatch _ _ _ \<Rightarrow> backend_invalid
      | AnchorCheckpointPositionMismatch _ \<Rightarrow> backend_invalid
      | _ \<Rightarrow> settlement_rejected)"
| "settlement_status (InboundEffects _) = settlement_rejected"
| "settlement_status (OutboundEffects _) = settlement_rejected"
| "settlement_status (DaPayload e) =
     (case e of
        DaDecode _ \<Rightarrow> status_new CodeInvalidArgument ''invalid batch callData''
      | DaWrongRollup _ _ \<Rightarrow> status_new CodeInvalidArgument ''invalid batch callData''
      | DaTrailingBytes _ \<Rightarrow> status_new CodeInvalidArgument ''invalid batch callData''
      | SystemTransactionReconstruction _ \<Rightarrow> backend_invalid
      | InvalidEffectTransactionLayout \<Rightarrow> backend_invalid
      | _ \<Rightarrow> settlement_rejected)"
| "settlement_status SettlementCancelled = status_new CodeCancelled ''Prove request cancelled''"

fun pipeline_status :: "pipeline_error \<Rightarrow> status" where
  "pipeline_status (Validation e) =
     (case e of
        DeadlineExceeded \<Rightarrow> status_new CodeDeadlineExceeded ''block validation deadline exceeded''
      | Unavailable _ \<Rightarrow> status_new CodeUnavailable ''validation backend is temporarily unavailable''
      | Aborted _ \<Rightarrow> status_new CodeAborted ''validation backend snapshot changed during validation''
      | Rejected _ \<Rightarrow> status_new CodeFailedPrecondition ''window validation rejected''
      | InvalidBackendOutput _ \<Rightarrow> backend_invalid
      | InternalInvariant _ \<Rightarrow> status_new CodeInternal ''request pipeline invariant failed''
      | ValidationCancelled \<Rightarrow> status_new CodeCancelled ''Prove request cancelled'')"
| "pipeline_status (Settlement e) = settlement_status e"
| "pipeline_status DeadlineBeforeSettlement = status_new CodeDeadlineExceeded ''Prove request deadline exceeded''"

section \<open>Eviction hints\<close>

definition try_into_u32 :: "nat \<Rightarrow> u32 option" where
  "try_into_u32 n = (if n < 2 ^ 32 then Some (of_nat n) else None)"

definition outbound_failure :: "nat \<Rightarrow> b256 \<Rightarrow> prove_failure option" where
  "outbound_failure transaction_index transaction_hash =
     map_option (\<lambda>i. OutboundFailure i (be_bytes 32 transaction_hash)) (try_into_u32 transaction_index)"

fun actionable_block_inspection_failure :: "alloy \<Rightarrow> block_inspection_error \<Rightarrow> validated_block \<Rightarrow> prove_failure option" where
  "actionable_block_inspection_failure A (RevertedSystemTransaction index) block =
     Option.bind (paired_outbound_transaction A block index) (\<lambda>(i, h). outbound_failure i h)"
| "actionable_block_inspection_failure A _ block = None"

definition actionable_outbound_failure :: "alloy \<Rightarrow> outbound_effect_error \<Rightarrow> validated_block \<Rightarrow> prove_failure option" where
  "actionable_outbound_failure A error block =
     Option.bind (poisoned_transaction_index error) (\<lambda>i.
     Option.bind (transaction_hash_at A block i) (\<lambda>h. outbound_failure i h))"

definition actionable_inbound_failure :: "alloy \<Rightarrow> inbound_effect_error \<Rightarrow> evm_batch \<Rightarrow> prove_failure option" where
  "actionable_inbound_failure A error batch =
     Option.bind (poisoned_entry_index error) (\<lambda>i.
     Option.bind (entry_hash_at A batch i) (\<lambda>h.
     map_option (\<lambda>k. InboundFailure k (be_bytes 32 h)) (try_into_u32 i)))"

definition with_actionable :: "settlement_pipeline_error \<Rightarrow> prove_failure option \<Rightarrow> settlement_pipeline_error" where
  "with_actionable e failure = (case failure of Some f \<Rightarrow> Actionable e f | None \<Rightarrow> e)"

section \<open>The job\<close>

record settlement_config =
  cfg_rollup :: u64
  cfg_system_address :: address
  cfg_vkey :: b256
  cfg_proof_system :: address
  cfg_reconstructor :: system_tx_context

definition ensure_settlement_active :: "bool \<Rightarrow> settlement_pipeline_error + unit" where
  "ensure_settlement_active cancelled = (if cancelled then Inl SettlementCancelled else Inr ())"

text \<open>The two polls of the cancellation flag, before decoding and before the data check, are arguments.\<close>

definition run_settlement ::
    "alloy \<Rightarrow> settlement_config \<Rightarrow> bool \<Rightarrow> bool \<Rightarrow> bytes \<Rightarrow> validated_window \<Rightarrow> settlement_pipeline_error + b256" where
  "run_settlement A cfg cancelled_at_start cancelled_at_data calldata w =
     and_then (ensure_settlement_active cancelled_at_start) (\<lambda>_.
     let settling = settling_block w; rollup = cfg_rollup cfg in
     and_then (map_err PostBatchCalldata (decode_canonical_post_batch A calldata)) (\<lambda>batch.
     and_then (map_err PublicInputs (checked_profile_new batch rollup (cfg_proof_system cfg))) (\<lambda>profile.
     and_then (map_err RollupUpdateChain (verify_state_update_chain batch rollup (window_pre_block_hash w)
       (window_post_block_hash w))) (\<lambda>verified.
     and_then (map_err (\<lambda>e. with_actionable (BlockInspection e) (actionable_block_inspection_failure A e settling))
       (inspect_validated_settling_block A settling rollup)) (\<lambda>obs.
     and_then (map_err BlockInspection (verify_validated_intermediate_blocks (preceding_blocks w))) (\<lambda>_.
     and_then (map_err EffectPrefix (bind_effects_to_execution A verified (vb_checkpoints settling) obs)) (\<lambda>bound.
     and_then (map_err (\<lambda>e. with_actionable (InboundEffects e) (actionable_inbound_failure A e batch))
       (authorize_inbound_effects A bound rollup)) (\<lambda>inbound.
     and_then (map_err (\<lambda>e. with_actionable (OutboundEffects e) (actionable_outbound_failure A e settling))
       (authorize_outbound_effects A bound rollup (cfg_system_address cfg))) (\<lambda>outbound.
     and_then (ensure_settlement_active cancelled_at_data) (\<lambda>_.
     and_then (map_err DaPayload (verify_da_payload A batch w outbound inbound (cfg_reconstructor cfg) rollup)) (\<lambda>_.
     map_err PublicInputs (recompute_public_inputs_hash A profile (cfg_vkey cfg)))))))))))))"

record attestation_material =
  attestable_public_inputs_hash :: b256
  validated_window_pre_block_hash :: b256
  validated_window_post_block_hash :: b256

text \<open>Whether the deadline has passed when validation returns is the argument \<open>late\<close>.\<close>

definition validate_and_settle ::
    "alloy \<Rightarrow> settlement_config
     \<Rightarrow> (admitted_block list \<Rightarrow> execution_witness list \<Rightarrow> validation_error + validated_block list)
     \<Rightarrow> bool \<Rightarrow> bool \<Rightarrow> bool \<Rightarrow> admitted_block list \<Rightarrow> bytes \<Rightarrow> pipeline_error + attestation_material" where
  "validate_and_settle A cfg backend late cancelled_at_start cancelled_at_data blocks calldata =
     and_then (map_err Validation (validate_window backend blocks)) (\<lambda>w.
     if late then Inl DeadlineBeforeSettlement
     else and_then (map_err Settlement (run_settlement A cfg cancelled_at_start cancelled_at_data calldata w)) (\<lambda>h.
       Inr \<lparr>attestable_public_inputs_hash = h, validated_window_pre_block_hash = window_pre_block_hash w,
            validated_window_post_block_hash = window_post_block_hash w\<rparr>))"

section \<open>What an attestable hash has passed\<close>

lemma ensure_active_Inr: "ensure_settlement_active c = Inr () \<longleftrightarrow> \<not> c"
  by (simp add: ensure_settlement_active_def)

lemma run_settlement_Inr:
  assumes "run_settlement A cfg c1 c2 calldata w = Inr h"
  obtains batch bound ins outs where
    "decode_canonical_post_batch A calldata = Inr batch"
    "supported_profile (cfg_rollup cfg) (cfg_proof_system cfg) batch"
    "entries batch \<noteq> []" "list_all (updates_only (cfg_rollup cfg)) (entries batch)"
    "commitment_path (entries batch) (window_pre_block_hash w) (window_post_block_hash w)"
    "list_all (sender_ok A) (block_rows (settling_block w))"
    "verify_validated_intermediate_blocks (preceding_blocks w) = Inr ()"
    "bind_effects_to_execution A \<lparr>chain_rollup = cfg_rollup cfg, chain_leading = with_update (hd (entries batch)),
        chain_trailing = map with_update (tl (entries batch))\<rparr> (vb_checkpoints (settling_block w))
      \<lparr>obs_system_sender_flags = evd_system_sender_flags (vb_evidence (settling_block w)),
        obs_inbound_candidates = candidates_from A (cfg_rollup cfg) 0 (block_rows (settling_block w)),
        obs_outbound_event_candidates = evd_outbound_events (vb_evidence (settling_block w))\<rparr> = Inr bound"
    "authorize_inbound_effects A bound (cfg_rollup cfg) = Inr ins"
    "authorize_outbound_effects A bound (cfg_rollup cfg) (cfg_system_address cfg) = Inr outs"
    "verify_da_payload A batch w outs ins (cfg_reconstructor cfg) (cfg_rollup cfg) = Inr ()"
    "recompute_public_inputs_hash A batch (cfg_vkey cfg) = Inr h"
  using assms unfolding run_settlement_def Let_def and_then_eq_Inr map_err_eq_Inr checked_profile_new_def
    verify_state_update_chain_Inr inspect_settling_Inr sum.inject
  by (elim exE conjE) (rule that; simp flip: validate_structure_Inr)

text \<open>The commitments of the entries are the checkpoints of the settling block.\<close>

lemma bound_commitments:
  assumes bind: "bind_effects_to_execution A \<lparr>chain_rollup = rollup, chain_leading = with_update (hd es),
      chain_trailing = map with_update (tl es)\<rparr> cps obs = Inr b" and "es \<noteq> []"
  shows "map cp_at cps = PreExecution # map Transaction (effect_candidate_positions obs)"
    and "map (\<lambda>e. ru_newRoot (sole e)) es = map cp_block_hash cps"
proof -
  let ?ps = "effect_candidate_positions obs"
  from bind have len: "length (tl es) = length ?ps" "length cps = Suc (length ?ps)"
    and hd: "cp_at (hd cps) = PreExecution" "ru_newRoot (sole (hd es)) = cp_block_hash (hd cps)"
    and row: "\<And>j. j < length (tl es) \<Longrightarrow> bound_row obs (with_update (tl es ! j)) (?ps ! j) (cps ! Suc j)"
    by (auto simp: bind_effects_Inr Let_def with_update_def)
  obtain c cs where cps: "cps = c # cs" using len(2) by (cases cps) auto
  obtain e fs where es: "es = e # fs" using assms(2) by (cases es) auto
  show "map cp_at cps = PreExecution # map Transaction ?ps"
    using len hd row unfolding cps es by (auto intro!: nth_equalityI simp: bound_row_def)
  show "map (\<lambda>e. ru_newRoot (sole e)) es = map cp_block_hash cps"
    using len hd row unfolding cps es by (auto intro!: nth_equalityI simp: bound_row_def with_update_def)
qed

section \<open>Ether\<close>

definition delivered_value :: "alloy \<Rightarrow> validated_block \<Rightarrow> int" where
  "delivered_value A v = sum_list (map (\<lambda>row. uint (tx_value (fst (fst row)))) (filter (is_candidate A) (block_rows v)))"

definition withdrawn_value :: "execution_entry list \<Rightarrow> int" where
  "withdrawn_value es = sum_list (map (\<lambda>e. sum_list (map (\<lambda>call. uint (call_value call)) (l2ToL1Calls e))) es)"

definition ether_balance :: "execution_entry list \<Rightarrow> int" where
  "ether_balance es = sum_list (map (\<lambda>e. sint (ru_etherDelta (sole e))) es)"

lemma i192_Some: "u256_to_i192 v = Some d \<Longrightarrow> sint d = uint v"
  using u256_to_i192_sint[of v] by (simp split: if_splits)

lemma sint_uminus_192: "0 \<le> sint (d :: 192 word) \<Longrightarrow> sint (- d) = - sint d"
proof -
  assume "0 \<le> sint d"
  moreover have "sint d < 2 ^ 191" using sint_lt[of d] by simp
  ultimately show ?thesis
    using signed_take_bit_int_eq_self[of 191 "- sint d"] by (simp add: sint_word_ariths)
qed

lemma sum_list_partition:
  "sum_list (map f xs) = sum_list (map f (filter P xs)) + sum_list (map f (filter (\<lambda>x. \<not> P x) xs))" for f :: "'a \<Rightarrow> int"
  by (induction xs) auto

lemma sum_list_all2:
  "list_all2 (\<lambda>x y. f x = g y) xs ys \<Longrightarrow> sum_list (map f xs) = sum_list (map g ys)" for f :: "'a \<Rightarrow> int"
  by (induction xs ys rule: list_all2_induct) auto

lemma sum_list_negated: "(\<And>x. x \<in> set xs \<Longrightarrow> f x = - g x) \<Longrightarrow> sum_list (map f xs) = - sum_list (map g xs)" for f :: "'a \<Rightarrow> int"
  by (induction xs) auto

lemma list_all2_partner: "list_all2 P xs ys \<Longrightarrow> x \<in> set xs \<Longrightarrow> \<exists>y. P x y"
  by (induction rule: list_all2_induct) auto

definition candidate_value :: "inbound_candidate \<Rightarrow> int" where
  "candidate_value c = uint (io_value (projr (cand_inspection c)))"

lemma candidates_value:
  assumes "\<forall>c \<in> set (candidates_from A rollup i rows). \<exists>ob. cand_inspection c = Inr ob"
  shows "sum_list (map candidate_value (candidates_from A rollup i rows))
    = sum_list (map (\<lambda>row. uint (tx_value (fst (fst row)))) (filter (is_candidate A) rows))"
  using assms
proof (induction A rollup i rows rule: candidates_from.induct)
  case (2 A rollup i tx sys ok rest)
  let ?c = "inspect_inbound_candidate A (tx_value tx) (tx_input tx) ok rollup"
  have "candidate_value \<lparr>cand_transaction_index = i, cand_inspection = ?c\<rparr> = uint (tx_value tx)"
    if "is_candidate A ((tx, sys), ok)"
  proof -
    have "\<exists>ob. ?c = Inr ob" using 2(2) that by simp
    then obtain ob where ob: "?c = Inr ob" ..
    then obtain k where "ob = observed A k" "(tx_input tx, tx_value tx) = deliver_payload A k"
      using inspect_inbound_sound by blast
    then show ?thesis unfolding candidate_value_def inbound_candidate.select_convs ob by (simp add: observed_def deliver_payload_def)
  qed
  moreover have "\<forall>c \<in> set (candidates_from A rollup (Suc i) rest). \<exists>ob. cand_inspection c = Inr ob" using 2(2) by simp
  ultimately show ?case using 2(1) by simp
qed simp

lemma bound_balance:
  assumes bind: "bind_effects_to_execution A \<lparr>chain_rollup = rollup, chain_leading = with_update (hd es),
      chain_trailing = map with_update (tl es)\<rparr> cps obs = Inr b" and ne: "es \<noteq> []"
    and ins: "authorize_inbound_effects A b rollup = Inr bs" and outs: "authorize_outbound_effects A b rollup sys = Inr cs"
  shows "ether_balance es = sum_list (map candidate_value (obs_inbound_candidates obs)) - withdrawn_value es"
    and "\<forall>c \<in> set (obs_inbound_candidates obs). \<exists>ob. cand_inspection c = Inr ob"
proof -
  let ?es = "bes_effects b" and ?d = "\<lambda>e. sint (ru_etherDelta (be_update e))"
  let ?w = "\<lambda>e. sum_list (map (\<lambda>call. uint (call_value call)) (l2ToL1Calls e))"
  note asc = bound_effects_ascending[OF bind]
  from ins have i: "list_all2 (\<lambda>e c. cand_transaction_index c = be_transaction_index e \<and> inbound_pair_ok A rollup e c)
      (filter is_inbound ?es) (obs_inbound_candidates obs)"
    unfolding authorize_inbound_effects_Inr[OF asc(1)] asc(2) by blast
  from outs have o: "list_all2 (\<lambda>e ob. obs_transaction_index ob = be_transaction_index e
        \<and> outbound_pair_ok A rollup sys (obs_system_sender_flags obs) e ob)
      (filter is_outbound ?es) (obs_outbound_event_candidates obs)"
    unfolding authorize_outbound_effects_Inr[OF asc(1)] asc(2) by blast
  have rows: "map be_entry ?es = tl es" "map be_update ?es = map sole (tl es)"
    and anchor: "ru_etherDelta (sole (hd es)) = 0" "l2ToL1Calls (hd es) = []"
    and shapes: "\<forall>e \<in> set ?es. be_kind e = entry_kind (be_entry e) \<and> effect_entry (be_entry e)"
    using bind by (auto simp: bind_effects_Inr Let_def with_update_def bound_at_def anchor_entry_def list_all_length
        intro!: nth_equalityI)
  have "?d e = candidate_value c" if "inbound_pair_ok A rollup e c" for e c
    using that i192_Some by (auto simp: inbound_pair_ok_def inbound_effect_ok_def candidate_value_def)
  with i have "list_all2 (\<lambda>e c. ?d e = candidate_value c) (filter is_inbound ?es) (obs_inbound_candidates obs)"
    by (auto elim!: list_all2_mono)
  note inbound = sum_list_all2[OF this]
  show "\<forall>c \<in> set (obs_inbound_candidates obs). \<exists>ob. cand_inspection c = Inr ob"
    using i by (induction rule: list_all2_induct) (auto simp: inbound_pair_ok_def)
  have "?d e = - ?w (be_entry e)" if "e \<in> set (filter is_outbound ?es)" for e
  proof -
    from list_all2_partner[OF o that] obtain ob where "outbound_effect_ok A rollup sys e ob"
      by (auto simp: outbound_pair_ok_def)
    then show ?thesis using i192_Some by (auto simp: outbound_effect_ok_def sint_uminus_192)
  qed
  note outbound = sum_list_negated[of "filter is_outbound ?es" ?d "\<lambda>e. ?w (be_entry e)", OF this]
  have "?w (be_entry e) = 0" if "e \<in> set (filter is_inbound ?es)" for e
    using shapes that by (auto simp: entry_kind_def inbound_shape_def split: if_splits)
  then have none: "sum_list (map (\<lambda>e. ?w (be_entry e)) (filter is_inbound ?es)) = 0"
    using sum_list_negated[of "filter is_inbound ?es" "\<lambda>e. ?w (be_entry e)" "\<lambda>e. 0"] by simp
  have kind: "(\<lambda>e. \<not> is_outbound e) = is_inbound" by (metis effect_kind.exhaust effect_kind.distinct(1))
  have "map ?d ?es = map (\<lambda>e. sint (ru_etherDelta (sole e))) (tl es)"
    using arg_cong[OF rows(2), of "map (\<lambda>u. sint (ru_etherDelta u))"] by (simp add: comp_def)
  then have "ether_balance es = sum_list (map ?d ?es)"
    using ne anchor by (cases es) (simp_all add: ether_balance_def)
  moreover have "map (\<lambda>e. ?w (be_entry e)) ?es = map ?w (tl es)"
    using arg_cong[OF rows(1), of "map ?w"] by (simp add: comp_def)
  then have "withdrawn_value es = sum_list (map (\<lambda>e. ?w (be_entry e)) ?es)"
    using ne anchor by (cases es) (simp_all add: withdrawn_value_def)
  ultimately show "ether_balance es = sum_list (map candidate_value (obs_inbound_candidates obs)) - withdrawn_value es"
    using inbound outbound none sum_list_partition[where f = ?d and P = is_outbound and xs = ?es]
      sum_list_partition[where f = "\<lambda>e. ?w (be_entry e)" and P = is_outbound and xs = ?es] by (simp add: kind)
qed

section \<open>Eviction hints identify their candidate\<close>

fun names_candidate :: "alloy \<Rightarrow> validated_window \<Rightarrow> bytes \<Rightarrow> prove_failure \<Rightarrow> bool" where
  "names_candidate A w calldata (OutboundFailure i h) \<longleftrightarrow>
     (let txs = blk_transactions (vb_decoded (settling_block w)) in
      unat i < length txs \<and> h = be_bytes 32 (recalculate_hash A (txs ! unat i)))"
| "names_candidate A w calldata (InboundFailure i h) \<longleftrightarrow>
     (\<exists>batch. decode_canonical_post_batch A calldata = Inr batch \<and> unat i < length (entries batch)
       \<and> h = be_bytes 32 (keccak256 A (encode_entry A (entries batch ! unat i))))"

lemma try_into_u32_Some: "try_into_u32 n = Some i \<longleftrightarrow> n < 2 ^ 32 \<and> unat i = n"
  by (auto simp: try_into_u32_def unat_of_nat_lt of_nat_unat_id)

lemma with_actionable_Actionable:
  "Actionable e' x = with_actionable e f \<longleftrightarrow> (e = e' \<and> f = Some x) \<or> (e = Actionable e' x \<and> f = None)"
  by (auto simp: with_actionable_def split: option.splits)

lemma outbound_failure_Some:
  "outbound_failure n h = Some f \<longleftrightarrow> (\<exists>i. f = OutboundFailure i (be_bytes 32 h) \<and> n < 2 ^ 32 \<and> unat i = n)"
  by (auto simp: outbound_failure_def try_into_u32_Some)

lemma outbound_hint_names:
  assumes "transaction_hash_at A (settling_block w) i = Some h" "outbound_failure i h = Some f"
  shows "names_candidate A w calldata f"
  using assms by (auto simp: transaction_hash_at_def outbound_failure_Some Let_def split: if_splits)

lemma paired_hash: "paired_outbound_transaction A v k = Some (i, h) \<Longrightarrow> transaction_hash_at A v i = Some h"
  by (auto simp: paired_outbound_transaction_def transaction_hash_at_def Let_def get_def
      split: if_splits option.splits prod.splits)

lemma inspection_hint_names:
  assumes "actionable_block_inspection_failure A e (settling_block w) = Some f"
  shows "names_candidate A w calldata f"
proof (cases e)
  case (RevertedSystemTransaction k)
  then obtain i h where "paired_outbound_transaction A (settling_block w) k = Some (i, h)" "outbound_failure i h = Some f"
    using assms by (auto simp: bind_eq_Some_conv)
  then show ?thesis using outbound_hint_names paired_hash by blast
qed (use assms in simp_all)

lemma effect_hint_names:
  "actionable_outbound_failure A e (settling_block w) = Some f \<Longrightarrow> names_candidate A w calldata f"
  "actionable_inbound_failure A e' batch = Some f \<Longrightarrow> decode_canonical_post_batch A calldata = Inr batch
    \<Longrightarrow> names_candidate A w calldata f"
  by (auto simp: actionable_outbound_failure_def actionable_inbound_failure_def bind_eq_Some_conv entry_hash_at_def
      try_into_u32_Some split: if_splits intro: outbound_hint_names)

lemma map_err_eq_Inl: "map_err g r = Inl e \<longleftrightarrow> (\<exists>e'. r = Inl e' \<and> e = g e')"
  by (cases r) auto

lemma actionable_cases:
  assumes "run_settlement A cfg c1 c2 calldata w = Inl (Actionable e f)"
  obtains (inspection) e' where "e = BlockInspection e'" "actionable_block_inspection_failure A e' (settling_block w) = Some f"
    | (inbound) e' batch where "e = InboundEffects e'" "decode_canonical_post_batch A calldata = Inr batch"
      "actionable_inbound_failure A e' batch = Some f"
    | (outbound) e' where "e = OutboundEffects e'" "actionable_outbound_failure A e' (settling_block w) = Some f"
  using assms
  by (auto simp: run_settlement_def Let_def and_then_eq_Inl map_err_eq_Inl with_actionable_Actionable
      ensure_settlement_active_def split: if_splits)

section \<open>Entries the data check compares\<close>

text \<open>
  The entries rebuilt from the payload, the claimed entries with the settlement fields cleared and the
  return data of a rebuilt one, and the sidecars of the delivered calls.
\<close>

definition comparable_entries :: "alloy \<Rightarrow> u64 \<Rightarrow> evm_batch \<Rightarrow> validated_block \<Rightarrow> execution_entry set" where
  "comparable_entries A rollup batch v = rebuilt_entries A rollup (batch_callData batch)
     \<union> {(base_da_entry e)\<lparr>returnData := returnData f\<rparr> | e f.
          e \<in> set (entries batch) \<and> f \<in> rebuilt_entries A rollup (batch_callData batch)}
     \<union> (\<lambda>c. as_abi_entry (derived_da_entry (projr (cand_inspection c)))) ` set (candidates_from A rollup 0 (block_rows v))"

lemma compared_comparable:
  assumes bind: "bind_effects_to_execution A \<lparr>chain_rollup = rollup, chain_leading = with_update (hd (entries batch)),
      chain_trailing = map with_update (tl (entries batch))\<rparr> cps obs = Inr b" and ne: "entries batch \<noteq> []"
    and obs: "obs_inbound_candidates obs = candidates_from A rollup 0 (block_rows v)"
    and ins: "authorize_inbound_effects A b rollup = Inr ins" and outs: "authorize_outbound_effects A b rollup sys = Inr outs"
  shows "compared_entries A rollup (batch_callData batch) outs ins \<subseteq> comparable_entries A rollup batch v"
proof -
  note asc = bound_effects_ascending[OF bind]
  have entry: "be_entry e \<in> set (entries batch)" if "e \<in> set (bes_effects b)" for e
  proof -
    have "be_entry e \<in> set (tl (entries batch))"
      using bind that by (auto simp: bind_effects_Inr Let_def bound_at_def with_update_def)
    then show ?thesis using ne by (simp add: list.set_sel)
  qed
  have "\<exists>e \<in> set (entries batch). ao_base_entry ao = base_da_entry e" if "ao \<in> set outs" for ao
    using that entry outs unfolding authorize_outbound_effects_Inr[OF asc(1)]
    by (auto simp: authorized_outbound_def dest!: set_zip_leftD)
  moreover have "\<exists>c \<in> set (candidates_from A rollup 0 (block_rows v)). ai_observation ai = projr (cand_inspection c)"
    if "ai \<in> set ins" for ai
    using that ins unfolding authorize_inbound_effects_Inr[OF asc(1)] asc(2) obs
    by (auto simp: authorized_inbound_def dest!: set_zip_rightD)
  ultimately show ?thesis
    unfolding compared_entries_def comparable_entries_def derived_outbound_entry_def by (fastforce simp: image_iff)
qed

section \<open>An example window\<close>

text \<open>One block with a single delivery of five units from L1, settled by an anchor and an inbound entry.\<close>

definition settle_action :: action where
  "settle_action = \<lparr>act_source_rollup_id = 0, act_target_rollup_id = 1, act_source_address = be_bytes 20 (0xbb :: address),
     act_target_address = be_bytes 20 (0xaa :: address), act_value = be_bytes 32 (5 :: u256), act_gas = 0,
     act_data = [1, 2], act_success = True, act_return_data = [7]\<rparr>"

definition settle_span :: "span_block list" where
  "settle_span = [\<lparr>beneficiary = be_bytes 20 (0xcc :: address), extra_data = [], transactions = []\<rparr>]"

definition settle_payload :: bytes where
  "settle_payload = stream_bytes 1 (span_bytes settle_span) [settle_action]"

definition settle_update :: "b256 \<Rightarrow> b256 \<Rightarrow> 192 word \<Rightarrow> rollup_update" where
  "settle_update c n d = \<lparr>ru_rollupId = 1, ru_etherDelta = d, ru_currentRoot = c, ru_newRoot = n\<rparr>"

definition settle_hash :: b256 where
  "settle_hash = incoming_call_hash example_alloy l1_incoming"

definition settle_anchor :: execution_entry where
  "settle_anchor = \<lparr>rollupUpdates = [settle_update 0x11 0x22 0], proxyEntryHash = 0, l2ToL1Calls = [], expectedL1ToL2Calls = [],
     rollingHash = current (seed_for_l1 example_alloy [(1, 0x11)] 0), destinationRollupId = 1, entry_success = True,
     returnData = []\<rparr>"

definition settle_inbound :: execution_entry where
  "settle_inbound = \<lparr>rollupUpdates = [settle_update 0x22 0x33 5], proxyEntryHash = settle_hash, l2ToL1Calls = [],
     expectedL1ToL2Calls = [], rollingHash = current (seed_for_l1 example_alloy [(1, 0x22)] settle_hash),
     destinationRollupId = 1, entry_success = True, returnData = [7]\<rparr>"

definition settle_batch :: evm_batch where
  "settle_batch = default_batch\<lparr>entries := [settle_anchor, settle_inbound], immediateEntryCount := 1, proofSystems := [1],
     rollupIdsWithProofSystems := [\<lparr>rps_rollupId = 1, proofSystemIndexes = [0]\<rparr>], batch_callData := settle_payload\<rparr>"

definition settle_alloy :: alloy where
  "settle_alloy = (delivery_alloy l1_incoming)\<lparr>
     encode_entry := (\<lambda>e. (if l2ToL1Calls e = [] then 0 else 1) # be_bytes 32 (proxyEntryHash e)),
     decode_post_batch := (\<lambda>bs. if bs = [9, 9, 9, 9] then Some settle_batch else None)\<rparr>"

definition settle_tx :: system_transaction where
  "settle_tx = \<lparr>stx_chain_id = 42, stx_nonce = 3, stx_to = EEZL2_ADDRESS, stx_value = 5, stx_input = [1, 2, 3, 4]\<rparr>"

definition settle_block :: "bool \<Rightarrow> validated_block" where
  "settle_block ok = \<lparr>vb_number = 9, vb_hash = 0x33, vb_parent_hash = 0x11, vb_pre_state_root = 0, vb_post_state_root = 0,
     vb_rlp = [], vb_decoded = \<lparr>blk_header = \<lparr>hdr_number = 9, hdr_parent_hash = 0x11, hdr_state_root = 0,
       hdr_beneficiary = 0xcc, hdr_extra_data = []\<rparr>, blk_transactions = [SystemTx settle_tx]\<rparr>,
     vb_receipt_successes = [ok],
     vb_checkpoints = [\<lparr>cp_at = PreExecution, cp_state_root = 0, cp_block_hash = 0x22\<rparr>,
       \<lparr>cp_at = Transaction 0, cp_state_root = 0, cp_block_hash = 0x33\<rparr>],
     vb_evidence = \<lparr>evd_system_sender_flags = [True], evd_outbound_events = []\<rparr>\<rparr>"

definition settle_window :: "bool \<Rightarrow> validated_window" where
  "settle_window ok = \<lparr>window_pre_block_hash = 0x11, preceding_blocks = [], settling_block = settle_block ok\<rparr>"

definition settle_config :: settlement_config where
  "settle_config = \<lparr>cfg_rollup = 1, cfg_system_address = SYSTEM_ADDRESS, cfg_vkey = 9, cfg_proof_system = 1,
     cfg_reconstructor = reconstructor_new 42 1\<rparr>"

lemma settle_alloy_fields [simp]:
  "keccak256 settle_alloy = keccak256 example_alloy"
  "encode_call_params settle_alloy = encode_call_params example_alloy"
  "execute_incoming_selector settle_alloy = [1, 2, 3, 4]"
  "encode_incoming_call settle_alloy x = [1, 2, 3, 4]"
  "decode_incoming_call settle_alloy [1, 2, 3, 4] = Some ([deliver_entry example_alloy l1_incoming], [])"
  "encode_batch_args settle_alloy b = []"
  "decode_post_batch settle_alloy [9, 9, 9, 9] = Some settle_batch"
  "encode_entry settle_alloy e = (if l2ToL1Calls e = [] then 0 else 1) # be_bytes 32 (proxyEntryHash e)"
  by (simp_all add: settle_alloy_def delivery_alloy_def example_alloy_def)

lemma settle_hash_parts [simp]: "hash_parts settle_alloy ps = hash_parts example_alloy ps"
  by (simp add: hash_parts_def)

lemma settle_seed_for_l1 [simp]: "seed_for_l1 settle_alloy us h = seed_for_l1 example_alloy us h"
proof -
  have "fold_states settle_alloy p us = fold_states example_alloy p us" for p
    by (induction us arbitrary: p) auto
  then show ?thesis by (simp add: seed_for_l1_def)
qed

lemma settle_rolling [simp]:
  "seed_for_l2 settle_alloy h = seed_for_l2 example_alloy h"
  "call_begin settle_alloy c s = call_begin example_alloy c s"
  "call_end settle_alloy ok ret s = call_end example_alloy ok ret s"
  by (simp_all add: seed_for_l2_def call_begin_def call_end_def)

lemma settle_call_hash [simp]:
  "common_cross_chain_call_hash settle_alloy i = common_cross_chain_call_hash example_alloy i"
  "incoming_call_hash settle_alloy j = incoming_call_hash example_alloy j"
  by (simp_all add: common_cross_chain_call_hash_def cross_chain_call_hash_def incoming_call_hash_def)

lemma settle_deliver [simp]: "deliver_entry settle_alloy j = deliver_entry example_alloy j"
  by (simp add: deliver_entry_def)

lemma l1_incoming_fields [simp]:
  "inc_target l1_incoming = 0xaa" "inc_source l1_incoming = 0xbb" "inc_value l1_incoming = 5" "inc_data l1_incoming = [1, 2]"
  "inc_source_rollup_id l1_incoming = 0" "inc_l2_rollup_id l1_incoming = 1" "inc_return_data l1_incoming = [7]"
  "inc_success l1_incoming"
  by (simp_all add: l1_incoming_def)

lemma settle_hash_nonzero: "settle_hash \<noteq> 0"
  using incoming_hash_nonzero[of l1_incoming]
  by (simp add: settle_hash_def incoming_call_hash_def common_cross_chain_call_hash_def cross_chain_call_hash_def delivery_alloy_def)

lemma settle_delivery: "l1_delivery settle_alloy 1 l1_incoming"
  using settle_hash_nonzero by (simp add: l1_delivery_def MAINNET_def settle_hash_def)

lemma settle_inspected:
  "inspect_inbound_candidate settle_alloy 5 [1, 2, 3, 4] True 1 = Inr (observed settle_alloy l1_incoming)"
  using inspect_inbound_complete[OF settle_delivery] by (simp add: deliver_payload_def)

lemma settle_rows: "block_rows (settle_block ok) = [((SystemTx settle_tx, True), ok)]"
  by (simp add: block_rows_def settle_block_def)

lemma settle_candidate: "is_candidate settle_alloy ((SystemTx settle_tx, True), ok)"
  by (simp add: is_candidate_def starts_with_def settle_tx_def)

lemma settle_candidates:
  "candidates_from settle_alloy 1 0 (block_rows (settle_block ok)) = [\<lparr>cand_transaction_index = 0,
     cand_inspection = inspect_inbound_candidate settle_alloy 5 [1, 2, 3, 4] ok 1\<rparr>]"
  by (simp add: settle_rows settle_candidate) (simp add: settle_tx_def)

definition settle_observations :: "bool \<Rightarrow> settling_block_observations" where
  "settle_observations ok = \<lparr>obs_system_sender_flags = [True], obs_inbound_candidates = [\<lparr>cand_transaction_index = 0,
     cand_inspection = inspect_inbound_candidate settle_alloy 5 [1, 2, 3, 4] ok 1\<rparr>], obs_outbound_event_candidates = []\<rparr>"

lemma settle_inspection:
  "inspect_validated_settling_block settle_alloy (settle_block ok) 1 = Inr (settle_observations ok)"
  unfolding inspect_settling_Inr settle_candidates settle_observations_def
  unfolding settle_rows by (simp add: sender_ok_def starts_with_def settle_block_def settle_tx_def)

definition settle_chain :: verified_update_chain where
  "settle_chain = \<lparr>chain_rollup = 1, chain_leading = with_update settle_anchor, chain_trailing = [with_update settle_inbound]\<rparr>"

lemma settle_chain_ok: "verify_state_update_chain settle_batch 1 0x11 0x33 = Inr settle_chain"
  unfolding verify_state_update_chain_Inr settle_chain_def
  by (simp add: settle_batch_def default_batch_def updates_only_def commitment_path_def settle_anchor_def settle_inbound_def settle_update_def)

definition settle_bound :: "bool \<Rightarrow> bound_effect_sequence" where
  "settle_bound ok = \<lparr>bes_effects = [\<lparr>be_entry_index = 1, be_transaction_index = 0, be_kind = InboundEffect,
     be_entry = settle_inbound, be_update = settle_update 0x22 0x33 5\<rparr>], bes_observations = settle_observations ok\<rparr>"

lemma settle_inbound_shape: "inbound_shape settle_inbound"
  using settle_hash_nonzero by (simp add: inbound_shape_def settle_inbound_def)

lemma settle_binding:
  "bind_effects_to_execution settle_alloy settle_chain (vb_checkpoints (settle_block ok)) (settle_observations ok) = Inr (settle_bound ok)"
proof -
  have ps: "effect_candidate_positions (settle_observations ok) = [0]"
    by (simp add: effect_candidate_positions_def settle_observations_def pair_end_positions_def)
  have a: "anchor_entry settle_alloy 1 settle_anchor (settle_update 0x11 0x22 0)"
    by (simp add: anchor_entry_def settle_anchor_def settle_update_def)
  show ?thesis
    unfolding bind_effects_Inr Let_def ps
    using a settle_inbound_shape
    by (simp add: settle_chain_def with_update_def settle_block_def bound_row_def bound_at_def observed_kind_at_def
        settle_observations_def effect_entry_def entry_kind_def settle_bound_def)
      (simp add: settle_anchor_def settle_inbound_def settle_update_def)
qed

lemma settle_ascending: "ascending_effects (settle_bound ok)"
  by (simp add: ascending_effects_def settle_bound_def)

definition settle_authorized :: authorized_inbound_effect where
  "settle_authorized = \<lparr>ai_transaction_index = 0, ai_observation = observed settle_alloy l1_incoming\<rparr>"

lemma five_fits: "u256_to_i192 5 = Some 5"
proof -
  obtain d where d: "u256_to_i192 5 = Some d" "sint d = 5" using u256_to_i192_sint[of 5] by auto
  then have "d = 5" by (intro signed_word_eqI) simp
  then show ?thesis using d(1) by simp
qed

lemma settle_authorize_inbound: "authorize_inbound_effects settle_alloy (settle_bound True) 1 = Inr [settle_authorized]"
  unfolding authorize_inbound_effects_Inr[OF settle_ascending]
  by (simp add: settle_bound_def settle_observations_def settle_inspected inbound_pair_ok_def inbound_effect_ok_def
      update_seed_def authorized_inbound_def settle_authorized_def observed_def five_fits)
    (simp add: settle_inbound_def settle_hash_def settle_update_def)

lemma settle_authorize_outbound: "authorize_outbound_effects settle_alloy (settle_bound True) 1 sys = Inr []"
  unfolding authorize_outbound_effects_Inr[OF settle_ascending]
  by (simp add: settle_bound_def settle_observations_def)

lemma settle_decoded:
  "da_payload_decode settle_payload 1 = Inr \<lparr>da_span = columns settle_span, da_actions = [settle_action], next_transaction = 0\<rparr>"
proof -
  have wt: "list_all well_typed_action [settle_action]" "well_typed_span settle_span" "encodable settle_span"
    by (simp_all add: settle_action_def well_typed_action_def value_bytes_def settle_span_def encodable_def well_typed_span_def
        span_bytes_def all_txs_def max_extra_data_def leb128_small enc_extra_def)
  have s: "length (span_bytes settle_span) < 128"
    by (simp add: settle_span_def span_bytes_def all_txs_def leb128_small enc_extra_def)
  have "length settle_payload < 2 ^ 64"
    using s by (simp add: settle_payload_def stream_bytes_def enc_bytes_def enc_action_def leb128_small settle_action_def reversed_def)
  then have "decode_container settle_payload = Inr \<lparr>con_rollup_id = 1, con_span = columns settle_span, con_actions = [settle_action]\<rparr>"
    using decode_stream_bytes[OF decode_span_bytes[OF wt(3,2)], of 1 "[settle_action]"] s
    unfolding settle_payload_def by (simp add: settle_action_def ok_action_def value_bytes_def)
  then show ?thesis by (simp add: da_payload_decode_def)
qed

lemma settle_rebuilt: "entry_from_action settle_alloy settle_action 1 = Inr (sidecar_entry settle_alloy l1_incoming)"
proof -
  have "action_from_entry (sidecar_entry settle_alloy l1_incoming) 1 = Inr settle_action"
    by (simp add: action_from_entry_def sidecar_entry_def settle_action_def MAINNET_def is_mainnet_def)
  moreover have "rebuilt settle_alloy 1 (sidecar_entry settle_alloy l1_incoming)"
    using rebuilt_sidecar[of l1_incoming settle_alloy] by (simp add: deliverable_def)
  ultimately show ?thesis by (simp add: rebuilt_def)
qed

lemma settle_reconstructed:
  "verify_reconstructed_sync_block settle_alloy (vb_decoded (settle_block True)) [encode_2718 settle_alloy settle_tx] [] []
     [settle_authorized] (reconstructor_new 42 1) = Inr ()"
proof -
  let ?e = "sidecar_entry settle_alloy l1_incoming" and ?cfg = "reconstructor_new 42 1"
  have inc: "entry_incoming ?e = l1_incoming" by (simp add: entry_incoming_def sidecar_entry_def l1_incoming_def)
  have "convert_inbound settle_alloy ?e = Inr (InboundSidecar ?e)"
  proof -
    have "inbound_sidecar_try_from settle_alloy ?e = Inr (InboundSidecar ?e)"
      unfolding inbound_sidecar_try_from_Inr inc by (simp add: sidecar_entry_def deliverable_def)
    moreover have "check_entry_shape ?e ''inbound'' = Inr ()"
      by (simp add: check_entry_shape_Inr sidecar_entry_def plain_call_def)
    ultimately show ?thesis by (simp add: convert_inbound_def)
  qed
  then have ok: "inbound_ok settle_alloy ?e" by (simp add: inbound_ok_def is_ok_def)
  have us: "for_us ?cfg ?e" by (simp add: for_us_def reconstructor_new_def sidecar_entry_def)
  have pay: "deliver_payload settle_alloy l1_incoming = ([1, 2, 3, 4], 5)" by (simp add: deliver_payload_def)
  have "build_cross_chain_sync_pairs settle_alloy [] [?e] ?cfg 3
      = Inr [\<lparr>system_tx = encode_2718 settle_alloy settle_tx, user_tx = None\<rparr>]"
    unfolding build_sync_Inr using ok us
    by (simp add: sync_payloads_def sync_users_def inc pay sync_pairs_def reconstructor_new_def settle_tx_def)
  moreover have "as_abi_entry (derived_da_entry (ai_observation settle_authorized)) = ?e"
    by (simp add: settle_authorized_def observed_def)
  moreover have "tx_nonce (blk_transactions (vb_decoded (settle_block True)) ! 0) = 3"
    by (simp add: settle_block_def settle_tx_def)
  ultimately show ?thesis
    unfolding verify_reconstructed_Inr
    by (intro exI[of _ 0] exI[of _ "[]"] exI[of _ "[\<lparr>system_tx = encode_2718 settle_alloy settle_tx, user_tx = None\<rparr>]"])
      (simp add: first_system_position_def user_inputs_def settle_authorized_def settle_block_def)
qed

lemma settle_da: "verify_da_payload settle_alloy settle_batch (settle_window True) [] [settle_authorized] (reconstructor_new 42 1) 1 = Inr ()"
proof -
  let ?p = "\<lparr>da_span = columns settle_span, da_actions = [settle_action], next_transaction = 0\<rparr>"
  let ?b = "vb_decoded (settle_block True)"
  let ?tx = "encode_2718 settle_alloy settle_tx"
  have encs: "encoded_transactions settle_alloy ?b = [?tx]"
    by (simp add: encoded_transactions_def settle_block_def)
  have hdr: "verify_header_inputs ?p 0 9 ?b = Inr ()"
    by (simp add: verify_header_inputs_Inr columns_def settle_span_def settle_block_def)
  have len: "length (blk_transactions ?b) = 1" "ai_transaction_index settle_authorized = 0"
    by (simp_all add: settle_block_def settle_authorized_def)
  have cnt: "da_block_count ?p 1 0 = Inr 0"
    by (simp add: da_block_count_def block_count_def columns_def settle_span_def get_def)
  have settle: "verify_settling_block_transactions settle_alloy 9 ?b 1 [] [settle_authorized] 1 ?p
      = Inr (\<lparr>sv_encoded_transactions = [?tx], sv_retained_count = 0, sv_requires_reconstruction = True\<rparr>, ?p)"
    using hdr cnt by (simp add: verify_settling_block_transactions_def encs len)
  have side: "verify_effect_sidecars settle_alloy ?p [] [settle_authorized] 1 1 = Inr []"
    using verify_effect_sidecars_Inr[of settle_alloy ?p "[]" "[settle_authorized]" 1 "[]"]
    by (simp add: settle_rebuilt inbound_matches_def settle_authorized_def observed_def)
  have "transactions_exhausted ?p n = Inr ()" for n
    by (simp add: transactions_exhausted_def columns_def settle_span_def all_txs_def)
  then show ?thesis
    using settle side settle_reconstructed
    by (simp add: verify_da_payload_def verify_encoded_da_payload_def settle_batch_def settle_decoded settle_window_def)
      (simp add: settle_block_def)
qed

lemma settle_window_fields [simp]:
  "settling_block (settle_window ok) = settle_block ok" "preceding_blocks (settle_window ok) = []"
  "window_pre_block_hash (settle_window ok) = 0x11" "window_post_block_hash (settle_window ok) = 0x33"
  by (simp_all add: settle_window_def window_post_block_hash_def settle_block_def)

lemma settle_profile: "supported_profile 1 1 settle_batch"
  using settle_hash_nonzero by (simp add: supported_profile_def settle_batch_def default_batch_def settle_anchor_def settle_inbound_def)

lemma settle_runs:
  "run_settlement settle_alloy settle_config False False [9, 9, 9, 9] (settle_window True)
     = Inr (keccak256 settle_alloy (signed_buffer settle_alloy settle_batch 9 0))"
proof -
  have d: "decode_canonical_post_batch settle_alloy [9, 9, 9, 9] = Inr settle_batch"
    by (simp add: decode_canonical_Inr decode_postbatch_def)
  have p: "checked_profile_new settle_batch 1 1 = Inr settle_batch"
    using settle_profile by (simp add: checked_profile_new_def flip: validate_structure_Inr)
  show ?thesis
    using settle_chain_ok settle_inspection[of True] settle_binding[of True] settle_authorize_inbound settle_authorize_outbound
      settle_da recompute_supported[OF settle_profile, of settle_alloy 9]
    by (simp add: run_settlement_def d p settle_config_def ensure_settlement_active_def Let_def)
qed

lemma settle_reverts:
  "run_settlement settle_alloy settle_config False False [9, 9, 9, 9] (settle_window False)
     = Inl (Actionable (InboundEffects (InvalidObservation 1 0 RevertedTransaction))
         (InboundFailure 1 (be_bytes 32 (keccak256 settle_alloy (encode_entry settle_alloy settle_inbound)))))"
proof -
  have d: "decode_canonical_post_batch settle_alloy [9, 9, 9, 9] = Inr settle_batch"
    by (simp add: decode_canonical_Inr decode_postbatch_def)
  have p: "checked_profile_new settle_batch 1 1 = Inr settle_batch"
    using settle_profile by (simp add: checked_profile_new_def flip: validate_structure_Inr)
  have a: "authorize_inbound_effects settle_alloy (settle_bound False) 1 = Inl (InvalidObservation 1 0 RevertedTransaction)"
    by (simp add: authorize_inbound_effects_def settle_bound_def settle_observations_def inspect_inbound_candidate_def)
  have h: "actionable_inbound_failure settle_alloy (InvalidObservation 1 0 RevertedTransaction) settle_batch
      = Some (InboundFailure 1 (be_bytes 32 (keccak256 settle_alloy (encode_entry settle_alloy settle_inbound))))"
    by (simp add: actionable_inbound_failure_def entry_hash_at_def settle_batch_def try_into_u32_def)
  show ?thesis
    using settle_chain_ok settle_inspection[of False] settle_binding[of False] h
    by (simp add: run_settlement_def d p a settle_config_def ensure_settlement_active_def with_actionable_def Let_def
        del: settle_alloy_fields One_nat_def)
qed

lemma settle_comparable:
  "comparable_entries settle_alloy 1 settle_batch (settle_block True) \<subseteq> {sidecar_entry settle_alloy l1_incoming,
     (base_da_entry settle_anchor)\<lparr>returnData := [7]\<rparr>, (base_da_entry settle_inbound)\<lparr>returnData := [7]\<rparr>}"
proof -
  have r: "rebuilt_entries settle_alloy 1 settle_payload = {sidecar_entry settle_alloy l1_incoming}"
    by (simp add: rebuilt_entries_def settle_decoded settle_rebuilt)
  have b: "batch_callData settle_batch = settle_payload" "entries settle_batch = [settle_anchor, settle_inbound]"
    by (simp_all add: settle_batch_def)
  have ret: "returnData (sidecar_entry settle_alloy l1_incoming) = [7]" by (simp add: sidecar_entry_def)
  show ?thesis
    unfolding comparable_entries_def b r settle_candidates settle_inspected by (auto simp: ret observed_def)
qed

lemma settle_coder: "inj_on (encode_entry settle_alloy) (comparable_entries settle_alloy 1 settle_batch (settle_block True))"
  using settle_hash_nonzero
  by (intro inj_on_subset[OF _ settle_comparable])
    (simp add: base_da_entry_def settle_anchor_def settle_inbound_def sidecar_entry_def be_bytes_inject settle_hash_def)

section \<open>Properties\<close>

text \<open>
  C1. An attested batch is the executed window. If the settlement job returns a hash, then the submitted
  calldata is the canonical encoding of one batch of the supported profile, the hash is the digest the L1
  contract recomputes from that batch, the batch's commitments lead without a gap from the block hash before the window
  to the hash of its last block, no block but the last contains a system transaction or an outbound
  event, and the entries' new commitments are, one for one and in order, the block hashes the execution reached before the
  first transaction and after each system pair of the last block.
\<close>

theorem settlement_binds_execution:
  assumes "run_settlement A cfg c1 c2 calldata w = Inr h" and "cfg_rollup cfg \<noteq> 0" "cfg_proof_system cfg \<noteq> 0"
  shows "\<exists>batch. decode_postbatch A calldata = Some batch \<and> drop 4 calldata = encode_batch_args A batch
    \<and> supported_profile (cfg_rollup cfg) (cfg_proof_system cfg) batch
    \<and> h = keccak256 A (signed_buffer A batch (cfg_vkey cfg) 0)
    \<and> commitment_path (entries batch) (window_pre_block_hash w) (window_post_block_hash w)
    \<and> (\<forall>v \<in> set (preceding_blocks w). evd_outbound_events (vb_evidence v) = []
        \<and> list_all (\<lambda>(tx, sys). tx_ty tx \<noteq> SYSTEM_TX_TYPE \<and> \<not> sys)
            (zip (blk_transactions (vb_decoded v)) (evd_system_sender_flags (vb_evidence v))))
    \<and> map cp_at (vb_checkpoints (settling_block w))
        = PreExecution # map Transaction (pair_end_positions (evd_system_sender_flags (vb_evidence (settling_block w))))
    \<and> map (\<lambda>e. ru_newRoot (hd (rollupUpdates e))) (entries batch)
        = map cp_block_hash (vb_checkpoints (settling_block w))"
proof -
  from assms(1) obtain batch bound ins outs where
    d: "decode_canonical_post_batch A calldata = Inr batch"
      "supported_profile (cfg_rollup cfg) (cfg_proof_system cfg) batch" "entries batch \<noteq> []"
      "commitment_path (entries batch) (window_pre_block_hash w) (window_post_block_hash w)"
      "verify_validated_intermediate_blocks (preceding_blocks w) = Inr ()"
      "recompute_public_inputs_hash A batch (cfg_vkey cfg) = Inr h"
    and bind: "bind_effects_to_execution A \<lparr>chain_rollup = cfg_rollup cfg, chain_leading = with_update (hd (entries batch)),
        chain_trailing = map with_update (tl (entries batch))\<rparr> (vb_checkpoints (settling_block w))
      \<lparr>obs_system_sender_flags = evd_system_sender_flags (vb_evidence (settling_block w)),
        obs_inbound_candidates = candidates_from A (cfg_rollup cfg) 0 (block_rows (settling_block w)),
        obs_outbound_event_candidates = evd_outbound_events (vb_evidence (settling_block w))\<rparr> = Inr bound"
    by (rule run_settlement_Inr)
  note commits = bound_commitments[OF bind d(3), unfolded effect_candidate_positions_def, simplified]
  have "h = keccak256 A (signed_buffer A batch (cfg_vkey cfg) 0)"
    using d(6) recompute_supported[OF d(2) assms(2,3)] by simp
  then show ?thesis using d(1,2,4,5) commits unfolding decode_canonical_Inr verify_intermediate_Inr
    by (intro exI[of _ batch] conjI) simp_all
qed

theorem settlement_binds_execution_witness:
  "\<exists>batch. decode_postbatch settle_alloy [9, 9, 9, 9] = Some batch \<and> commitment_path (entries batch) 0x11 0x33
    \<and> map (\<lambda>e. ru_newRoot (hd (rollupUpdates e))) (entries batch) = [0x22, 0x33]"
  using settlement_binds_execution[OF settle_runs]
  by (auto simp: settle_config_def settle_window_def window_post_block_hash_def settle_block_def)

text \<open>
  C2. Ether is conserved. The balance changes an attested batch asks the L1 contract to make, read as signed
  numbers and added up, are the value of the deliveries executed in the settling block minus the value of the
  withdrawals the batch performs: no delta is wrapped around, dropped, doubled or moved.
\<close>

theorem settlement_conserves_ether:
  assumes "run_settlement A cfg c1 c2 calldata w = Inr h"
  shows "\<exists>batch. decode_postbatch A calldata = Some batch
    \<and> ether_balance (entries batch) = delivered_value A (settling_block w) - withdrawn_value (entries batch)"
proof -
  from assms obtain batch bound ins outs where
    d: "decode_canonical_post_batch A calldata = Inr batch" "entries batch \<noteq> []"
    and bind: "bind_effects_to_execution A \<lparr>chain_rollup = cfg_rollup cfg, chain_leading = with_update (hd (entries batch)),
        chain_trailing = map with_update (tl (entries batch))\<rparr> (vb_checkpoints (settling_block w))
      \<lparr>obs_system_sender_flags = evd_system_sender_flags (vb_evidence (settling_block w)),
        obs_inbound_candidates = candidates_from A (cfg_rollup cfg) 0 (block_rows (settling_block w)),
        obs_outbound_event_candidates = evd_outbound_events (vb_evidence (settling_block w))\<rparr> = Inr bound"
    and auth: "authorize_inbound_effects A bound (cfg_rollup cfg) = Inr ins"
      "authorize_outbound_effects A bound (cfg_rollup cfg) (cfg_system_address cfg) = Inr outs"
    by (rule run_settlement_Inr)
  note bal = bound_balance[OF bind d(2) auth, simplified]
  show ?thesis
    using d(1) bal(1) candidates_value[OF bal(2)] unfolding decode_canonical_Inr delivered_value_def by auto
qed

theorem settlement_conserves_ether_witness:
  "delivered_value settle_alloy (settle_block True) = 5 \<and> ether_balance (entries settle_batch) = 5"
proof -
  have v: "delivered_value settle_alloy (settle_block True) = 5"
    by (simp add: delivered_value_def settle_rows settle_candidate) (simp add: settle_tx_def)
  have "withdrawn_value (entries settle_batch) = 0"
    by (simp add: withdrawn_value_def settle_batch_def settle_anchor_def settle_inbound_def)
  with settlement_conserves_ether[OF settle_runs] v show ?thesis
    by (simp add: decode_postbatch_def settle_window_def)
qed



end
