(* ===== verification/Held_Pool.thy ===== *)
theory Held_Pool
  imports Prelude
begin

text \<open>
  The pool of cross-chain transactions that wait for a Sync slot
  (\<^verbatim>\<open>crates/eez-composer/src/held_pool.rs\<close>): admission with nonce sequencing and fee-bumped replacement,
  draining into a bundle, recovery, settlement and eviction. The pool's lock makes each operation one step; the
  lemmas are about arbitrary interleavings of them.
\<close>

section \<open>State\<close>

datatype direction = Inbound | Outbound

type_synonym u128 = "128 word"

record held_tx =
  raw_tx :: bytes
  ht_hash :: b256
  attempts :: u32
  ht_sender :: address
  ht_nonce :: u64
  ht_direction :: direction
  max_fee_per_gas :: u128
  priority_fee_per_gas :: u128

type_synonym chain_id = "address \<times> direction"

definition chain_of :: "held_tx \<Rightarrow> chain_id" where
  "chain_of tx = (ht_sender tx, ht_direction tx)"

datatype admission_error =
    NonceError u64 u64
  | UnderpricedReplacement u128 u128 u128 u128

record pool_state =
  pool_txs :: "held_tx list"
  by_hash :: "b256 set"
  in_flight :: "(b256 \<times> address \<times> direction \<times> u64) list"

definition pool_new :: pool_state where
  "pool_new = \<lparr>pool_txs = [], by_hash = {}, in_flight = []\<rparr>"

section \<open>Operations\<close>

definition saturating_mul :: "u128 \<Rightarrow> u128 \<Rightarrow> u128" where
  "saturating_mul a b = (if unat a * unat b < 2 ^ 128 then a * b else - 1)"

definition saturating_add :: "u128 \<Rightarrow> u128 \<Rightarrow> u128" where
  "saturating_add a b = (if unat a + unat b < 2 ^ 128 then a + b else - 1)"

definition REPLACEMENT_TX_COST_PERCENT :: u128 where
  "REPLACEMENT_TX_COST_PERCENT = 10"

definition min_replacement_fee :: "u128 \<Rightarrow> u128" where
  "min_replacement_fee replaced =
     (let required_increase = max (saturating_mul replaced REPLACEMENT_TX_COST_PERCENT div 100) 1 in
      saturating_add replaced required_increase)"

definition chain_nonces :: "pool_state \<Rightarrow> chain_id \<Rightarrow> u64 list" where
  "chain_nonces s c = map ht_nonce (filter (\<lambda>tx. chain_of tx = c) (pool_txs s))
     @ map (\<lambda>(_, _, _, n). n) (filter (\<lambda>(_, sd, d, _). (sd, d) = c) (in_flight s))"

definition next_expected_nonce :: "pool_state \<Rightarrow> chain_id \<Rightarrow> u64 \<Rightarrow> u64 option" where
  "next_expected_nonce s c on_chain =
     (case filter (\<lambda>n. n \<ge> on_chain) (chain_nonces s c) of
        [] \<Rightarrow> Some on_chain
      | n # ns \<Rightarrow> checked_add_word (fold max ns n) 1)"

definition release_in_flight :: "held_tx \<Rightarrow> pool_state \<Rightarrow> pool_state" where
  "release_in_flight tx s = s\<lparr>in_flight := filter (\<lambda>r. fst r \<noteq> ht_hash tx) (in_flight s)\<rparr>"

definition push_front_recovered :: "held_tx \<Rightarrow> pool_state \<Rightarrow> pool_state" where
  "push_front_recovered tx s =
     (let s = release_in_flight tx s in
      if ht_hash tx \<in> by_hash s then s
      else s\<lparr>by_hash := insert (ht_hash tx) (by_hash s), pool_txs := tx # pool_txs s\<rparr>)"

definition mark_in_flight :: "held_tx \<Rightarrow> pool_state \<Rightarrow> pool_state" where
  "mark_in_flight tx s =
     (if ht_hash tx \<in> fst ` set (in_flight s) then s
      else s\<lparr>in_flight := in_flight s @ [(ht_hash tx, ht_sender tx, ht_direction tx, ht_nonce tx)]\<rparr>)"

fun position :: "('a \<Rightarrow> bool) \<Rightarrow> 'a list \<Rightarrow> nat option" where
  "position P [] = None"
| "position P (x # xs) = (if P x then Some 0 else map_option Suc (position P xs))"

definition nonce_error :: "pool_state \<Rightarrow> chain_id \<Rightarrow> u64 \<Rightarrow> admission_error" where
  "nonce_error s c on_chain =
     NonceError (case next_expected_nonce s c on_chain of Some n \<Rightarrow> n | None \<Rightarrow> - 1) on_chain"

definition push_contiguous :: "held_tx \<Rightarrow> u64 \<Rightarrow> pool_state \<Rightarrow> admission_error + pool_state" where
  "push_contiguous tx on_chain s =
     (if ht_hash tx \<in> by_hash s \<or> ht_hash tx \<in> fst ` set (in_flight s) then Inr s
      else if ht_nonce tx < on_chain then Inl (nonce_error s (chain_of tx) on_chain)
      else case position (\<lambda>q. chain_of q = chain_of tx \<and> ht_nonce q = ht_nonce tx) (pool_txs s) of
        Some i \<Rightarrow>
          let queued = pool_txs s ! i;
              required_max_fee = min_replacement_fee (max_fee_per_gas queued);
              required_priority_fee = min_replacement_fee (priority_fee_per_gas queued) in
          if max_fee_per_gas tx < required_max_fee \<or> priority_fee_per_gas tx < required_priority_fee
          then Inl (UnderpricedReplacement (max_fee_per_gas tx) required_max_fee
            (priority_fee_per_gas tx) required_priority_fee)
          else Inr (s\<lparr>pool_txs := (pool_txs s)[i := tx],
                      by_hash := insert (ht_hash tx) (by_hash s - {ht_hash queued})\<rparr>)
      | None \<Rightarrow>
          if list_ex (\<lambda>(_, sd, d, n). (sd, d) = chain_of tx \<and> n = ht_nonce tx) (in_flight s)
          then Inl (nonce_error s (chain_of tx) on_chain)
          else case next_expected_nonce s (chain_of tx) on_chain of
            None \<Rightarrow> Inl (NonceError (- 1) on_chain)
          | Some expected \<Rightarrow>
              if ht_nonce tx \<noteq> expected then Inl (NonceError expected on_chain)
              else Inr (s\<lparr>by_hash := insert (ht_hash tx) (by_hash s), pool_txs := pool_txs s @ [tx]\<rparr>))"

definition note_replacement :: "pool_state \<Rightarrow> held_tx \<Rightarrow> (chain_id \<rightharpoonup> u64 \<times> b256) \<Rightarrow> (chain_id \<rightharpoonup> u64 \<times> b256)" where
  "note_replacement s tx roots =
     (case filter (\<lambda>q. chain_of q = chain_of tx \<and> ht_nonce q = ht_nonce tx \<and> ht_hash q \<noteq> ht_hash tx) (pool_txs s) of
        [] \<Rightarrow> roots
      | replacement # _ \<Rightarrow>
        (case roots (chain_of tx) of
           Some (n, h) \<Rightarrow> if ht_nonce tx < n then roots(chain_of tx \<mapsto> (ht_nonce tx, ht_hash replacement)) else roots
         | None \<Rightarrow> roots(chain_of tx \<mapsto> (ht_nonce tx, ht_hash replacement))))"

definition push_front_batch :: "held_tx list \<Rightarrow> pool_state \<Rightarrow> pool_state" where
  "push_front_batch recovered s =
     (let roots = fold (note_replacement s) recovered Map.empty in
      fold (\<lambda>tx s. case roots (chain_of tx) of
          Some (conflict_nonce, _) \<Rightarrow>
            if ht_nonce tx \<ge> conflict_nonce then release_in_flight tx s else push_front_recovered tx s
        | None \<Rightarrow> push_front_recovered tx s) (rev recovered) s)"

definition release_in_flight_batch :: "held_tx list \<Rightarrow> pool_state \<Rightarrow> pool_state" where
  "release_in_flight_batch txs s = fold release_in_flight txs s"

definition evict_chain_at_or_above :: "chain_id \<Rightarrow> u64 \<Rightarrow> pool_state \<Rightarrow> held_tx list \<times> pool_state" where
  "evict_chain_at_or_above c n s =
     (let evicts = (\<lambda>tx. chain_of tx = c \<and> ht_nonce tx \<ge> n);
          evicted = filter evicts (pool_txs s) in
      (evicted, s\<lparr>pool_txs := filter (\<lambda>tx. \<not> evicts tx) (pool_txs s),
                  by_hash := by_hash s - ht_hash ` set evicted,
                  in_flight := filter (\<lambda>(_, sd, d, k). \<not> ((sd, d) = c \<and> k \<ge> n)) (in_flight s)\<rparr>))"

definition pop_n :: "nat \<Rightarrow> pool_state \<Rightarrow> held_tx list \<times> pool_state" where
  "pop_n n s =
     (let k = min n (length (pool_txs s));
          drained = take k (pool_txs s);
          s = s\<lparr>pool_txs := drop k (pool_txs s)\<rparr> in
      (drained, fold (\<lambda>tx s. mark_in_flight tx (s\<lparr>by_hash := by_hash s - {ht_hash tx}\<rparr>)) drained s))"

definition pop_all :: "pool_state \<Rightarrow> held_tx list \<times> pool_state" where
  "pop_all s = pop_n (2 ^ 64 - 1) s"

definition pool_len :: "pool_state \<Rightarrow> nat" where
  "pool_len s = length (pool_txs s)"

definition pool_is_empty :: "pool_state \<Rightarrow> bool" where
  "pool_is_empty s \<longleftrightarrow> pool_len s = 0"

section \<open>Interleavings\<close>

text \<open>
  The drained transactions a composer holds, in the order they were drained, and the nonces the chains have
  reached. A bundle's outcome returns all of them to the pool or settles all of them; settled
  nonces have landed on their chain.
\<close>

record world =
  w_pool :: pool_state
  w_drained :: "held_tx list"
  w_on_chain :: "chain_id \<Rightarrow> u64"

definition world_new :: "(chain_id \<Rightarrow> u64) \<Rightarrow> world" where
  "world_new oc = \<lparr>w_pool = pool_new, w_drained = [], w_on_chain = oc\<rparr>"

inductive pool_step :: "world \<Rightarrow> world \<Rightarrow> bool" where
  admit: "push_contiguous tx (w_on_chain w (chain_of tx)) (w_pool w) = Inr s \<Longrightarrow> pool_step w (w\<lparr>w_pool := s\<rparr>)"
| drain: "pop_n n (w_pool w) = (drained, s) \<Longrightarrow> pool_step w (w\<lparr>w_pool := s, w_drained := w_drained w @ drained\<rparr>)"
| recover: "pool_step w (w\<lparr>w_pool := push_front_batch (w_drained w) (w_pool w), w_drained := []\<rparr>)"
| settle: "\<lbrakk>\<forall>c. w_on_chain w c \<le> oc c; \<forall>tx \<in> set (w_drained w). ht_nonce tx < oc (chain_of tx)\<rbrakk> \<Longrightarrow>
    pool_step w (w\<lparr>w_pool := release_in_flight_batch (w_drained w) (w_pool w), w_drained := [], w_on_chain := oc\<rparr>)"
| evict: "evict_chain_at_or_above c n (w_pool w) = (evicted, s) \<Longrightarrow>
    pool_step w (w\<lparr>w_pool := s, w_drained := filter (\<lambda>tx. \<not> (chain_of tx = c \<and> ht_nonce tx \<ge> n)) (w_drained w)\<rparr>)"
| advance: "\<forall>c. w_on_chain w c \<le> oc c \<Longrightarrow> pool_step w (w\<lparr>w_on_chain := oc\<rparr>)"

inductive pool_reachable :: "world \<Rightarrow> bool" where
  start: "pool_reachable (world_new oc)"
| step: "pool_reachable w \<Longrightarrow> pool_step w w' \<Longrightarrow> pool_reachable w'"

inductive_cases pool_stepE: "pool_step w w'"

section \<open>The invariant\<close>

text \<open>
  Drained and queued transactions, in this order, are the live transactions: they have distinct hashes, the
  pool's index and reservations list exactly them, and in every chain their nonces ascend.
\<close>

definition live :: "world \<Rightarrow> held_tx list" where
  "live w = w_drained w @ pool_txs (w_pool w)"

definition reservation :: "held_tx \<Rightarrow> b256 \<times> address \<times> direction \<times> u64" where
  "reservation tx = (ht_hash tx, ht_sender tx, ht_direction tx, ht_nonce tx)"

definition chain_ascends :: "held_tx list \<Rightarrow> bool" where
  "chain_ascends txs \<longleftrightarrow> sorted_wrt (\<lambda>x y. chain_of x = chain_of y \<longrightarrow> ht_nonce x < ht_nonce y) txs"

definition pool_inv :: "world \<Rightarrow> bool" where
  "pool_inv w \<longleftrightarrow> distinct (map ht_hash (live w))
     \<and> by_hash (w_pool w) = ht_hash ` set (pool_txs (w_pool w))
     \<and> in_flight (w_pool w) = map reservation (w_drained w)
     \<and> chain_ascends (live w)"

lemma pool_inv_start: "pool_inv (world_new oc)"
  by (simp add: pool_inv_def world_new_def pool_new_def live_def chain_ascends_def)

lemma fold_mark:
  assumes "distinct (map ht_hash ds)" "ht_hash ` set ds \<inter> fst ` set (in_flight s) = {}"
  shows "fold (\<lambda>tx s. mark_in_flight tx (s\<lparr>by_hash := by_hash s - {ht_hash tx}\<rparr>)) ds s
    = s\<lparr>by_hash := by_hash s - ht_hash ` set ds, in_flight := in_flight s @ map reservation ds\<rparr>"
  using assms
proof (induction ds arbitrary: s)
  case (Cons d ds)
  let ?s = "mark_in_flight d (s\<lparr>by_hash := by_hash s - {ht_hash d}\<rparr>)"
  have s': "?s = s\<lparr>by_hash := by_hash s - {ht_hash d}, in_flight := in_flight s @ [reservation d]\<rparr>"
    using Cons.prems(2) by (auto simp: mark_in_flight_def reservation_def)
  have "ht_hash ` set ds \<inter> fst ` set (in_flight ?s) = {}"
    using Cons.prems unfolding s' by (auto simp: reservation_def)
  then show ?case using Cons.IH[of ?s] Cons.prems(1) by (simp add: s' Diff_insert2[symmetric] insert_commute)
qed simp

lemma fold_recovered:
  assumes "distinct (map ht_hash ts)" "ht_hash ` set ts \<inter> by_hash s = {}"
  shows "fold push_front_recovered ts s = s\<lparr>pool_txs := rev ts @ pool_txs s, by_hash := by_hash s \<union> ht_hash ` set ts,
     in_flight := filter (\<lambda>r. fst r \<notin> ht_hash ` set ts) (in_flight s)\<rparr>"
  using assms
proof (induction ts arbitrary: s)
  case (Cons t ts)
  have s': "push_front_recovered t s = s\<lparr>pool_txs := t # pool_txs s, by_hash := insert (ht_hash t) (by_hash s),
      in_flight := filter (\<lambda>r. fst r \<noteq> ht_hash t) (in_flight s)\<rparr>"
    using Cons.prems(2) by (simp add: push_front_recovered_def release_in_flight_def Let_def)
  have "ht_hash ` set ts \<inter> by_hash (push_front_recovered t s) = {}" using Cons.prems by (auto simp: s')
  then show ?case using Cons.IH[of "push_front_recovered t s"] Cons.prems(1)
    by (simp add: s')
qed simp

lemma fold_release:
  "fold release_in_flight ts s = s\<lparr>in_flight := filter (\<lambda>r. fst r \<notin> ht_hash ` set ts) (in_flight s)\<rparr>"
  by (induction ts arbitrary: s) (simp_all add: release_in_flight_def)

lemma no_replacement:
  assumes "chain_ascends (ds @ pool_txs s)"
  shows "fold (note_replacement s) ds m = m"
  using assms
proof (induction ds)
  case (Cons d ds)
  have "\<not> (chain_of q = chain_of d \<and> ht_nonce q = ht_nonce d)" if "q \<in> set (pool_txs s)" for q
  proof -
    have "chain_of d = chain_of q \<longrightarrow> ht_nonce d < ht_nonce q" using Cons.prems that by (simp add: chain_ascends_def)
    then show ?thesis by auto
  qed
  then have "filter (\<lambda>q. chain_of q = chain_of d \<and> ht_nonce q = ht_nonce d \<and> ht_hash q \<noteq> ht_hash d) (pool_txs s) = []"
    unfolding filter_empty_conv by blast
  then show ?case using Cons by (simp add: note_replacement_def chain_ascends_def)
qed simp

lemma position_Some: "position P xs = Some i \<Longrightarrow> i < length xs \<and> P (xs ! i)"
  by (induction xs arbitrary: i) (auto split: if_splits)

lemma position_None: "position P xs = None \<longleftrightarrow> (\<forall>x \<in> set xs. \<not> P x)"
  by (induction xs) auto

lemma fold_max: "fold max ns (n :: 'a :: linorder) = Max (set (n # ns))"
  by (rule Max.set_eq_fold[symmetric])

lemma next_expected_above:
  assumes "next_expected_nonce s c oc = Some e" "k \<in> set (chain_nonces s c)"
  shows "k < e"
proof (cases "filter (\<lambda>n. n \<ge> oc) (chain_nonces s c)")
  case Nil
  then show ?thesis using assms by (auto simp: next_expected_nonce_def filter_empty_conv)
next
  case (Cons n ns)
  let ?m = "fold max ns n"
  have e: "e = ?m + 1" "Suc (unat ?m) < 2 ^ 64" using assms(1) Cons by (auto simp: next_expected_nonce_def checked_add_word_Some)
  have lt: "?m < e" using e by (simp add: word_less_nat_alt unat_add_no_overflow)
  have "k \<le> ?m \<or> k < oc"
  proof (cases "k \<ge> oc")
    case True
    then have "k \<in> set (n # ns)" using assms(2) unfolding Cons[symmetric] by simp
    then show ?thesis unfolding fold_max by (intro disjI1 Max_ge) simp_all
  qed auto
  moreover have "oc \<le> ?m"
  proof -
    have "?m \<in> set (n # ns)" unfolding fold_max by (intro Max_in) simp_all
    then have "?m \<in> set (filter (\<lambda>n. n \<ge> oc) (chain_nonces s c))" using Cons by simp
    then show ?thesis by simp
  qed
  ultimately show ?thesis using lt by auto
qed

lemma next_expected_ge: "next_expected_nonce s c oc = Some e \<Longrightarrow> oc \<le> e"
proof (cases "filter (\<lambda>n. n \<ge> oc) (chain_nonces s c)")
  case (Cons n ns)
  assume e: "next_expected_nonce s c oc = Some e"
  have "n \<in> set (filter (\<lambda>n. n \<ge> oc) (chain_nonces s c))" unfolding Cons by simp
  then have "n \<in> set (chain_nonces s c)" "oc \<le> n" by auto
  then show "oc \<le> e" using next_expected_above[OF e] by (meson less_imp_le order_trans)
qed (simp add: next_expected_nonce_def)

lemma chain_nonces_live:
  assumes "pool_inv w"
  shows "set (chain_nonces (w_pool w) c) = ht_nonce ` {tx \<in> set (live w). chain_of tx = c}"
proof -
  have f: "filter (\<lambda>(_, sd, d, _). (sd, d) = c) (map reservation ds) = map reservation (filter (\<lambda>tx. chain_of tx = c) ds)" for ds
    by (induction ds) (auto simp: reservation_def chain_of_def)
  have n: "map (\<lambda>(_, _, _, n). n) (map reservation ds) = map ht_nonce ds" for ds
    by (simp add: reservation_def)
  have "in_flight (w_pool w) = map reservation (w_drained w)" using assms by (simp add: pool_inv_def)
  then have "chain_nonces (w_pool w) c = map ht_nonce (filter (\<lambda>tx. chain_of tx = c) (pool_txs (w_pool w) @ w_drained w))"
    unfolding chain_nonces_def by (simp only: f n map_append filter_append)
  then show ?thesis by (auto simp: live_def)
qed

lemma admit_replaces:
  assumes inv: "pool_inv w" and i: "i < length (pool_txs (w_pool w))" "chain_of (pool_txs (w_pool w) ! i) = chain_of tx"
      "ht_nonce (pool_txs (w_pool w) ! i) = ht_nonce tx"
    and fresh: "ht_hash tx \<notin> ht_hash ` set (live w)"
  shows "pool_inv (w\<lparr>w_pool := (w_pool w)\<lparr>pool_txs := (pool_txs (w_pool w))[i := tx],
     by_hash := insert (ht_hash tx) (by_hash (w_pool w) - {ht_hash (pool_txs (w_pool w) ! i)})\<rparr>\<rparr>)"
proof -
  let ?q = "pool_txs (w_pool w)" and ?d = "w_drained w"
  have dist: "distinct (map ht_hash (?d @ ?q))" and asc: "chain_ascends (?d @ ?q)" using inv by (simp_all add: pool_inv_def live_def)
  have live: "?d @ ?q[i := tx] = (?d @ ?q)[length ?d + i := tx]" by (simp add: list_update_append)
  let ?k = "length ?d + i"
  have k: "?k < length (?d @ ?q)" "(?d @ ?q) ! ?k = ?q ! i" using i(1) by (simp_all add: nth_append)
  have "distinct (map ht_hash ((?d @ ?q)[?k := tx]))"
    unfolding map_update using dist fresh by (intro distinct_list_update) (auto simp: live_def)
  moreover have "chain_ascends ((?d @ ?q)[?k := tx])"
  proof -
    have c: "chain_of ((?d @ ?q)[?k := tx] ! j) = chain_of ((?d @ ?q) ! j)"
      "ht_nonce ((?d @ ?q)[?k := tx] ! j) = ht_nonce ((?d @ ?q) ! j)" if "j < length (?d @ ?q)" for j
      using k i(2,3) that by (auto simp: nth_list_update)
    show ?thesis unfolding chain_ascends_def sorted_wrt_iff_nth_less
    proof (intro allI impI)
      fix a b assume "a < b" "b < length ((?d @ ?q)[?k := tx])"
        and "chain_of ((?d @ ?q)[?k := tx] ! a) = chain_of ((?d @ ?q)[?k := tx] ! b)"
      then show "ht_nonce ((?d @ ?q)[?k := tx] ! a) < ht_nonce ((?d @ ?q)[?k := tx] ! b)"
        using asc c[of a] c[of b] unfolding chain_ascends_def sorted_wrt_iff_nth_less length_list_update by simp
    qed
  qed
  moreover have "insert (ht_hash tx) (ht_hash ` set ?q - {ht_hash (?q ! i)}) = ht_hash ` set (?q[i := tx])"
  proof -
    have d: "distinct (map ht_hash ?q)" using dist by simp
    have "set ((map ht_hash ?q)[i := ht_hash tx]) = insert (ht_hash tx) (set (map ht_hash ?q) - {map ht_hash ?q ! i})"
      by (rule set_update_distinct[OF d]) (simp add: i(1))
    then show ?thesis using i(1) by (simp add: map_update[symmetric])
  qed
  ultimately show ?thesis using inv unfolding pool_inv_def live_def by (simp add: live)
qed

lemma admit_appends:
  assumes inv: "pool_inv w" and fresh: "ht_hash tx \<notin> ht_hash ` set (live w)"
    and above: "\<forall>k \<in> set (chain_nonces (w_pool w) (chain_of tx)). k < ht_nonce tx"
  shows "pool_inv (w\<lparr>w_pool := (w_pool w)\<lparr>by_hash := insert (ht_hash tx) (by_hash (w_pool w)), pool_txs := pool_txs (w_pool w) @ [tx]\<rparr>\<rparr>)"
proof -
  have "chain_of t = chain_of tx \<longrightarrow> ht_nonce t < ht_nonce tx" if "t \<in> set (live w)" for t
    using above that unfolding chain_nonces_live[OF inv] by auto
  then have "chain_ascends (live w @ [tx])" using inv by (simp add: pool_inv_def chain_ascends_def sorted_wrt_append)
  then show ?thesis using inv fresh by (auto simp: pool_inv_def live_def)
qed

lemma known_hashes:
  "pool_inv w \<Longrightarrow> ht_hash ` set (live w) = by_hash (w_pool w) \<union> fst ` set (in_flight (w_pool w))"
  by (auto simp: pool_inv_def live_def reservation_def image_Un image_image)

lemma pool_inv_admit:
  assumes inv: "pool_inv w" and adm: "push_contiguous tx oc (w_pool w) = Inr s"
  shows "pool_inv (w\<lparr>w_pool := s\<rparr>)"
proof (cases "ht_hash tx \<in> by_hash (w_pool w) \<or> ht_hash tx \<in> fst ` set (in_flight (w_pool w))")
  case True
  then have "s = w_pool w" using adm by (simp add: push_contiguous_def)
  then have "w\<lparr>w_pool := s\<rparr> = w" by (cases w) simp
  then show ?thesis using inv by simp
next
  case False
  then have fresh: "ht_hash tx \<notin> ht_hash ` set (live w)" unfolding known_hashes[OF inv] by blast
  show ?thesis
  proof (cases "position (\<lambda>q. chain_of q = chain_of tx \<and> ht_nonce q = ht_nonce tx) (pool_txs (w_pool w))")
    case (Some i)
    then have "s = (w_pool w)\<lparr>pool_txs := (pool_txs (w_pool w))[i := tx],
        by_hash := insert (ht_hash tx) (by_hash (w_pool w) - {ht_hash (pool_txs (w_pool w) ! i)})\<rparr>"
      using adm False by (simp add: push_contiguous_def Let_def split: if_splits)
    then show ?thesis using admit_replaces[OF inv _ _ _ fresh, of i] position_Some[OF Some] by simp
  next
    case None
    then have "s = (w_pool w)\<lparr>by_hash := insert (ht_hash tx) (by_hash (w_pool w)), pool_txs := pool_txs (w_pool w) @ [tx]\<rparr>"
      and "next_expected_nonce (w_pool w) (chain_of tx) oc = Some (ht_nonce tx)"
      using adm False by (auto simp: push_contiguous_def Let_def split: if_splits option.splits)
    then show ?thesis using admit_appends[OF inv fresh] next_expected_above[of "w_pool w" "chain_of tx" oc "ht_nonce tx"] by simp
  qed
qed

lemma drain_splits:
  assumes inv: "pool_inv w" and pop: "pop_n n (w_pool w) = (drained, s)"
  shows "drained @ pool_txs s = pool_txs (w_pool w)"
    "by_hash s = by_hash (w_pool w) - ht_hash ` set drained"
    "in_flight s = in_flight (w_pool w) @ map reservation drained"
proof -
  let ?q = "pool_txs (w_pool w)"
  have dr: "drained = take (min n (length ?q)) ?q" using pop by (simp add: pop_n_def Let_def)
  have dist: "distinct (map ht_hash (w_drained w @ ?q))" and fl: "in_flight (w_pool w) = map reservation (w_drained w)"
    using inv by (simp_all add: pool_inv_def live_def)
  have "set drained \<subseteq> set ?q" unfolding dr by (rule set_take_subset)
  moreover have "ht_hash ` set ?q \<inter> ht_hash ` set (w_drained w) = {}" using dist by auto
  ultimately have dj: "ht_hash ` set drained \<inter> fst ` set (in_flight (w_pool w)) = {}"
    by (fastforce simp: fl reservation_def)
  have dd: "distinct (map ht_hash drained)" using dist unfolding dr by (simp add: take_map[symmetric])
  have "s = fold (\<lambda>tx s. mark_in_flight tx (s\<lparr>by_hash := by_hash s - {ht_hash tx}\<rparr>)) drained
      ((w_pool w)\<lparr>pool_txs := drop (min n (length ?q)) ?q\<rparr>)"
    using pop unfolding dr by (auto simp: pop_n_def Let_def)
  then have s: "s = (w_pool w)\<lparr>pool_txs := drop (min n (length ?q)) ?q, by_hash := by_hash (w_pool w) - ht_hash ` set drained,
      in_flight := in_flight (w_pool w) @ map reservation drained\<rparr>"
    using fold_mark[OF dd, of "(w_pool w)\<lparr>pool_txs := drop (min n (length ?q)) ?q\<rparr>"] dj by simp
  show "drained @ pool_txs s = ?q" unfolding s dr by simp
  show "by_hash s = by_hash (w_pool w) - ht_hash ` set drained" "in_flight s = in_flight (w_pool w) @ map reservation drained"
    unfolding s by simp_all
qed

lemma pool_inv_drain:
  assumes inv: "pool_inv w" and pop: "pop_n n (w_pool w) = (drained, s)"
  shows "pool_inv (w\<lparr>w_pool := s, w_drained := w_drained w @ drained\<rparr>)"
    "live (w\<lparr>w_pool := s, w_drained := w_drained w @ drained\<rparr>) = live w"
proof -
  note d = drain_splits[OF inv pop]
  show live: "live (w\<lparr>w_pool := s, w_drained := w_drained w @ drained\<rparr>) = live w" using d(1) by (simp add: live_def)
  have "distinct (map ht_hash (w_drained w @ drained @ pool_txs s))"
    using inv d(1) by (simp add: pool_inv_def live_def)
  then have "ht_hash ` set drained \<inter> ht_hash ` set (pool_txs s) = {}" by auto
  moreover have "by_hash (w_pool w) = ht_hash ` (set drained \<union> set (pool_txs s))"
    using inv unfolding pool_inv_def d(1)[symmetric] by simp
  ultimately have "by_hash s = ht_hash ` set (pool_txs s)" unfolding d(2) by auto
  then show "pool_inv (w\<lparr>w_pool := s, w_drained := w_drained w @ drained\<rparr>)"
    using inv d(3) live by (simp add: pool_inv_def)
qed

lemma recovered_pool:
  assumes inv: "pool_inv w"
  shows "push_front_batch (w_drained w) (w_pool w)
    = (w_pool w)\<lparr>pool_txs := live w, by_hash := ht_hash ` set (live w), in_flight := []\<rparr>"
proof -
  have dist: "distinct (map ht_hash (w_drained w @ pool_txs (w_pool w)))" and asc: "chain_ascends (w_drained w @ pool_txs (w_pool w))"
    and bh: "by_hash (w_pool w) = ht_hash ` set (pool_txs (w_pool w))"
    and fl: "in_flight (w_pool w) = map reservation (w_drained w)"
    using inv by (simp_all add: pool_inv_def live_def)
  have "push_front_batch (w_drained w) (w_pool w) = fold push_front_recovered (rev (w_drained w)) (w_pool w)"
    by (simp add: push_front_batch_def no_replacement[OF asc] Let_def)
  also have "\<dots> = (w_pool w)\<lparr>pool_txs := live w, by_hash := ht_hash ` set (live w), in_flight := []\<rparr>"
  proof -
    have "distinct (map ht_hash (rev (w_drained w)))" using dist by (simp add: rev_map[symmetric])
    moreover have "ht_hash ` set (rev (w_drained w)) \<inter> by_hash (w_pool w) = {}" using dist by (auto simp: bh)
    moreover have "filter (\<lambda>r. fst r \<notin> ht_hash ` set (w_drained w)) (map reservation (w_drained w)) = []"
      by (auto simp: filter_empty_conv reservation_def)
    ultimately show ?thesis by (simp add: fold_recovered fl bh live_def image_Un Un_commute)
  qed
  finally show ?thesis .
qed

lemma pool_inv_recover:
  assumes inv: "pool_inv w"
  shows "pool_inv (w\<lparr>w_pool := push_front_batch (w_drained w) (w_pool w), w_drained := []\<rparr>)"
    "live (w\<lparr>w_pool := push_front_batch (w_drained w) (w_pool w), w_drained := []\<rparr>) = live w"
  using inv by (simp_all add: recovered_pool[OF inv] pool_inv_def live_def)

lemma pool_inv_settle:
  assumes inv: "pool_inv w"
  shows "pool_inv (w\<lparr>w_pool := release_in_flight_batch (w_drained w) (w_pool w), w_drained := [], w_on_chain := oc\<rparr>)"
    "live (w\<lparr>w_pool := release_in_flight_batch (w_drained w) (w_pool w), w_drained := [], w_on_chain := oc\<rparr>) = pool_txs (w_pool w)"
proof -
  have "filter (\<lambda>r. fst r \<notin> ht_hash ` set (w_drained w)) (map reservation (w_drained w)) = []"
    by (auto simp: filter_empty_conv reservation_def)
  then show "pool_inv (w\<lparr>w_pool := release_in_flight_batch (w_drained w) (w_pool w), w_drained := [], w_on_chain := oc\<rparr>)"
    "live (w\<lparr>w_pool := release_in_flight_batch (w_drained w) (w_pool w), w_drained := [], w_on_chain := oc\<rparr>) = pool_txs (w_pool w)"
    using inv by (simp_all add: release_in_flight_batch_def fold_release pool_inv_def live_def chain_ascends_def sorted_wrt_append)
qed

lemma chain_ascends_filter: "chain_ascends txs \<Longrightarrow> chain_ascends (filter P txs)"
  unfolding chain_ascends_def by (rule sorted_wrt_filter)

lemma pool_inv_evict:
  assumes inv: "pool_inv w" and ev: "evict_chain_at_or_above c n (w_pool w) = (evicted, s)"
  shows "pool_inv (w\<lparr>w_pool := s, w_drained := filter (\<lambda>tx. \<not> (chain_of tx = c \<and> ht_nonce tx \<ge> n)) (w_drained w)\<rparr>)"
    "live (w\<lparr>w_pool := s, w_drained := filter (\<lambda>tx. \<not> (chain_of tx = c \<and> ht_nonce tx \<ge> n)) (w_drained w)\<rparr>)
      = filter (\<lambda>tx. \<not> (chain_of tx = c \<and> ht_nonce tx \<ge> n)) (live w)"
proof -
  let ?E = "\<lambda>tx. chain_of tx = c \<and> ht_nonce tx \<ge> n" and ?q = "pool_txs (w_pool w)"
  let ?w = "w\<lparr>w_pool := s, w_drained := filter (\<lambda>tx. \<not> ?E tx) (w_drained w)\<rparr>"
  have s: "pool_txs s = filter (\<lambda>tx. \<not> ?E tx) ?q" "by_hash s = by_hash (w_pool w) - ht_hash ` set (filter ?E ?q)"
    "in_flight s = filter (\<lambda>(_, sd, d, k). \<not> ((sd, d) = c \<and> k \<ge> n)) (in_flight (w_pool w))"
    using ev by (auto simp: evict_chain_at_or_above_def Let_def)
  show live: "live ?w = filter (\<lambda>tx. \<not> ?E tx) (live w)" by (simp add: live_def s(1))
  have "distinct (map ht_hash (live ?w))"
    using inv unfolding live pool_inv_def by (simp add: distinct_map_filter)
  moreover have "chain_ascends (live ?w)" unfolding live by (rule chain_ascends_filter) (use inv in \<open>simp add: pool_inv_def\<close>)
  moreover have "by_hash s = ht_hash ` set (pool_txs s)"
  proof -
    have "inj_on ht_hash (set ?q)" using inv by (simp add: pool_inv_def live_def distinct_map)
    then show ?thesis using inv unfolding s pool_inv_def by (auto simp: inj_on_def)
  qed
  moreover have "filter (\<lambda>(_, sd, d, k). \<not> ((sd, d) = c \<and> k \<ge> n)) (map reservation ds) = map reservation (filter (\<lambda>tx. \<not> ?E tx) ds)" for ds
    by (induction ds) (auto simp: reservation_def chain_of_def)
  then have "in_flight s = map reservation (w_drained ?w)" using inv unfolding s(3) pool_inv_def by simp
  ultimately show "pool_inv ?w" unfolding pool_inv_def by simp
qed

lemma pool_inv_step: "pool_step w w' \<Longrightarrow> pool_inv w \<Longrightarrow> pool_inv w'"
proof (induction rule: pool_step.induct)
  case (advance w oc)
  then show ?case by (simp add: pool_inv_def live_def)
next
  case (evict c n w evicted s)
  then show ?case by (rule pool_inv_evict(1)[rotated])
qed (simp_all add: pool_inv_admit pool_inv_drain pool_inv_recover pool_inv_settle)

lemma pool_inv_reachable: "pool_reachable w \<Longrightarrow> pool_inv w"
  by (induction rule: pool_reachable.induct) (simp_all add: pool_inv_start pool_inv_step)

section \<open>No gaps\<close>

definition chain_reserved :: "world \<Rightarrow> chain_id \<Rightarrow> u64 set" where
  "chain_reserved w c = ht_nonce ` {tx \<in> set (live w). chain_of tx = c}"

definition gap_free :: "world \<Rightarrow> bool" where
  "gap_free w \<longleftrightarrow> (\<forall>c k m. k \<in> chain_reserved w c \<longrightarrow> w_on_chain w c \<le> m \<longrightarrow> m \<le> k \<longrightarrow> m \<in> chain_reserved w c)"

lemma next_expected_closes:
  assumes "next_expected_nonce s c oc = Some e" "oc \<le> m" "m < e"
  shows "\<exists>k \<in> set (chain_nonces s c). m \<le> k"
proof (cases "filter (\<lambda>n. n \<ge> oc) (chain_nonces s c)")
  case Nil
  then have "e = oc" using assms(1) by (simp add: next_expected_nonce_def)
  then show ?thesis using assms(2,3) by simp
next
  case (Cons n ns)
  let ?m = "fold max ns n"
  have e: "e = ?m + 1" "Suc (unat ?m) < 2 ^ 64" using assms(1) Cons by (auto simp: next_expected_nonce_def checked_add_word_Some)
  have "?m \<in> set (n # ns)" unfolding fold_max by (intro Max_in) simp_all
  then have "?m \<in> set (filter (\<lambda>n. n \<ge> oc) (chain_nonces s c))" using Cons by simp
  moreover have "unat e = Suc (unat ?m)" unfolding e(1) using e(2) by (simp add: unat_add_no_overflow)
  then have "m \<le> ?m" using assms(3) by (simp add: word_le_nat_alt word_less_nat_alt)
  ultimately show ?thesis by auto
qed

lemma admit_reserves:
  assumes inv: "pool_inv w" and adm: "push_contiguous tx oc (w_pool w) = Inr s"
  obtains "chain_reserved (w\<lparr>w_pool := s\<rparr>) = chain_reserved w"
  | "next_expected_nonce (w_pool w) (chain_of tx) oc = Some (ht_nonce tx)"
    "chain_reserved (w\<lparr>w_pool := s\<rparr>) = (chain_reserved w)(chain_of tx := insert (ht_nonce tx) (chain_reserved w (chain_of tx)))"
proof (cases "ht_hash tx \<in> by_hash (w_pool w) \<or> ht_hash tx \<in> fst ` set (in_flight (w_pool w))")
  case True
  then have "s = w_pool w" using adm by (simp add: push_contiguous_def)
  then have "w\<lparr>w_pool := s\<rparr> = w" by (cases w) simp
  then show ?thesis using that(1) by simp
next
  case False
  show ?thesis
  proof (cases "position (\<lambda>q. chain_of q = chain_of tx \<and> ht_nonce q = ht_nonce tx) (pool_txs (w_pool w))")
    case (Some i)
    let ?q = "pool_txs (w_pool w)"
    have i: "i < length ?q" "chain_of (?q ! i) = chain_of tx" "ht_nonce (?q ! i) = ht_nonce tx" using position_Some[OF Some] by simp_all
    have s: "pool_txs s = ?q[i := tx]" using adm False Some by (auto simp: push_contiguous_def Let_def split: if_splits)
    have "map (\<lambda>t. (chain_of t, ht_nonce t)) (?q[i := tx]) = map (\<lambda>t. (chain_of t, ht_nonce t)) ?q"
      unfolding map_update using i by (intro nth_equalityI) (auto simp: nth_list_update)
    then have e: "(\<lambda>t. (chain_of t, ht_nonce t)) ` set (?q[i := tx]) = (\<lambda>t. (chain_of t, ht_nonce t)) ` set ?q"
      using arg_cong[where f = set] unfolding set_map[symmetric] by blast
    have r: "ht_nonce ` {t \<in> A. chain_of t = c} = {k. (c, k) \<in> (\<lambda>t. (chain_of t, ht_nonce t)) ` A}" for A c by auto
    have "chain_reserved (w\<lparr>w_pool := s\<rparr>) = chain_reserved w"
      unfolding chain_reserved_def live_def r by (rule ext) (simp add: s image_Un e)
    then show ?thesis by (rule that(1))
  next
    case None
    then have s: "pool_txs s = pool_txs (w_pool w) @ [tx]"
      and "next_expected_nonce (w_pool w) (chain_of tx) oc = Some (ht_nonce tx)"
      using adm False by (auto simp: push_contiguous_def Let_def split: if_splits option.splits)
    moreover have "chain_reserved (w\<lparr>w_pool := s\<rparr>) = (chain_reserved w)(chain_of tx := insert (ht_nonce tx) (chain_reserved w (chain_of tx)))"
      by (rule ext) (auto simp: chain_reserved_def live_def s)
    ultimately show ?thesis by (intro that(2))
  qed
qed

lemma gap_free_admit:
  assumes inv: "pool_inv w" and gap: "gap_free w" and adm: "push_contiguous tx (w_on_chain w (chain_of tx)) (w_pool w) = Inr s"
  shows "gap_free (w\<lparr>w_pool := s\<rparr>)"
proof (rule admit_reserves[OF inv adm])
  assume "chain_reserved (w\<lparr>w_pool := s\<rparr>) = chain_reserved w"
  then show ?thesis using gap by (simp add: gap_free_def)
next
  assume e: "next_expected_nonce (w_pool w) (chain_of tx) (w_on_chain w (chain_of tx)) = Some (ht_nonce tx)"
    and r: "chain_reserved (w\<lparr>w_pool := s\<rparr>) = (chain_reserved w)(chain_of tx := insert (ht_nonce tx) (chain_reserved w (chain_of tx)))"
  have below: "m \<in> chain_reserved w (chain_of tx)" if m: "w_on_chain w (chain_of tx) \<le> m" "m < ht_nonce tx" for m
  proof -
    obtain k where "k \<in> chain_reserved w (chain_of tx)" "m \<le> k"
      using next_expected_closes[OF e m] unfolding chain_nonces_live[OF inv] chain_reserved_def by blast
    then show ?thesis using gap m(1) unfolding gap_free_def by blast
  qed
  show ?thesis unfolding gap_free_def r
  proof (intro allI impI)
    fix c k m
    assume k: "k \<in> ((chain_reserved w)(chain_of tx := insert (ht_nonce tx) (chain_reserved w (chain_of tx)))) c"
      and m: "w_on_chain (w\<lparr>w_pool := s\<rparr>) c \<le> m" "m \<le> k"
    have "m \<in> chain_reserved w c \<or> (c = chain_of tx \<and> m = ht_nonce tx)"
    proof (cases "k \<in> chain_reserved w c")
      case True
      moreover have "w_on_chain w c \<le> m" using m(1) by simp
      ultimately show ?thesis using gap m(2) unfolding gap_free_def by blast
    next
      case False
      then have "c = chain_of tx" "k = ht_nonce tx" using k by (auto split: if_splits)
      then show ?thesis using below[of m] m by (cases "m = k") auto
    qed
    then show "m \<in> ((chain_reserved w)(chain_of tx := insert (ht_nonce tx) (chain_reserved w (chain_of tx)))) c" by auto
  qed
qed

lemma gap_free_mono:
  assumes "gap_free w" "\<forall>c. w_on_chain w c \<le> w_on_chain w' c"
    "\<And>c k. k \<in> chain_reserved w' c \<Longrightarrow> k \<in> chain_reserved w c"
    "\<And>c m k. m \<in> chain_reserved w c \<Longrightarrow> w_on_chain w' c \<le> m \<Longrightarrow> k \<in> chain_reserved w' c \<Longrightarrow> m \<le> k \<Longrightarrow> m \<in> chain_reserved w' c"
  shows "gap_free w'"
  unfolding gap_free_def
proof (intro allI impI)
  fix c k m assume k: "k \<in> chain_reserved w' c" and m: "w_on_chain w' c \<le> m" "m \<le> k"
  have "w_on_chain w c \<le> m" using assms(2) m(1) order_trans by blast
  then have "m \<in> chain_reserved w c" using assms(1) assms(3)[OF k] m(2) unfolding gap_free_def by blast
  then show "m \<in> chain_reserved w' c" using assms(4) m k by blast
qed

lemma gap_free_settle:
  assumes inv: "pool_inv w" and gap: "gap_free w" and oc: "\<forall>c. w_on_chain w c \<le> oc c"
    and landed: "\<forall>tx \<in> set (w_drained w). ht_nonce tx < oc (chain_of tx)"
  shows "gap_free (w\<lparr>w_pool := release_in_flight_batch (w_drained w) (w_pool w), w_drained := [], w_on_chain := oc\<rparr>)"
    (is "gap_free ?w")
proof (rule gap_free_mono[OF gap])
  show "\<forall>c. w_on_chain w c \<le> w_on_chain ?w c" using oc by simp
  show "k \<in> chain_reserved w c" if "k \<in> chain_reserved ?w c" for c k
    using that unfolding chain_reserved_def pool_inv_settle(2)[OF inv] by (auto simp: live_def)
  show "m \<in> chain_reserved ?w c" if m: "m \<in> chain_reserved w c" "w_on_chain ?w c \<le> m" for c m
  proof -
    obtain tx where tx: "tx \<in> set (live w)" "chain_of tx = c" "ht_nonce tx = m" using m(1) by (auto simp: chain_reserved_def)
    have "tx \<notin> set (w_drained w)" using landed m(2) tx(2,3) by auto
    then have "tx \<in> set (pool_txs (w_pool w))" using tx(1) by (simp add: live_def)
    then show ?thesis unfolding chain_reserved_def pool_inv_settle(2)[OF inv] using tx(2,3) by auto
  qed
qed

lemma gap_free_evict:
  assumes inv: "pool_inv w" and gap: "gap_free w" and ev: "evict_chain_at_or_above c n (w_pool w) = (evicted, s)"
  shows "gap_free (w\<lparr>w_pool := s, w_drained := filter (\<lambda>tx. \<not> (chain_of tx = c \<and> ht_nonce tx \<ge> n)) (w_drained w)\<rparr>)"
    (is "gap_free ?w")
proof (rule gap_free_mono[OF gap])
  note r = chain_reserved_def pool_inv_evict(2)[OF inv ev]
  show "\<forall>c. w_on_chain w c \<le> w_on_chain ?w c" by simp
  show "k \<in> chain_reserved w d" if "k \<in> chain_reserved ?w d" for d k
    using that unfolding r by (auto simp: chain_reserved_def)
  show "m \<in> chain_reserved ?w d" if m: "m \<in> chain_reserved w d" "k \<in> chain_reserved ?w d" "m \<le> k" for d m k
  proof -
    obtain tx where tx: "tx \<in> set (live w)" "chain_of tx = d" "ht_nonce tx = m" using m(1) by (auto simp: chain_reserved_def)
    have "\<not> (d = c \<and> n \<le> k)" using m(2) unfolding r by auto
    then have "\<not> (d = c \<and> n \<le> m)" using m(3) by auto
    then show ?thesis unfolding r using tx by auto
  qed
qed

lemma gap_free_step: "pool_step w w' \<Longrightarrow> pool_inv w \<Longrightarrow> gap_free w \<Longrightarrow> gap_free w'"
proof (induction rule: pool_step.induct)
  case (admit tx w s)
  then show ?case by (simp add: gap_free_admit)
next
  case (drain n w drained s)
  then show ?case using pool_inv_drain(2)[OF drain(2,1)] by (simp add: gap_free_def chain_reserved_def)
next
  case (recover w)
  then show ?case using pool_inv_recover(2)[OF recover(1)] by (simp add: gap_free_def chain_reserved_def)
next
  case (settle w oc)
  then show ?case by (simp add: gap_free_settle)
next
  case (evict c n w evicted s)
  then show ?case by (rule gap_free_evict[rotated 2])
next
  case (advance w oc)
  then show ?case by (intro gap_free_mono[OF advance(3)]) (simp_all add: chain_reserved_def live_def)
qed

lemma gap_free_reachable: "pool_reachable w \<Longrightarrow> gap_free w"
proof (induction rule: pool_reachable.induct)
  case (start oc)
  then show ?case by (simp add: gap_free_def chain_reserved_def live_def world_new_def pool_new_def)
next
  case (step w w')
  then show ?case by (simp add: gap_free_step[OF step(2)] pool_inv_reachable)
qed

section \<open>Properties\<close>

definition example_held :: "u64 \<Rightarrow> held_tx" where
  "example_held n = \<lparr>raw_tx = [], ht_hash = ucast n, attempts = 0, ht_sender = 1, ht_nonce = n, ht_direction = Inbound,
     max_fee_per_gas = 100, priority_fee_per_gas = 10\<rparr>"

definition example_world :: world where
  "example_world = \<lparr>w_pool = \<lparr>pool_txs = [example_held 1], by_hash = {1}, in_flight = [reservation (example_held 0)]\<rparr>,
     w_drained = [example_held 0], w_on_chain = (\<lambda>_. 0)\<rparr>"

definition example_queued :: world where
  "example_queued = \<lparr>w_pool = \<lparr>pool_txs = [example_held 0, example_held 1], by_hash = {1, 0}, in_flight = []\<rparr>,
     w_drained = [], w_on_chain = (\<lambda>_. 0)\<rparr>"

lemmas held_example = world_new_def pool_new_def push_contiguous_def next_expected_nonce_def chain_nonces_def chain_of_def
  checked_add_word_def example_held_def Let_def

lemma example_queued_reachable: "pool_reachable example_queued"
proof -
  let ?w = "(world_new (\<lambda>_. 0))\<lparr>w_pool := \<lparr>pool_txs = [example_held 0], by_hash = {0}, in_flight = []\<rparr>\<rparr>"
  have "pool_step (world_new (\<lambda>_. 0)) ?w"
    by (rule pool_step.admit[of "example_held 0"]) (simp add: held_example)
  then have "pool_reachable ?w" using pool_reachable.intros by blast
  moreover have "pool_step ?w (?w\<lparr>w_pool := \<lparr>pool_txs = [example_held 0, example_held 1], by_hash = {1, 0}, in_flight = []\<rparr>\<rparr>)"
    by (rule pool_step.admit[of "example_held 1"]) (simp add: held_example)
  ultimately have "pool_reachable (?w\<lparr>w_pool := \<lparr>pool_txs = [example_held 0, example_held 1], by_hash = {1, 0}, in_flight = []\<rparr>\<rparr>)"
    by (rule pool_reachable.step)
  then show ?thesis by (simp add: example_queued_def world_new_def)
qed

lemma example_pop: "pop_n 1 (w_pool example_queued) = ([example_held 0], w_pool example_world)"
  by (simp add: pop_n_def example_queued_def example_world_def mark_in_flight_def reservation_def example_held_def insert_Diff_if)

lemma example_world_reachable: "pool_reachable example_world"
proof -
  have "pool_step example_queued (example_queued\<lparr>w_pool := w_pool example_world, w_drained := w_drained example_queued @ [example_held 0]\<rparr>)"
    by (rule pool_step.drain[OF example_pop])
  moreover have "example_queued\<lparr>w_pool := w_pool example_world, w_drained := w_drained example_queued @ [example_held 0]\<rparr> = example_world"
    by (simp add: example_queued_def example_world_def)
  ultimately show ?thesis using example_queued_reachable pool_reachable.step by metis
qed





text \<open>
  C34. Draining a bundle and returning it restores the queue: from a reachable pool with nothing in flight, popping any
  number of transactions and pushing the popped batch back gives the same pool, index and reservations included.
\<close>
theorem drain_recover_round_trip:
  assumes "pool_reachable w" "w_drained w = []" "pop_n n (w_pool w) = (drained, s)"
  shows "push_front_batch drained s = w_pool w"
proof -
  have inv: "pool_inv w" using assms(1) by (rule pool_inv_reachable)
  let ?w = "w\<lparr>w_pool := s, w_drained := w_drained w @ drained\<rparr>"
  have "push_front_batch (w_drained ?w) (w_pool ?w) = s\<lparr>pool_txs := live w, by_hash := ht_hash ` set (live w), in_flight := []\<rparr>"
    using recovered_pool[OF pool_inv_drain(1)[OF inv assms(3)]] pool_inv_drain(2)[OF inv assms(3)] by simp
  moreover have "s\<lparr>pool_txs := live w, by_hash := ht_hash ` set (live w), in_flight := []\<rparr> = w_pool w"
    using inv assms(2) by (intro pool_state.equality) (simp_all add: pool_inv_def live_def)
  ultimately show ?thesis using assms(2) by simp
qed

theorem drain_recover_round_trip_witness:
  "push_front_batch [example_held 0] (w_pool example_world) = w_pool example_queued"
  by (rule drain_recover_round_trip[OF example_queued_reachable _ example_pop]) (simp add: example_queued_def)

lemma min_replacement_fee_bumps:
  assumes "unat f * 10 < 2 ^ 128"
  shows "unat (min_replacement_fee f) = unat f + max (unat f div 10) 1"
proof -
  let ?p = "saturating_mul f REPLACEMENT_TX_COST_PERCENT"
  have "unat ?p = unat f * 10"
    using assms unfolding saturating_mul_def REPLACEMENT_TX_COST_PERCENT_def by (simp add: unat_mult_lem[THEN iffD1])
  then have d: "unat (?p div 100) = unat f div 10" by (simp add: unat_div)
  have m: "unat (max (?p div 100) 1) = max (unat f div 10) 1"
    unfolding max_def word_le_nat_alt d by (simp add: d)
  have "unat f + max (unat f div 10) 1 < 2 ^ 128"
    using assms div_le_dividend[of "unat f" 10] by (auto simp: max_def)
  then show ?thesis unfolding min_replacement_fee_def Let_def saturating_add_def m
    by (simp add: unat_add_no_overflow m)
qed

lemma admission_drops:
  assumes "push_contiguous tx oc s = Inr s'" "q \<in> set (pool_txs s)" "q \<notin> set (pool_txs s')"
  shows "chain_of q = chain_of tx \<and> ht_nonce q = ht_nonce tx \<and> min_replacement_fee (max_fee_per_gas q) \<le> max_fee_per_gas tx
    \<and> min_replacement_fee (priority_fee_per_gas q) \<le> priority_fee_per_gas tx"
proof (cases "position (\<lambda>q. chain_of q = chain_of tx \<and> ht_nonce q = ht_nonce tx) (pool_txs s)")
  case None
  then have "set (pool_txs s) \<subseteq> set (pool_txs s')"
    using assms(1) by (auto simp: push_contiguous_def Let_def split: if_splits option.splits)
  then show ?thesis using assms(2,3) by blast
next
  case (Some i)
  have "s' \<noteq> s" using assms(2,3) by auto
  then have s': "pool_txs s' = (pool_txs s)[i := tx]"
    and fees: "\<not> max_fee_per_gas tx < min_replacement_fee (max_fee_per_gas (pool_txs s ! i))"
      "\<not> priority_fee_per_gas tx < min_replacement_fee (priority_fee_per_gas (pool_txs s ! i))"
    using assms(1) Some by (auto simp: push_contiguous_def Let_def split: if_splits)
  obtain j where j: "j < length (pool_txs s)" "q = pool_txs s ! j" using assms(2) by (auto simp: in_set_conv_nth)
  have "j = i"
  proof (rule ccontr)
    assume "j \<noteq> i"
    then have "(pool_txs s)[i := tx] ! j = q" using j by simp
    then have "q \<in> set (pool_txs s')" unfolding s' using j(1) nth_mem[of j "(pool_txs s)[i := tx]"] by simp
    then show False using assms(3) by blast
  qed
  then show ?thesis using position_Some[OF Some] fees j(2) by (simp add: not_less)
qed



lemma replacement_bump_saturates:
  "min_replacement_fee (2 ^ 127) = 2 ^ 127 + 3402823669209384634633746074317682114
    \<and> 100 * unat (min_replacement_fee (2 ^ 127)) < 103 * unat (2 ^ 127 :: u128)"
  by (simp add: min_replacement_fee_def saturating_mul_def saturating_add_def REPLACEMENT_TX_COST_PERCENT_def max_def word_le_nat_alt)

end
