(* ===== verification/Signed_Heads.thy ===== *)
theory Signed_Heads
  imports Prelude "HOL-Library.AList" "HOL-Library.Product_Lexorder"
begin

text \<open>
  Signed unsafe heads: the sequencer's claims and their signer, envelope verification and the tracker of the latest
  head of each signing process (\<^verbatim>\<open>crates/eez-seq-sig/src\<close>), and the gossip layer's wire format and
  message validator (\<^verbatim>\<open>crates/eez-p2p/src/wire.rs\<close>, \<^verbatim>\<open>validate.rs\<close>). Signatures, EIP-712
  hashing, RLP, Snappy and block hashing are fields of the record of library functions.
\<close>

section \<open>Claims\<close>

record head_domain =
  l2_chain_id :: u64
  registry :: address
  dom_rollup_id :: u64

record eip712_domain =
  ed_name :: string
  ed_version :: string
  ed_chain_id :: u64
  verifying_contract :: address

definition eip712 :: "head_domain \<Rightarrow> eip712_domain" where
  "eip712 d = \<lparr>ed_name = ''EEZ Sequencer'', ed_version = ''0'', ed_chain_id = l2_chain_id d, verifying_contract = registry d\<rparr>"

record signed_head =
  sh_rollupId :: u64
  sh_number :: u64
  sh_blockHash :: b256
  sh_parentHash :: b256
  sh_epochMs :: u64
  sh_counter :: u64

record head_claim =
  hc_rollup_id :: u64
  hc_number :: u64
  hc_block_hash :: b256
  hc_parent_hash :: b256
  epoch_ms :: u64
  counter :: u64

type_synonym head_version = "u64 \<times> u64"

definition claim_version :: "head_claim \<Rightarrow> head_version" where
  "claim_version c = (epoch_ms c, counter c)"

section \<open>Blocks and library functions\<close>

record l2_header =
  lh_number :: u64
  lh_parent_hash :: b256
  lh_fields :: bytes

record l2_block =
  lb_header :: l2_header
  lb_body :: bytes

record sealed_block =
  sb_block :: l2_block
  sb_hash :: b256

abbreviation sb_number :: "sealed_block \<Rightarrow> u64" where
  "sb_number b \<equiv> lh_number (lb_header (sb_block b))"

abbreviation sb_parent_hash :: "sealed_block \<Rightarrow> b256" where
  "sb_parent_hash b \<equiv> lh_parent_hash (lb_header (sb_block b))"

type_synonym signature = "u256 \<times> u256 \<times> bool"

record envelope =
  env_head :: head_claim
  env_signature :: bytes
  env_block :: "bytes option"

record wire_head =
  wh_rollup_id :: u64
  wh_number :: u64
  wh_block_hash :: b256
  wh_parent_hash :: b256
  wh_epoch_ms :: u64
  wh_counter :: u64

record wire_envelope =
  we_head :: wire_head
  wire_signature :: bytes
  wire_block :: bytes

record head_lib =
  eip712_signing_hash :: "eip712_domain \<Rightarrow> signed_head \<Rightarrow> b256"
  signature_from_bytes :: "bytes \<Rightarrow> string + signature"
  signature_bytes :: "signature \<Rightarrow> bytes"
  recover_address_from_prehash :: "signature \<Rightarrow> b256 \<Rightarrow> string + address"
  sign_hash_sync :: "b256 \<Rightarrow> b256 \<Rightarrow> string + signature"
  key_address :: "b256 \<Rightarrow> address"
  decode_block_rlp :: "bytes \<Rightarrow> string + l2_block \<times> bytes"
  validate_body_against_header :: "bytes \<Rightarrow> l2_header \<Rightarrow> string + unit"
  hash_slow :: "l2_header \<Rightarrow> b256"
  wire_rlp_encode :: "wire_envelope \<Rightarrow> bytes"
  wire_rlp_decode :: "bytes \<Rightarrow> string + wire_envelope \<times> bytes"
  snappy_compress :: "bytes \<Rightarrow> string + bytes"
  snappy_decompress_len :: "bytes \<Rightarrow> string + nat"
  snappy_decompress :: "bytes \<Rightarrow> string + bytes"

definition signing_hash :: "head_lib \<Rightarrow> head_domain \<Rightarrow> head_claim \<Rightarrow> b256" where
  "signing_hash L d c = eip712_signing_hash L (eip712 d)
     \<lparr>sh_rollupId = hc_rollup_id c, sh_number = hc_number c, sh_blockHash = hc_block_hash c,
      sh_parentHash = hc_parent_hash c, sh_epochMs = epoch_ms c, sh_counter = counter c\<rparr>"

section \<open>Envelopes\<close>

record verified_head =
  vh_claim :: head_claim
  vh_signer :: address
  vh_block :: "sealed_block option"

datatype verify_error =
    WrongRollup u64 u64
  | BadSignature string
  | UnauthorizedSigner address
  | BlockDecode string
  | BlockMismatch string
  | BodyMismatch string

definition seal_slow :: "head_lib \<Rightarrow> l2_block \<Rightarrow> sealed_block" where
  "seal_slow L b = \<lparr>sb_block = b, sb_hash = hash_slow L (lb_header b)\<rparr>"

definition decode_block :: "head_lib \<Rightarrow> bytes \<Rightarrow> verify_error + sealed_block" where
  "decode_block L rlp =
     and_then (map_err BlockDecode (decode_block_rlp L rlp)) (\<lambda>(block, buf).
     if buf \<noteq> [] then Inl (BlockDecode ''trailing bytes'')
     else and_then (map_err BodyMismatch (validate_body_against_header L (lb_body block) (lb_header block))) (\<lambda>_.
     Inr (seal_slow L block)))"

definition decode_optional_block :: "head_lib \<Rightarrow> bytes option \<Rightarrow> verify_error + sealed_block option" where
  "decode_optional_block L block =
     (case block of None \<Rightarrow> Inr None | Some rlp \<Rightarrow> and_then (decode_block L rlp) (\<lambda>b. Inr (Some b)))"

definition block_matches_claim :: "head_claim \<Rightarrow> sealed_block option \<Rightarrow> verify_error + unit" where
  "block_matches_claim c block =
     (case block of
        None \<Rightarrow> Inr ()
      | Some b \<Rightarrow>
          if sb_hash b \<noteq> hc_block_hash c then Inl (BlockMismatch ''hash'')
          else if sb_parent_hash b \<noteq> hc_parent_hash c then Inl (BlockMismatch ''parent'')
          else if sb_number b \<noteq> hc_number c then Inl (BlockMismatch ''number'')
          else Inr ())"

definition envelope_verify :: "head_lib \<Rightarrow> head_domain \<Rightarrow> address \<Rightarrow> envelope \<Rightarrow> verify_error + verified_head" where
  "envelope_verify L d authorized env =
     (let head = env_head env in
      if hc_rollup_id head \<noteq> dom_rollup_id d then Inl (WrongRollup (dom_rollup_id d) (hc_rollup_id head))
      else and_then (map_err BadSignature (signature_from_bytes L (env_signature env))) (\<lambda>sig.
      and_then (map_err BadSignature (recover_address_from_prehash L sig (signing_hash L d head))) (\<lambda>signer.
      if signer \<noteq> authorized then Inl (UnauthorizedSigner signer)
      else and_then (decode_optional_block L (env_block env)) (\<lambda>block.
      and_then (block_matches_claim head block) (\<lambda>_.
      Inr \<lparr>vh_claim = head, vh_signer = signer, vh_block = block\<rparr>)))))"

section \<open>The signer\<close>

record head_signer =
  sgn_key :: b256
  sgn_domain :: head_domain
  sgn_epoch_ms :: u64
  sgn_counter :: u64

definition head_signer_new :: "b256 \<Rightarrow> head_domain \<Rightarrow> u64 \<Rightarrow> head_signer" where
  "head_signer_new key d epoch = \<lparr>sgn_key = key, sgn_domain = d, sgn_epoch_ms = epoch, sgn_counter = 0\<rparr>"

text \<open>The counter is incremented before signing, also when signing fails.\<close>

definition head_sign :: "head_lib \<Rightarrow> l2_header \<Rightarrow> b256 \<Rightarrow> bytes \<Rightarrow> head_signer \<Rightarrow> (string + envelope) \<times> head_signer" where
  "head_sign L header header_hash block_rlp s =
     (let s = s\<lparr>sgn_counter := sgn_counter s + 1\<rparr>;
          head = \<lparr>hc_rollup_id = dom_rollup_id (sgn_domain s), hc_number = lh_number header, hc_block_hash = header_hash,
                  hc_parent_hash = lh_parent_hash header, epoch_ms = sgn_epoch_ms s, counter = sgn_counter s\<rparr> in
      (and_then (sign_hash_sync L (sgn_key s) (signing_hash L (sgn_domain s) head)) (\<lambda>sig.
       Inr \<lparr>env_head = head, env_signature = signature_bytes L sig, env_block = Some block_rlp\<rparr>), s))"

section \<open>The tracker\<close>

definition MAX_FUTURE_MS :: u64 where
  "MAX_FUTURE_MS = 10000"

definition MAX_SOURCES :: nat where
  "MAX_SOURCES = 8"

record head_source =
  src_signer :: address
  src_epoch_ms :: u64

datatype head_observation = NewHead | Duplicate | Stale | Future | Equivocation b256

type_synonym head_tracker = "(head_source \<times> verified_head) list"

definition saturating_add_u64 :: "u64 \<Rightarrow> u64 \<Rightarrow> u64" where
  "saturating_add_u64 a b = (if unat a + unat b < 2 ^ 64 then a + b else - 1)"

definition head_source_of :: "verified_head \<Rightarrow> head_source" where
  "head_source_of h = \<lparr>src_signer = vh_signer h, src_epoch_ms = epoch_ms (vh_claim h)\<rparr>"

definition source_key :: "head_source \<Rightarrow> u64 \<times> address" where
  "source_key s = (src_epoch_ms s, src_signer s)"

definition oldest_source :: "head_tracker \<Rightarrow> head_source" where
  "oldest_source latest = hd (sort_key source_key (map fst latest))"

definition observe :: "verified_head \<Rightarrow> u64 \<Rightarrow> head_tracker \<Rightarrow> head_observation \<times> head_tracker" where
  "observe head now_ms latest =
     (if epoch_ms (vh_claim head) > saturating_add_u64 now_ms MAX_FUTURE_MS then (Future, latest)
      else let source = head_source_of head in
      case map_of latest source of
        Some cur \<Rightarrow>
          let c = counter (vh_claim cur); h = hc_block_hash (vh_claim cur) in
          if counter (vh_claim head) < c then (Stale, latest)
          else if counter (vh_claim head) = c
          then (if hc_block_hash (vh_claim head) = h then (Duplicate, latest) else (Equivocation h, latest))
          else (NewHead, AList.update source head latest)
      | None \<Rightarrow>
          let latest = AList.update source head latest in
          if length latest > MAX_SOURCES
          then let oldest = oldest_source latest; latest = AList.delete oldest latest in
            (if oldest = source then Stale else NewHead, latest)
          else (NewHead, latest))"

definition candidates :: "head_tracker \<Rightarrow> verified_head list" where
  "candidates latest = rev (sort_key (\<lambda>h. (claim_version (vh_claim h), vh_signer h)) (rev (map snd latest)))"

section \<open>The wire format\<close>

definition MAX_MESSAGE_SIZE :: nat where
  "MAX_MESSAGE_SIZE = 10 * 1024 * 1024"

datatype wire_error = TooLarge nat | Snappy string | Rlp string

definition wire_of :: "envelope \<Rightarrow> wire_envelope" where
  "wire_of env = (let h = env_head env in
     \<lparr>we_head = \<lparr>wh_rollup_id = hc_rollup_id h, wh_number = hc_number h, wh_block_hash = hc_block_hash h,
        wh_parent_hash = hc_parent_hash h, wh_epoch_ms = epoch_ms h, wh_counter = counter h\<rparr>,
      wire_signature = env_signature env, wire_block = (case env_block env of None \<Rightarrow> [] | Some b \<Rightarrow> b)\<rparr>)"

definition wire_encode :: "head_lib \<Rightarrow> envelope \<Rightarrow> wire_error + bytes" where
  "wire_encode L env =
     (let rlp = wire_rlp_encode L (wire_of env) in
      if length rlp > MAX_MESSAGE_SIZE then Inl (TooLarge (length rlp))
      else and_then (map_err Snappy (snappy_compress L rlp)) (\<lambda>compressed.
      if length compressed > MAX_MESSAGE_SIZE then Inl (TooLarge (length compressed)) else Inr compressed))"

definition wire_decode :: "head_lib \<Rightarrow> bytes \<Rightarrow> wire_error + envelope" where
  "wire_decode L data =
     and_then (map_err Snappy (snappy_decompress_len L data)) (\<lambda>len.
     if len > MAX_MESSAGE_SIZE then Inl (TooLarge len)
     else and_then (map_err Snappy (snappy_decompress L data)) (\<lambda>rlp.
     and_then (map_err Rlp (wire_rlp_decode L rlp)) (\<lambda>(w, buf).
     if buf \<noteq> [] then Inl (Rlp ''trailing bytes'')
     else let h = we_head w in
       Inr \<lparr>env_head = \<lparr>hc_rollup_id = wh_rollup_id h, hc_number = wh_number h, hc_block_hash = wh_block_hash h,
              hc_parent_hash = wh_parent_hash h, epoch_ms = wh_epoch_ms h, counter = wh_counter h\<rparr>,
            env_signature = wire_signature w,
            env_block = (if wire_block w \<noteq> [] then Some (wire_block w) else None)\<rparr>)))"

section \<open>The gossip validator\<close>

datatype verdict = VerdictAccept verified_head | VerdictIgnore | RejectWire wire_error | RejectVerify verify_error | RejectEquivocation b256

record gossip_validator =
  gv_domain :: head_domain
  gv_authorized :: address
  gv_tracker :: head_tracker

definition validator_new :: "head_domain \<Rightarrow> address \<Rightarrow> gossip_validator" where
  "validator_new d authorized = \<lparr>gv_domain = d, gv_authorized = authorized, gv_tracker = []\<rparr>"

definition validator_check :: "head_lib \<Rightarrow> bytes \<Rightarrow> u64 \<Rightarrow> gossip_validator \<Rightarrow> verdict \<times> gossip_validator" where
  "validator_check L data now_ms v =
     (case wire_decode L data of
        Inl e \<Rightarrow> (RejectWire e, v)
      | Inr env \<Rightarrow>
        (case envelope_verify L (gv_domain v) (gv_authorized v) env of
           Inl e \<Rightarrow> (RejectVerify e, v)
         | Inr verified \<Rightarrow>
           let (obs, tracker) = observe verified now_ms (gv_tracker v); v = v\<lparr>gv_tracker := tracker\<rparr> in
           (case obs of
              NewHead \<Rightarrow> (VerdictAccept verified, v)
            | Equivocation kept \<Rightarrow> (RejectEquivocation kept, v)
            | _ \<Rightarrow> (VerdictIgnore, v))))"

section \<open>What verification establishes\<close>

definition authenticated :: "head_lib \<Rightarrow> head_domain \<Rightarrow> address \<Rightarrow> verified_head \<Rightarrow> bool" where
  "authenticated L d authorized h \<longleftrightarrow> vh_signer h = authorized \<and> hc_rollup_id (vh_claim h) = dom_rollup_id d
     \<and> (\<exists>sig. recover_address_from_prehash L sig (signing_hash L d (vh_claim h)) = Inr authorized)
     \<and> (\<forall>b. vh_block h = Some b \<longrightarrow> sb_hash b = hc_block_hash (vh_claim h) \<and> sb_number b = hc_number (vh_claim h)
         \<and> sb_parent_hash b = hc_parent_hash (vh_claim h) \<and> sb_hash b = hash_slow L (lb_header (sb_block b))
         \<and> validate_body_against_header L (lb_body (sb_block b)) (lb_header (sb_block b)) = Inr ())"

lemma decode_block_Inr:
  "decode_block L rlp = Inr b \<longleftrightarrow> (\<exists>blk. decode_block_rlp L rlp = Inr (blk, []) \<and> b = seal_slow L blk
     \<and> validate_body_against_header L (lb_body blk) (lb_header blk) = Inr ())"
  by (auto simp: decode_block_def and_then_eq_Inr if_Inl_eq_Inr)

lemma block_matches_claim_Some:
  "block_matches_claim c (Some b) = Inr () \<longleftrightarrow>
     sb_hash b = hc_block_hash c \<and> sb_parent_hash b = hc_parent_hash c \<and> sb_number b = hc_number c"
  by (simp add: block_matches_claim_def)

lemma envelope_verify_Inr:
  "envelope_verify L d authorized env = Inr h \<longleftrightarrow> hc_rollup_id (env_head env) = dom_rollup_id d
     \<and> (\<exists>sig. signature_from_bytes L (env_signature env) = Inr sig
          \<and> recover_address_from_prehash L sig (signing_hash L d (env_head env)) = Inr authorized)
     \<and> (\<exists>block. decode_optional_block L (env_block env) = Inr block \<and> block_matches_claim (env_head env) block = Inr ()
          \<and> h = \<lparr>vh_claim = env_head env, vh_signer = authorized, vh_block = block\<rparr>)"
  by (auto simp: envelope_verify_def Let_def and_then_eq_Inr if_Inl_eq_Inr)

lemma verified_authenticated:
  assumes "envelope_verify L d authorized env = Inr h"
  shows "authenticated L d authorized h"
proof -
  obtain block where b: "decode_optional_block L (env_block env) = Inr block" "block_matches_claim (env_head env) block = Inr ()"
    and h: "h = \<lparr>vh_claim = env_head env, vh_signer = authorized, vh_block = block\<rparr>"
    using assms unfolding envelope_verify_Inr by blast
  have "sb_hash x = hc_block_hash (env_head env) \<and> sb_number x = hc_number (env_head env) \<and> sb_parent_hash x = hc_parent_hash (env_head env)
      \<and> sb_hash x = hash_slow L (lb_header (sb_block x))
      \<and> validate_body_against_header L (lb_body (sb_block x)) (lb_header (sb_block x)) = Inr ()" if x: "block = Some x" for x
  proof -
    obtain rlp where "decode_block L rlp = Inr x"
      using b(1) x by (auto simp: decode_optional_block_def and_then_eq_Inr split: option.splits)
    then show ?thesis using b(2) x by (auto simp: decode_block_Inr seal_slow_def block_matches_claim_Some)
  qed
  then show ?thesis using assms unfolding authenticated_def envelope_verify_Inr h by auto
qed

section \<open>The tracker never goes back\<close>

definition floor_of :: "head_tracker \<Rightarrow> verified_head \<Rightarrow> bool" where
  "floor_of t h \<longleftrightarrow> (case map_of t (head_source_of h) of
       Some g \<Rightarrow> counter (vh_claim h) \<le> counter (vh_claim g)
     | None \<Rightarrow> length t = MAX_SOURCES \<and> (\<forall>s \<in> fst ` set t. source_key (head_source_of h) < source_key s))"

definition advancing :: "verified_head list \<Rightarrow> bool" where
  "advancing acc \<longleftrightarrow>
     sorted_wrt (\<lambda>a b. head_source_of a = head_source_of b \<longrightarrow> counter (vh_claim a) < counter (vh_claim b)) acc"

definition tracker_inv :: "verified_head list \<Rightarrow> head_tracker \<Rightarrow> bool" where
  "tracker_inv acc t \<longleftrightarrow> distinct (map fst t) \<and> length t \<le> MAX_SOURCES
     \<and> (\<forall>s g. map_of t s = Some g \<longrightarrow> head_source_of g = s \<and> g \<in> set acc)
     \<and> (\<forall>h \<in> set acc. floor_of t h) \<and> advancing acc"

lemma source_key_inject: "source_key a = source_key b \<longleftrightarrow> a = b"
  by (auto simp: source_key_def)

lemma oldest_source_min:
  assumes "t \<noteq> []"
  shows "oldest_source t \<in> fst ` set t" "s \<in> fst ` set t \<Longrightarrow> source_key (oldest_source t) \<le> source_key s"
proof -
  let ?s = "sort_key source_key (map fst t)"
  obtain x xs where x: "?s = x # xs" using assms by (cases ?s) (auto dest: arg_cong[where f = length])
  have st: "set ?s = fst ` set t" by simp
  have so: "sorted (map source_key ?s)" by simp
  show "oldest_source t \<in> fst ` set t" unfolding oldest_source_def st[symmetric] x by simp
  show "source_key (oldest_source t) \<le> source_key s" if "s \<in> fst ` set t"
    using that so unfolding oldest_source_def st[symmetric] x by auto
qed

lemma update_fresh: "map_of t k = None \<Longrightarrow> AList.update k v t = t @ [(k, v)]"
  by (induction t) (auto split: if_splits)

lemma length_fst: "map fst t = map fst t' \<Longrightarrow> length t = length t' \<and> fst ` set t = fst ` set t'"
  by (metis length_map set_map)

lemma tracker_advance:
  assumes inv: "tracker_inv acc t" and cur: "map_of t (head_source_of h) = Some cur"
    and gt: "counter (vh_claim cur) < counter (vh_claim h)"
  shows "tracker_inv (acc @ [h]) (AList.update (head_source_of h) h t)"
proof -
  let ?s = "head_source_of h" and ?t = "AList.update (head_source_of h) h t"
  have "?s \<in> set (map fst t)" using map_of_SomeD[OF cur] by force
  then have keys: "map fst ?t = map fst t" by (simp only: update_keys if_True)
  note len = length_fst[OF keys]
  have "floor_of ?t x" if "x \<in> set acc" for x
  proof -
    have fl: "floor_of t x" using inv that by (simp add: tracker_inv_def)
    show ?thesis
    proof (cases "head_source_of x = ?s")
      case True
      have "counter (vh_claim x) \<le> counter (vh_claim cur)" using fl cur True by (simp add: floor_of_def)
      then show ?thesis using gt True by (simp add: floor_of_def update_conv)
    next
      case False
      then have "map_of ?t (head_source_of x) = map_of t (head_source_of x)" by (simp add: update_conv)
      then show ?thesis using fl unfolding floor_of_def by (simp only: len)
    qed
  qed
  moreover have "floor_of ?t h" by (simp add: floor_of_def update_conv)
  moreover have "counter (vh_claim x) < counter (vh_claim h)" if "x \<in> set acc" "head_source_of x = ?s" for x
  proof -
    have "floor_of t x" using inv that(1) by (simp add: tracker_inv_def)
    then show ?thesis using cur gt that(2) by (simp add: floor_of_def)
  qed
  then have "advancing (acc @ [h])" using inv by (simp add: tracker_inv_def advancing_def sorted_wrt_append)
  moreover have "distinct (map fst ?t) \<and> length ?t \<le> MAX_SOURCES" using inv len unfolding keys tracker_inv_def by simp
  moreover have "head_source_of g = s \<and> g \<in> set (acc @ [h])" if "map_of ?t s = Some g" for s g
  proof (cases "s = ?s")
    case True
    then show ?thesis using that by (simp add: update_conv)
  next
    case False
    then show ?thesis using that inv unfolding tracker_inv_def by (simp add: update_conv)
  qed
  moreover from calculation have "\<forall>x \<in> set (acc @ [h]). floor_of ?t x" unfolding set_append list.set by blast
  ultimately show ?thesis unfolding tracker_inv_def by blast
qed

lemma tracker_insert:
  assumes inv: "tracker_inv acc t" and fresh: "map_of t (head_source_of h) = None" and room: "length t < MAX_SOURCES"
  shows "tracker_inv (acc @ [h]) (t @ [(head_source_of h, h)])"
proof -
  have known: "\<exists>g. map_of t (head_source_of x) = Some g \<and> counter (vh_claim x) \<le> counter (vh_claim g)" if "x \<in> set acc" for x
    using inv that room unfolding tracker_inv_def floor_of_def by (fastforce split: option.splits)
  then have "head_source_of x \<noteq> head_source_of h" if "x \<in> set acc" for x using that fresh by fastforce
  then have "advancing (acc @ [h])" using inv by (auto simp: tracker_inv_def advancing_def sorted_wrt_append)
  moreover have "floor_of (t @ [(head_source_of h, h)]) x" if "x \<in> set (acc @ [h])" for x
    using that known[of x] fresh by (auto simp: floor_of_def map_add_def split: option.splits)
  moreover have "distinct (map fst (t @ [(head_source_of h, h)]))"
    using inv fresh by (auto simp: tracker_inv_def map_of_eq_None_iff)
  moreover have "head_source_of g = s \<and> g \<in> set (acc @ [h])" if "map_of (t @ [(head_source_of h, h)]) s = Some g" for s g
    using that inv by (auto simp: tracker_inv_def map_add_def split: option.splits if_splits)
  moreover have "length (t @ [(head_source_of h, h)]) \<le> MAX_SOURCES" using room by simp
  ultimately show ?thesis unfolding tracker_inv_def by blast
qed

lemma tracker_evict:
  assumes inv: "tracker_inv acc t" and fresh: "map_of t (head_source_of h) = None" and full: "length t = MAX_SOURCES"
    and old: "oldest_source (t @ [(head_source_of h, h)]) \<noteq> head_source_of h"
  shows "tracker_inv (acc @ [h]) (AList.delete (oldest_source (t @ [(head_source_of h, h)])) (t @ [(head_source_of h, h)]))"
proof -
  let ?s = "head_source_of h" and ?u = "t @ [(head_source_of h, h)]"
  let ?o = "oldest_source ?u" and ?t = "AList.delete (oldest_source ?u) ?u"
  have om: "?o \<in> fst ` set t" using oldest_source_min(1)[of ?u] old by simp
  have ole: "source_key ?o < source_key s" if "s \<in> fst ` set ?u" "s \<noteq> ?o" for s
    using oldest_source_min(2)[of ?u s] that source_key_inject[of ?o s] by (simp add: order_less_le)
  have d: "distinct (map fst ?u)" using inv fresh by (auto simp: tracker_inv_def map_of_eq_None_iff)
  have mo: "map_of ?t s = (if s = ?o then None else if s = ?s then Some h else map_of t s)" for s
    using fresh by (auto simp: delete_conv map_add_def split: option.splits)
  have keys: "fst ` set ?t = fst ` set ?u - {?o}" by (auto simp: AList.delete_eq image_iff)
  have len: "length ?t = MAX_SOURCES"
  proof -
    have "card (fst ` set ?t) = length ?t" using distinct_delete[OF d] by (metis distinct_card length_map set_map)
    moreover have "card (fst ` set ?u) = Suc MAX_SOURCES" using d full by (metis distinct_card length_append_singleton length_map set_map)
    moreover have "?o \<in> fst ` set ?u" using om by auto
    ultimately show ?thesis unfolding keys by (simp add: card_Diff_singleton)
  qed
  have below: "source_key (head_source_of x) < source_key ?o" if "x \<in> set acc" "map_of t (head_source_of x) = None" for x
  proof -
    have "floor_of t x" using inv that(1) by (simp add: tracker_inv_def)
    then have "\<forall>s \<in> fst ` set t. source_key (head_source_of x) < source_key s" using that(2) by (simp add: floor_of_def)
    then show ?thesis using om by blast
  qed
  have new: "head_source_of x \<noteq> ?s" if "x \<in> set acc" for x
  proof
    assume e: "head_source_of x = ?s"
    then have "source_key ?s < source_key ?o" using below[OF that] fresh by simp
    moreover have "source_key ?o < source_key ?s" using ole[of ?s] old by simp
    ultimately show False by simp
  qed
  have "floor_of ?t x" if x: "x \<in> set acc" for x
  proof (cases "map_of ?t (head_source_of x)")
    case None
    have "source_key (head_source_of x) \<le> source_key ?o"
      using below[OF x] None new[OF x] by (cases "head_source_of x = ?o") (auto simp: mo)
    then have "source_key (head_source_of x) < source_key s" if "s \<in> fst ` set ?u" "s \<noteq> ?o" for s
      using ole[OF that] by (rule le_less_trans)
    then have "\<forall>s \<in> fst ` set ?t. source_key (head_source_of x) < source_key s" unfolding keys by blast
    then show ?thesis using None len by (simp add: floor_of_def)
  next
    case (Some g)
    then have "map_of t (head_source_of x) = Some g" using new[OF x] by (simp add: mo split: if_splits)
    then show ?thesis using Some inv x by (auto simp: tracker_inv_def floor_of_def)
  qed
  moreover have "floor_of ?t h" using old mo[of ?s] by (auto simp: floor_of_def)
  moreover have "advancing (acc @ [h])" using inv new by (auto simp: tracker_inv_def advancing_def sorted_wrt_append)
  moreover have "head_source_of g = s \<and> g \<in> set (acc @ [h])" if "map_of ?t s = Some g" for s g
    using that inv by (auto simp: mo tracker_inv_def split: if_splits)
  moreover have "distinct (map fst ?t)" "length ?t \<le> MAX_SOURCES" using len distinct_delete[OF d, of ?o] by simp_all
  moreover from calculation have "\<forall>x \<in> set (acc @ [h]). floor_of ?t x" unfolding set_append list.set by blast
  ultimately show ?thesis unfolding tracker_inv_def by blast
qed

lemma delete_fresh: "map_of t k = None \<Longrightarrow> AList.delete k (t @ [(k, v)]) = t"
  by (force simp: AList.delete_eq map_of_eq_None_iff filter_id_conv)

lemma observe_tracks:
  assumes inv: "tracker_inv acc t"
  shows "tracker_inv (if fst (observe h now t) = NewHead then acc @ [h] else acc) (snd (observe h now t))"
proof (cases "epoch_ms (vh_claim h) > saturating_add_u64 now MAX_FUTURE_MS")
  case True
  then show ?thesis using inv by (simp add: observe_def)
next
  case cur: False
  show ?thesis
  proof (cases "map_of t (head_source_of h)")
    case None
    let ?u = "t @ [(head_source_of h, h)]"
    have u: "AList.update (head_source_of h) h t = ?u" using None by (rule update_fresh)
    show ?thesis
    proof (cases "length t < MAX_SOURCES")
      case True
      then show ?thesis using cur None tracker_insert[OF inv None True] by (simp add: observe_def u)
    next
      case False
      then have full: "length t = MAX_SOURCES" using inv by (simp add: tracker_inv_def)
      show ?thesis
        using cur None inv full tracker_evict[OF inv None full] delete_fresh[OF None] by (simp add: observe_def u Let_def)
    qed
  next
    case (Some g)
    then show ?thesis using cur inv tracker_advance[OF inv Some] by (auto simp: observe_def Let_def)
  qed
qed

lemma set_candidates: "set (candidates t) = snd ` set t"
  by (simp add: candidates_def)

lemma sorted_candidates: "sorted_wrt (\<ge>) (map (\<lambda>h. (claim_version (vh_claim h), vh_signer h)) (candidates t))"
proof -
  have "sorted_wrt (\<le>) (map (\<lambda>h. (claim_version (vh_claim h), vh_signer h))
      (sort_key (\<lambda>h. (claim_version (vh_claim h), vh_signer h)) (rev (map snd t))))" by simp
  then show ?thesis unfolding candidates_def rev_map[symmetric] sorted_wrt_rev .
qed

section \<open>Properties\<close>

fun validate_all :: "head_lib \<Rightarrow> (bytes \<times> u64) list \<Rightarrow> gossip_validator \<Rightarrow> verified_head list \<times> gossip_validator" where
  "validate_all L [] v = ([], v)"
| "validate_all L ((data, now_ms) # msgs) v =
     (let (verdict, v1) = validator_check L data now_ms v; (accepted, v2) = validate_all L msgs v1 in
      (case verdict of VerdictAccept h \<Rightarrow> h # accepted | _ \<Rightarrow> accepted, v2))"

lemma validator_check_cases:
  assumes "validator_check L data now v = (verdict, v')"
  shows "gv_domain v' = gv_domain v \<and> gv_authorized v' = gv_authorized v
    \<and> (case verdict of
         VerdictAccept h \<Rightarrow> authenticated L (gv_domain v) (gv_authorized v) h \<and> observe h now (gv_tracker v) = (NewHead, gv_tracker v')
       | _ \<Rightarrow> gv_tracker v' = gv_tracker v \<or> (\<exists>h. fst (observe h now (gv_tracker v)) \<noteq> NewHead \<and> snd (observe h now (gv_tracker v)) = gv_tracker v'))"
proof (cases "wire_decode L data")
  case (Inl e)
  then show ?thesis using assms by (auto simp: validator_check_def)
next
  case env: (Inr env)
  show ?thesis
  proof (cases "envelope_verify L (gv_domain v) (gv_authorized v) env")
    case (Inl e)
    then show ?thesis using assms env by (auto simp: validator_check_def)
  next
    case (Inr h)
    obtain obs t where o: "observe h now (gv_tracker v) = (obs, t)" by (cases "observe h now (gv_tracker v)")
    then have "\<exists>h. observe h now (gv_tracker v) = (obs, t)" by blast
    then show ?thesis using assms env Inr verified_authenticated[OF Inr] o
      by (cases obs) (auto simp: validator_check_def intro!: exI[of _ h])
  qed
qed

lemma validate_all_tracks:
  assumes "tracker_inv acc (gv_tracker v)" "validate_all L msgs v = (accepted, v')"
  shows "tracker_inv (acc @ accepted) (gv_tracker v') \<and> list_all (authenticated L (gv_domain v) (gv_authorized v)) accepted"
  using assms
proof (induction msgs arbitrary: acc v accepted)
  case (Cons m msgs)
  obtain data now where m: "m = (data, now)" by (cases m)
  obtain verdict v1 where c: "validator_check L data now v = (verdict, v1)" by (cases "validator_check L data now v")
  obtain rest where r: "validate_all L msgs v1 = (rest, v')" and acc: "accepted = (case verdict of VerdictAccept h \<Rightarrow> h # rest | _ \<Rightarrow> rest)"
    using Cons.prems(2) by (auto simp: m c Let_def split: prod.splits)
  note vc = validator_check_cases[OF c]
  show ?case
  proof (cases "\<exists>h. verdict = VerdictAccept h")
    case True
    then obtain h where h: "verdict = VerdictAccept h" by blast
    have "tracker_inv (acc @ [h]) (gv_tracker v1)" using observe_tracks[OF Cons.prems(1), of h now] vc by (simp add: h)
    from Cons.IH[OF this r] show ?thesis using vc by (simp add: acc h)
  next
    case False
    then have "gv_tracker v1 = gv_tracker v \<or> (\<exists>h. fst (observe h now (gv_tracker v)) \<noteq> NewHead \<and> snd (observe h now (gv_tracker v)) = gv_tracker v1)"
      using vc by (auto split: verdict.splits)
    then have "tracker_inv acc (gv_tracker v1)"
      using Cons.prems(1) observe_tracks[OF Cons.prems(1)] by (metis (full_types))
    moreover have "accepted = rest" using False acc by (simp split: verdict.splits)
    ultimately show ?thesis using Cons.IH[OF _ r] vc by simp
  qed
qed simp

definition example_claim :: "byte \<Rightarrow> head_claim" where
  "example_claim n = \<lparr>hc_rollup_id = 1, hc_number = ucast n, hc_block_hash = ucast (ucast n :: u64), hc_parent_hash = 9,
     epoch_ms = 100, counter = ucast n\<rparr>"

definition example_env :: "byte \<Rightarrow> envelope" where
  "example_env n = \<lparr>env_head = example_claim n, env_signature = [7], env_block = Some [n]\<rparr>"

definition example_l2_block :: "byte \<Rightarrow> l2_block" where
  "example_l2_block n = \<lparr>lb_header = \<lparr>lh_number = ucast n, lh_parent_hash = 9, lh_fields = []\<rparr>, lb_body = []\<rparr>"

definition example_lib :: head_lib where
  "example_lib = \<lparr>eip712_signing_hash = (\<lambda>d h. ucast (sh_counter h)), signature_from_bytes = (\<lambda>bs. if bs = [7] then Inr (7, 7, True) else Inl ''length''),
     signature_bytes = (\<lambda>_. [7]), recover_address_from_prehash = (\<lambda>s h. if s = (7, 7, True) then Inr 5 else Inl ''invalid''),
     sign_hash_sync = (\<lambda>k h. Inr (7, 7, True)), key_address = (\<lambda>_. 5),
     decode_block_rlp = (\<lambda>bs. if bs = [] then Inl ''empty'' else Inr (example_l2_block (hd bs), tl bs)),
     validate_body_against_header = (\<lambda>b h. if b = [] then Inr () else Inl ''body''), hash_slow = (\<lambda>h. ucast (lh_number h)),
     wire_rlp_encode = (\<lambda>w. [ucast (wh_counter (we_head w))]),
     wire_rlp_decode = (\<lambda>bs. if bs = [] then Inl ''empty'' else Inr (wire_of (example_env (hd bs)), tl bs)),
     snappy_compress = (\<lambda>bs. Inr bs), snappy_decompress_len = (\<lambda>bs. Inr (length bs)), snappy_decompress = (\<lambda>bs. Inr bs)\<rparr>"

definition example_domain :: head_domain where
  "example_domain = \<lparr>l2_chain_id = 1337, registry = 0xaa, dom_rollup_id = 1\<rparr>"

definition example_verified :: "byte \<Rightarrow> verified_head" where
  "example_verified n = \<lparr>vh_claim = example_claim n, vh_signer = 5, vh_block = Some \<lparr>sb_block = example_l2_block n, sb_hash = ucast (ucast n :: u64)\<rparr>\<rparr>"

lemmas heads_example = example_lib_def example_env_def example_claim_def example_domain_def example_verified_def example_l2_block_def

lemma example_check:
  "wire_decode example_lib [n] = Inr (example_env n)"
  "envelope_verify example_lib example_domain 5 (example_env n) = Inr (example_verified n)"
  by (simp_all add: wire_decode_def wire_of_def MAX_MESSAGE_SIZE_def envelope_verify_Inr decode_optional_block_def
    decode_block_def seal_slow_def block_matches_claim_def heads_example)

text \<open>
  C36. Gossip cannot roll a follower back. Over any sequence of received messages, the heads a validator accepts carry
  the authorised sequencer's signature over their own claim for this rollup, an attached block is the claimed block with a body that
  matches its header, and for each signing process the accepted counters strictly increase, so that no head is forwarded twice
  and no second block is accepted for a counter; this holds across evictions from the bounded tracker.
\<close>
theorem accepted_heads_advance:
  assumes "validate_all L msgs (validator_new d authorized) = (accepted, v)"
  shows "list_all (authenticated L d authorized) accepted
    \<and> sorted_wrt (\<lambda>a b. vh_signer a = vh_signer b \<and> epoch_ms (vh_claim a) = epoch_ms (vh_claim b) \<longrightarrow>
        counter (vh_claim a) < counter (vh_claim b)) accepted
    \<and> length (gv_tracker v) \<le> MAX_SOURCES \<and> snd ` set (gv_tracker v) \<subseteq> set accepted"
proof -
  have "tracker_inv [] (gv_tracker (validator_new d authorized))"
    by (simp add: tracker_inv_def validator_new_def advancing_def MAX_SOURCES_def)
  from validate_all_tracks[OF this assms]
  have inv: "tracker_inv accepted (gv_tracker v)" and auth: "list_all (authenticated L d authorized) accepted"
    by (simp_all add: validator_new_def)
  have "g \<in> set accepted" if "(s, g) \<in> set (gv_tracker v)" for s g
    using inv that map_of_is_SomeI[of "gv_tracker v" s g] unfolding tracker_inv_def by blast
  then have "snd ` set (gv_tracker v) \<subseteq> set accepted" by auto
  then show ?thesis using inv auth unfolding tracker_inv_def advancing_def head_source_of_def by simp
qed

theorem accepted_heads_advance_witness:
  "\<exists>v. validate_all example_lib [([1], 50), ([3], 60), ([3], 70), ([2], 80), ([], 90)] (validator_new example_domain 5)
      = ([example_verified 1, example_verified 3], v)
    \<and> list_all (authenticated example_lib example_domain 5) [example_verified 1, example_verified 3]"
proof -
  have c: "validator_check example_lib [n] now v
      = (let (obs, t) = observe (example_verified n) now (gv_tracker v) in
         (case obs of NewHead \<Rightarrow> VerdictAccept (example_verified n) | Equivocation kept \<Rightarrow> RejectEquivocation kept | _ \<Rightarrow> VerdictIgnore,
          v\<lparr>gv_tracker := t\<rparr>))" if "gv_domain v = example_domain" "gv_authorized v = 5" for n now v
    using that example_check[of n] by (auto simp: validator_check_def split: prod.splits head_observation.splits)
  have v: "vh_signer (example_verified n) = 5" "epoch_ms (vh_claim (example_verified n)) = 100"
    "counter (vh_claim (example_verified n)) = ucast n" "hc_block_hash (vh_claim (example_verified n)) = ucast (ucast n :: u64)" for n
    by (simp_all add: heads_example)
  have e: "validator_check example_lib [] now v = (RejectWire (Rlp ''empty''), v)" for now v
    by (simp add: validator_check_def wire_decode_def example_lib_def MAX_MESSAGE_SIZE_def)
  have "\<exists>v. validate_all example_lib [([1], 50), ([3], 60), ([3], 70), ([2], 80), ([], 90)] (validator_new example_domain 5)
      = ([example_verified 1, example_verified 3], v)"
    by (simp add: c e v validator_new_def observe_def saturating_add_u64_def MAX_FUTURE_MS_def MAX_SOURCES_def
      head_source_of_def Let_def)
  then show ?thesis using accepted_heads_advance by blast
qed

text \<open>
  C37. What the sequencer signs is what a validator gets. An envelope signed for a sealed block survives the wire
  format and verifies, at a validator that authorises the signer's address, to the claim with the block attached, provided the
  libraries invert each other on these values: the signature recovers to the key's address, the block's RLP decodes to it,
  and the Snappy and RLP decoders undo the encoders.
\<close>
theorem signed_head_round_trip:
  assumes "head_sign L (lb_header blk) (hash_slow L (lb_header blk)) rlp s = (Inr env, s')"
    and "wire_encode L env = Inr data"
    and sign: "\<And>h sig. sign_hash_sync L (sgn_key s) h = Inr sig \<Longrightarrow>
        signature_from_bytes L (signature_bytes L sig) = Inr sig \<and> recover_address_from_prehash L sig h = Inr (key_address L (sgn_key s))"
    and block: "rlp \<noteq> []" "decode_block_rlp L rlp = Inr (blk, [])" "validate_body_against_header L (lb_body blk) (lb_header blk) = Inr ()"
    and snappy: "\<And>raw c. snappy_compress L raw = Inr c \<Longrightarrow> snappy_decompress L c = Inr raw \<and> snappy_decompress_len L c = Inr (length raw)"
    and wire: "wire_rlp_decode L (wire_rlp_encode L (wire_of env)) = Inr (wire_of env, [])"
  shows "wire_decode L data = Inr env \<and> sgn_counter s' = sgn_counter s + 1 \<and> counter (env_head env) = sgn_counter s'
    \<and> envelope_verify L (sgn_domain s) (key_address L (sgn_key s)) env
        = Inr \<lparr>vh_claim = env_head env, vh_signer = key_address L (sgn_key s), vh_block = Some (seal_slow L blk)\<rparr>"
proof -
  let ?raw = "wire_rlp_encode L (wire_of env)"
  have c: "snappy_compress L ?raw = Inr data" "length ?raw \<le> MAX_MESSAGE_SIZE"
    using assms(2) by (auto simp: wire_encode_def Let_def and_then_eq_Inr if_Inl_eq_Inr not_less)
  let ?head = "\<lparr>hc_rollup_id = dom_rollup_id (sgn_domain s), hc_number = lh_number (lb_header blk),
      hc_block_hash = hash_slow L (lb_header blk), hc_parent_hash = lh_parent_hash (lb_header blk),
      epoch_ms = sgn_epoch_ms s, counter = sgn_counter s + 1\<rparr>"
  obtain sig where sig: "sign_hash_sync L (sgn_key s) (signing_hash L (sgn_domain s) ?head) = Inr sig"
    and env: "env = \<lparr>env_head = ?head, env_signature = signature_bytes L sig, env_block = Some rlp\<rparr>"
    and s': "s' = s\<lparr>sgn_counter := sgn_counter s + 1\<rparr>"
    using assms(1) by (auto simp: head_sign_def Let_def and_then_eq_Inr)
  have "wire_decode L data = Inr env"
    using snappy[OF c(1)] c(2) wire block(1) by (simp add: wire_decode_def not_less env wire_of_def Let_def)
  moreover have "decode_optional_block L (Some rlp) = Inr (Some (seal_slow L blk))"
    using block by (simp add: decode_optional_block_def decode_block_def)
  ultimately show ?thesis using sign[OF sig]
    by (simp add: envelope_verify_def env s' block_matches_claim_def seal_slow_def)
qed

theorem signed_head_round_trip_witness:
  "wire_decode example_lib [1] = Inr (example_env 1)"
  using signed_head_round_trip[of example_lib "example_l2_block 1" "[1]" "head_signer_new 3 example_domain 100" "example_env 1"
      "(head_signer_new 3 example_domain 100)\<lparr>sgn_counter := 1\<rparr>" "[1]"]
  by (simp add: head_sign_def head_signer_new_def wire_encode_def wire_of_def MAX_MESSAGE_SIZE_def heads_example)

end
