(* ===== verification/Head_Follower.thy ===== *)
theory Head_Follower
  imports Signed_Heads
begin

text \<open>
  The unsafe-head follower (\<^verbatim>\<open>crates/eez-follower/src/unsafe_head.rs\<close>): which signed head a node adopts, the blocks it
  fetches for it and the engine calls it makes. The node's database is a view, one taken before the fetch
  and one under the reconcile lock; the engine's answers and the block source are functions.
\<close>

section \<open>Errors, views and sources\<close>

definition MAX_ANCESTRY_WALK :: u64 where
  "MAX_ANCESTRY_WALK = 1024"

definition MAX_LOGGED_REJECTIONS :: nat where
  "MAX_LOGGED_REJECTIONS = 256"

definition FETCH_BATCH :: u64 where
  "FETCH_BATCH = 64"

datatype follower_error =
    PeerError string
  | NotServed b256
  | Provider string
  | Driver string
  | Unverifiable u64
  | Ahead u64 u64
  | BadAncestor b256 b256

datatype safe_compat = Extends | Conflicts | CompatUnverifiable

type_synonym num_hash = "u64 \<times> b256"

text \<open>
  What a node reads: its safe block, the hash of the canonical block at a height, headers by hash, the height of
  its best block, the last L2 block the L1 batch index has reached and the hash of the committer's head.
\<close>

record local_view =
  lv_safe :: "string + num_hash option"
  lv_canonical :: "u64 \<Rightarrow> string + b256 option"
  lv_header :: "b256 \<Rightarrow> string + l2_header option"
  lv_best :: "string + u64"
  lv_indexed :: u64
  lv_head :: b256

type_synonym blocks_back = "b256 \<Rightarrow> u64 \<Rightarrow> follower_error + sealed_block list"

section \<open>Blocks from peers\<close>

datatype 'a answer = Answered 'a | RequestFailed string | TimedOut

fun peer_request :: "'a answer \<Rightarrow> follower_error + 'a" where
  "peer_request (Answered response) = Inr response"
| "peer_request (RequestFailed e) = Inl (PeerError e)"
| "peer_request TimedOut = Inl (PeerError ''no answer'')"

record peer_client =
  num_connected_peers :: nat
  get_headers :: "b256 \<Rightarrow> u64 \<Rightarrow> l2_header list answer"
  get_block_bodies :: "b256 list \<Rightarrow> bytes list answer"

definition seal_header :: "head_lib \<Rightarrow> l2_header \<Rightarrow> l2_header \<times> b256" where
  "seal_header L h = (h, hash_slow L h)"

fun linked_run :: "head_lib \<Rightarrow> b256 \<Rightarrow> l2_header list \<Rightarrow> (l2_header \<times> b256) list" where
  "linked_run L expected [] = []"
| "linked_run L expected (h # hs) =
     (if snd (seal_header L h) \<noteq> expected then []
      else seal_header L h # linked_run L (lh_parent_hash h) hs)"

fun pair_bodies :: "head_lib \<Rightarrow> (l2_header \<times> b256) list \<Rightarrow> bytes list \<Rightarrow> follower_error + sealed_block list" where
  "pair_bodies L ((h, hash) # pending) (body # bodies) =
     and_then (map_err PeerError (validate_body_against_header L body h)) (\<lambda>_.
     and_then (pair_bodies L pending bodies) (\<lambda>bs.
     Inr (\<lparr>sb_block = \<lparr>lb_header = h, lb_body = body\<rparr>, sb_hash = hash\<rparr> # bs)))"
| "pair_bodies L pending bodies = Inr []"

function fetch_bodies :: "head_lib \<Rightarrow> peer_client \<Rightarrow> (l2_header \<times> b256) list \<Rightarrow> follower_error + sealed_block list" where
  "fetch_bodies L client pending =
     (if pending = [] then Inr []
      else and_then (peer_request (get_block_bodies client (map snd (take (unat FETCH_BATCH) pending)))) (\<lambda>bodies.
        if bodies = [] then Inr []
        else and_then (pair_bodies L pending bodies) (\<lambda>bs.
          and_then (fetch_bodies L client (drop (length bodies) pending)) (\<lambda>rest. Inr (bs @ rest)))))"
  by pat_completeness auto
termination
  by (relation "measure (\<lambda>(L, client, pending). length pending)") auto

definition peer_blocks_back :: "head_lib \<Rightarrow> peer_client \<Rightarrow> blocks_back" where
  "peer_blocks_back L client from count =
     (if num_connected_peers client = 0 then Inl (PeerError ''no connected devp2p peers'')
      else and_then (peer_request (get_headers client from count)) (\<lambda>headers.
        fetch_bodies L client (linked_run L from (take (unat count) headers))))"

section \<open>Missing blocks\<close>

record missing =
  fork_point :: l2_header
  fork_hash :: b256
  missing_blocks :: "sealed_block list"

definition saturating_sub_u64 :: "u64 \<Rightarrow> u64 \<Rightarrow> u64" where
  "saturating_sub_u64 a b = (if b \<le> a then a - b else 0)"

definition clamp :: "u64 \<Rightarrow> u64 \<Rightarrow> u64 \<Rightarrow> u64" where
  "clamp x lo hi = (if x < lo then lo else if x > hi then hi else x)"

definition next_block :: "blocks_back \<Rightarrow> u64 \<Rightarrow> u64 \<Rightarrow> b256 \<Rightarrow> sealed_block list \<Rightarrow> follower_error + sealed_block \<times> sealed_block list" where
  "next_block source best number hash batch =
     (case batch of
        block # rest \<Rightarrow> Inr (block, rest)
      | [] \<Rightarrow>
        let count = clamp (saturating_sub_u64 number best) 1 FETCH_BATCH in
        and_then (source hash count) (\<lambda>bs.
        case bs of [] \<Rightarrow> Inl (NotServed hash) | block # rest \<Rightarrow> Inr (block, rest)))"

text \<open>The loop's state is the blocks walked so far, newest last in the walk, the rest of the batch and the next block to find.\<close>

function fetch_walk ::
    "local_view \<Rightarrow> blocks_back \<Rightarrow> u64 \<Rightarrow> sealed_block list \<Rightarrow> sealed_block list \<Rightarrow> u64 \<Rightarrow> b256 \<Rightarrow> follower_error + missing" where
  "fetch_walk v source best blocks batch number hash =
     and_then (map_err Provider (lv_header v hash)) (\<lambda>known.
     case known of
       Some header \<Rightarrow> Inr \<lparr>fork_point = header, fork_hash = hash, missing_blocks = rev blocks\<rparr>
     | None \<Rightarrow>
       if length blocks \<ge> unat MAX_ANCESTRY_WALK then Inl (Unverifiable (of_nat (length blocks)))
       else and_then (next_block source best number hash batch) (\<lambda>(block, rest).
         if sb_hash block \<noteq> hash then Inl (BadAncestor hash (sb_hash block))
         else fetch_walk v source best (blocks @ [block]) rest (saturating_sub_u64 (sb_number block) 1) (sb_parent_hash block)))"
  by pat_completeness auto
termination
  by (relation "measure (\<lambda>(v, source, best, blocks, batch, number, hash). unat MAX_ANCESTRY_WALK - length blocks)") auto

definition fetch_missing :: "local_view \<Rightarrow> blocks_back \<Rightarrow> num_hash \<Rightarrow> sealed_block option \<Rightarrow> follower_error + missing" where
  "fetch_missing v source target target_block =
     and_then (map_err Provider (lv_best v)) (\<lambda>best.
     if fst target > saturating_add_u64 best MAX_ANCESTRY_WALK then Inl (Ahead (fst target) best)
     else fetch_walk v source best [] (case target_block of None \<Rightarrow> [] | Some b \<Rightarrow> [b]) (fst target) (snd target))"

section \<open>Descent from the safe block\<close>

function walk_to_safe :: "local_view \<Rightarrow> num_hash \<Rightarrow> u64 \<Rightarrow> b256 \<Rightarrow> nat \<Rightarrow> follower_error + safe_compat" where
  "walk_to_safe v safe cursor_number cursor_hash reads =
     (if cursor_number > fst safe
      then if reads \<ge> unat MAX_ANCESTRY_WALK then Inr CompatUnverifiable
        else and_then (map_err Provider (lv_header v cursor_hash)) (\<lambda>parent.
          case parent of
            None \<Rightarrow> Inr CompatUnverifiable
          | Some parent \<Rightarrow> walk_to_safe v safe (cursor_number - 1) (lh_parent_hash parent) (Suc reads))
      else Inr (if cursor_hash = snd safe then Extends else Conflicts))"
  by pat_completeness auto
termination
  by (relation "measure (\<lambda>(v, safe, n, h, reads). unat MAX_ANCESTRY_WALK - reads)") auto

definition check_extends_safe :: "local_view \<Rightarrow> num_hash \<Rightarrow> b256 \<Rightarrow> follower_error + safe_compat" where
  "check_extends_safe v candidate parent_hash =
     and_then (map_err Provider (lv_safe v)) (\<lambda>safe.
     case safe of
       None \<Rightarrow> Inr Extends
     | Some safe \<Rightarrow>
       if fst candidate = fst safe then Inr (if snd candidate = snd safe then Extends else Conflicts)
       else if fst candidate < fst safe then Inr Conflicts
       else and_then (map_err Provider (lv_canonical v (fst candidate))) (\<lambda>canonical.
         if canonical = Some (snd candidate) then Inr Extends
         else walk_to_safe v safe (fst candidate - 1) parent_hash 0))"

section \<open>Following\<close>

datatype rejection_reason =
    ReasonConflict
  | ReasonAhead
  | ReasonFailed follower_error
  | ReasonForkPoint u64 b256 safe_compat

type_synonym rejections = "(b256 \<times> rejection_reason) list"

definition rejection_first :: "b256 \<Rightarrow> rejection_reason \<Rightarrow> rejections \<Rightarrow> bool \<times> rejections" where
  "rejection_first hash reason rs =
     (let rs = (if length rs \<ge> MAX_LOGGED_REJECTIONS then [] else rs) in
      ((hash, reason) \<notin> set rs, List.insert (hash, reason) rs))"

definition rejection_warn :: "b256 \<Rightarrow> rejection_reason \<Rightarrow> rejections \<Rightarrow> rejections" where
  "rejection_warn hash reason rs = snd (rejection_first hash reason rs)"

datatype engine_call = ReorgTo l2_header b256 | CommitDerived sealed_block

definition held :: "local_view \<Rightarrow> follower_error + bool" where
  "held v = and_then (map_err Provider (lv_safe v)) (\<lambda>safe.
     Inr (lv_indexed v > (case safe of None \<Rightarrow> 0 | Some s \<Rightarrow> fst s)))"

text \<open>The engine calls made, up to and including the first that fails.\<close>

fun commit_all :: "(engine_call \<Rightarrow> string + unit) \<Rightarrow> engine_call list \<Rightarrow> (follower_error + unit) \<times> engine_call list" where
  "commit_all commit [] = (Inr (), [])"
| "commit_all commit (c # cs) =
     (case commit c of
        Inl e \<Rightarrow> (Inl (Driver e), [c])
      | Inr _ \<Rightarrow> let (r, made) = commit_all commit cs in (r, c # made))"

definition import_missing :: "(engine_call \<Rightarrow> string + unit) \<Rightarrow> local_view \<Rightarrow> missing \<Rightarrow> (follower_error + bool) \<times> engine_call list" where
  "import_missing commit v m =
     (if missing_blocks m = [] \<and> fork_hash m = lv_head v then (Inr False, [])
      else let (r, made) = commit_all commit
            (if missing_blocks m = [] then [ReorgTo (fork_point m) (fork_hash m)] else map CommitDerived (missing_blocks m)) in
        (and_then r (\<lambda>_. Inr True), made))"

record follow_env =
  fe_before :: "verified_head \<Rightarrow> local_view"
  fe_locked :: "verified_head \<Rightarrow> local_view"
  fe_source :: blocks_back
  fe_commit :: "engine_call \<Rightarrow> string + unit"

fun follow_candidates ::
    "follow_env \<Rightarrow> verified_head list \<Rightarrow> rejections \<Rightarrow> (follower_error + unit) \<times> rejections \<times> engine_call list" where
  "follow_candidates E [] rs = (Inr (), rs, [])"
| "follow_candidates E (head # heads) rs =
     (let claim = vh_claim head; hash = hc_block_hash claim; at = (hc_number claim, hash); before = fe_before E head in
      (case check_extends_safe before at (hc_parent_hash claim) of
        Inl e \<Rightarrow> (Inl e, rs, [])
      | Inr first_verdict \<Rightarrow>
        if first_verdict = Conflicts then follow_candidates E heads (rejection_warn hash ReasonConflict rs)
        else (case held before of
          Inl e \<Rightarrow> (Inl e, rs, [])
        | Inr True \<Rightarrow> (Inr (), rs, [])
        | Inr False \<Rightarrow>
          (case fetch_missing before (fe_source E) at (vh_block head) of
             Inl (Ahead t l) \<Rightarrow> (Inr (), snd (rejection_first hash ReasonAhead rs), [])
           | Inl err \<Rightarrow> (Inr (), rejection_warn hash (ReasonFailed err) rs, [])
           | Inr missing \<Rightarrow>
             let locked = fe_locked E head in
             (case held locked of
                Inl e \<Rightarrow> (Inl e, rs, [])
              | Inr True \<Rightarrow> (Inr (), rs, [])
              | Inr False \<Rightarrow>
                let fork = fork_point missing in
                (case check_extends_safe locked (lh_number fork, fork_hash missing) (lh_parent_hash fork) of
                   Inl e \<Rightarrow> (Inl e, rs, [])
                 | Inr verdict \<Rightarrow>
                   if verdict \<noteq> Extends
                   then let rs = rejection_warn hash (ReasonForkPoint (lh_number fork) (fork_hash missing) verdict) rs in
                     if verdict = Conflicts then follow_candidates E heads rs else (Inr (), rs, [])
                   else let (r, calls) = import_missing (fe_commit E) locked missing in
                     (and_then r (\<lambda>_. Inr ()), rs, calls)))))))"

definition follow_best :: "follow_env \<Rightarrow> head_tracker \<Rightarrow> rejections \<Rightarrow> (follower_error + unit) \<times> rejections \<times> engine_call list" where
  "follow_best E tracker rs = follow_candidates E (candidates tracker) rs"

section \<open>What the safe check establishes\<close>

fun ancestor :: "local_view \<Rightarrow> b256 \<Rightarrow> nat \<Rightarrow> b256 option" where
  "ancestor v h 0 = Some h"
| "ancestor v h (Suc k) = (case lv_header v h of Inr (Some hdr) \<Rightarrow> ancestor v (lh_parent_hash hdr) k | _ \<Rightarrow> None)"

declare walk_to_safe.simps [simp del] fetch_walk.simps [simp del] fetch_bodies.simps [simp del]

lemma word_pred:
  assumes "s < (n :: u64)"
  shows "unat (n - 1) = unat n - 1" "s \<le> n - 1" "unat n - unat s = Suc (unat (n - 1) - unat s)"
proof -
  have "n \<noteq> 0" using assms by auto
  then show u: "unat (n - 1) = unat n - 1" by (rule unat_minus_one)
  show "s \<le> n - 1" "unat n - unat s = Suc (unat (n - 1) - unat s)"
    using assms unfolding word_le_nat_alt word_less_nat_alt u by linarith+
qed

lemma walk_to_safe_Inr:
  assumes "walk_to_safe v safe n h reads = Inr r" "fst safe \<le> n"
  shows "(r = Extends \<longrightarrow> ancestor v h (unat n - unat (fst safe)) = Some (snd safe))
    \<and> (r = Conflicts \<longrightarrow> (\<exists>h'. ancestor v h (unat n - unat (fst safe)) = Some h' \<and> h' \<noteq> snd safe))"
  using assms
proof (induction v safe n h reads arbitrary: r rule: walk_to_safe.induct)
  case (1 v safe n h reads)
  show ?case
  proof (cases "fst safe < n")
    case False
    then have "n = fst safe" using "1.prems"(2) by simp
    then show ?thesis using "1.prems"(1) walk_to_safe.simps[of v safe n h reads] by (auto split: if_splits)
  next
    case gt: True
    note n1 = word_pred[OF gt]
    show ?thesis
    proof (cases "lv_header v h")
      case (Inl e)
      then show ?thesis using "1.prems"(1) gt walk_to_safe.simps[of v safe n h reads] by (auto split: if_splits)
    next
      case (Inr known)
      show ?thesis
      proof (cases known)
        case None
        then show ?thesis using "1.prems"(1) gt Inr walk_to_safe.simps[of v safe n h reads] by (auto split: if_splits)
      next
        case (Some hdr)
        show ?thesis
        proof (cases "unat MAX_ANCESTRY_WALK \<le> reads")
          case True
          then show ?thesis using "1.prems"(1) gt walk_to_safe.simps[of v safe n h reads] by simp
        next
          case False
          have "walk_to_safe v safe (n - 1) (lh_parent_hash hdr) (Suc reads) = Inr r"
            using "1.prems"(1) gt False Inr Some walk_to_safe.simps[of v safe n h reads] by simp
          from "1.IH"[OF gt False _ Some this n1(2)] show ?thesis unfolding n1(3) using Inr Some by simp
        qed
      qed
    qed
  qed
qed

definition descends_from_safe :: "local_view \<Rightarrow> u64 \<Rightarrow> b256 \<Rightarrow> bool" where
  "descends_from_safe v n h \<longleftrightarrow> (case lv_safe v of
       Inr (Some (s, sh)) \<Rightarrow> s \<le> n \<and> ancestor v h (unat n - unat s) = Some sh
     | Inr None \<Rightarrow> True
     | Inl _ \<Rightarrow> False)"

text \<open>The node's forkchoice invariant: what is canonical above the safe block descends from it.\<close>

definition canonical_extends :: "local_view \<Rightarrow> bool" where
  "canonical_extends v \<longleftrightarrow> (\<forall>s sh n h. lv_safe v = Inr (Some (s, sh)) \<longrightarrow> lv_canonical v n = Inr (Some h) \<longrightarrow> s < n \<longrightarrow>
     ancestor v h (unat n - unat s) = Some sh)"

lemma check_extends_sound:
  assumes "check_extends_safe v (n, h) (lh_parent_hash hdr) = Inr Extends" "lv_header v h = Inr (Some hdr)" "canonical_extends v"
  shows "descends_from_safe v n h"
proof (cases "lv_safe v")
  case (Inl e)
  then show ?thesis using assms(1) by (simp add: check_extends_safe_def)
next
  case (Inr safe)
  show ?thesis
  proof (cases safe)
    case None
    then show ?thesis by (simp add: descends_from_safe_def Inr)
  next
    case (Some sf)
    obtain s sh where sf: "sf = (s, sh)" by (cases sf)
    consider (at) "n = s" | (below) "n < s" | (above) "s < n" by (rule linorder_cases)
    then show ?thesis
    proof cases
      case at
      then show ?thesis using assms(1) by (auto simp: check_extends_safe_def Inr Some sf descends_from_safe_def split: if_splits)
    next
      case below
      then show ?thesis using assms(1) by (auto simp: check_extends_safe_def Inr Some sf split: if_splits)
    next
      case above
      note k = word_pred[OF above]
      have ns: "n \<noteq> s" "\<not> n < s" using above by auto
      obtain canonical where c: "lv_canonical v n = Inr canonical"
        using assms(1) ns by (cases "lv_canonical v n") (auto simp: check_extends_safe_def Inr Some sf)
      show ?thesis
      proof (cases "canonical = Some h")
        case True
        then show ?thesis using assms(3) c above by (auto simp: descends_from_safe_def canonical_extends_def Inr Some sf)
      next
        case False
        then have "walk_to_safe v (s, sh) (n - 1) (lh_parent_hash hdr) 0 = Inr Extends"
          using assms(1) ns c by (auto simp: check_extends_safe_def Inr Some sf)
        from walk_to_safe_Inr[OF this] k(2) have "ancestor v (lh_parent_hash hdr) (unat (n - 1) - unat s) = Some sh" by simp
        then show ?thesis using assms(2) above by (simp add: descends_from_safe_def Inr Some sf k(3))
      qed
    qed
  qed
qed

section \<open>What a fetch returns\<close>

fun chain_from :: "b256 \<Rightarrow> sealed_block list \<Rightarrow> bool" where
  "chain_from h [] \<longleftrightarrow> True"
| "chain_from h (b # bs) \<longleftrightarrow> sb_hash b = h \<and> chain_from (sb_parent_hash b) bs"

fun links_back :: "b256 \<Rightarrow> sealed_block list \<Rightarrow> b256 \<Rightarrow> bool" where
  "links_back h [] f \<longleftrightarrow> h = f"
| "links_back h (b # bs) f \<longleftrightarrow> sb_hash b = h \<and> links_back (sb_parent_hash b) bs f"

lemma next_block_Inr:
  "next_block source best number hash batch = Inr (block, rest) \<longleftrightarrow> batch = block # rest
     \<or> batch = [] \<and> source hash (clamp (saturating_sub_u64 number best) 1 FETCH_BATCH) = Inr (block # rest)"
  by (auto simp: next_block_def Let_def and_then_eq_Inr neq_Nil_conv split: list.splits)

lemma fetch_walk_Inr:
  assumes "fetch_walk v source best blocks batch number hash = Inr m" "length blocks \<le> unat MAX_ANCESTRY_WALK"
  shows "\<exists>bs. missing_blocks m = rev (blocks @ bs) \<and> links_back hash bs (fork_hash m) \<and> length (blocks @ bs) \<le> unat MAX_ANCESTRY_WALK
    \<and> lv_header v (fork_hash m) = Inr (Some (fork_point m)) \<and> (\<forall>b \<in> set bs. lv_header v (sb_hash b) = Inr None)"
  using assms
proof (induction v source best blocks batch number hash arbitrary: m rule: fetch_walk.induct)
  case (1 v source best blocks batch number hash)
  obtain known where k: "lv_header v hash = Inr known" using "1.prems"(1) fetch_walk.simps[of v source best blocks batch number hash]
    by (auto simp: and_then_eq_Inr)
  show ?case
  proof (cases known)
    case (Some header)
    then have "m = \<lparr>fork_point = header, fork_hash = hash, missing_blocks = rev blocks\<rparr>"
      using "1.prems"(1) k fetch_walk.simps[of v source best blocks batch number hash] by simp
    then show ?thesis using k Some "1.prems"(2) by (intro exI[of _ "[]"]) simp
  next
    case None
    have lt: "\<not> unat MAX_ANCESTRY_WALK \<le> length blocks"
      using "1.prems"(1) k None fetch_walk.simps[of v source best blocks batch number hash] by (auto split: if_splits)
    obtain block rest where nb: "next_block source best number hash batch = Inr (block, rest)"
      and ok: "sb_hash block = hash"
      and rec: "fetch_walk v source best (blocks @ [block]) rest (saturating_sub_u64 (sb_number block) 1) (sb_parent_hash block) = Inr m"
      using "1.prems"(1) k None lt fetch_walk.simps[of v source best blocks batch number hash]
      by (auto simp: and_then_eq_Inr split: if_splits)
    have kk: "map_err Provider (lv_header v hash) = Inr known" using k by simp
    obtain bs where bs: "missing_blocks m = rev ((blocks @ [block]) @ bs)" "links_back (sb_parent_hash block) bs (fork_hash m)"
      "length ((blocks @ [block]) @ bs) \<le> unat MAX_ANCESTRY_WALK" "lv_header v (fork_hash m) = Inr (Some (fork_point m))"
      "\<forall>b \<in> set bs. lv_header v (sb_hash b) = Inr None"
      using "1.IH"[OF kk None lt nb refl _ rec] ok lt by auto
    then show ?thesis using ok k None by (intro exI[of _ "block # bs"]) simp
  qed
qed

lemma fetch_missing_Inr:
  assumes "fetch_missing v source (n, hash) block = Inr m"
  shows "links_back hash (rev (missing_blocks m)) (fork_hash m) \<and> length (missing_blocks m) \<le> unat MAX_ANCESTRY_WALK
    \<and> lv_header v (fork_hash m) = Inr (Some (fork_point m)) \<and> (\<forall>b \<in> set (missing_blocks m). lv_header v (sb_hash b) = Inr None)"
proof -
  obtain best where "fetch_walk v source best [] (case block of None \<Rightarrow> [] | Some b \<Rightarrow> [b]) n hash = Inr m"
    using assms by (auto simp: fetch_missing_def and_then_eq_Inr if_Inl_eq_Inr)
  from fetch_walk_Inr[OF this] show ?thesis by auto
qed

section \<open>Sources that serve linked blocks\<close>

locale linked_source =
  fixes source :: blocks_back
  assumes served: "source from count = Inr bs \<Longrightarrow> chain_from from bs"
begin

lemma next_chain:
  assumes "next_block source best number hash batch = Inr (block, rest)" "chain_from hash batch"
  shows "sb_hash block = hash \<and> chain_from (sb_parent_hash block) rest"
  using assms served by (fastforce simp: next_block_Inr)

lemma never_bad_ancestor:
  assumes "chain_from hash batch" "\<And>from count r g. source from count \<noteq> Inl (BadAncestor r g)"
  shows "fetch_walk v source best blocks batch number hash \<noteq> Inl (BadAncestor r g)"
  using assms
proof (induction "unat MAX_ANCESTRY_WALK - length blocks" arbitrary: blocks batch number hash rule: less_induct)
  case less
  show ?case
  proof
    assume bad: "fetch_walk v source best blocks batch number hash = Inl (BadAncestor r g)"
    then have none: "lv_header v hash = Inr None" and lt: "length blocks < unat MAX_ANCESTRY_WALK"
      using fetch_walk.simps[of v source best blocks batch number hash] by (auto simp: and_then_eq_Inl map_err_def split: option.splits if_splits sum.splits)
    then have e: "and_then (next_block source best number hash batch) (\<lambda>(block, rest).
         if sb_hash block \<noteq> hash then Inl (BadAncestor hash (sb_hash block))
         else fetch_walk v source best (blocks @ [block]) rest (saturating_sub_u64 (sb_number block) 1) (sb_parent_hash block))
       = Inl (BadAncestor r g)"
      using bad fetch_walk.simps[of v source best blocks batch number hash] by simp
    show False
    proof (cases "next_block source best number hash batch")
      case (Inl err)
      then show ?thesis using e less.prems(2) by (auto simp: next_block_def Let_def and_then_eq_Inl neq_Nil_conv split: list.splits)
    next
      case (Inr br)
      obtain block rest where br: "br = (block, rest)" by (cases br)
      note ch = next_chain[OF Inr[unfolded br] less.prems(1)]
      have "fetch_walk v source best (blocks @ [block]) rest (saturating_sub_u64 (sb_number block) 1) (sb_parent_hash block) \<noteq> Inl (BadAncestor r g)"
        using lt ch by (intro less.hyps less.prems(2)) auto
      then show ?thesis using e Inr br ch by simp
    qed
  qed
qed

end

text \<open>Blocks from peers are linked from the requested hash, sealed by hashing their header and carry a matching body.\<close>

definition block_sealed :: "head_lib \<Rightarrow> sealed_block \<Rightarrow> bool" where
  "block_sealed L b \<longleftrightarrow> sb_hash b = hash_slow L (lb_header (sb_block b))
     \<and> validate_body_against_header L (lb_body (sb_block b)) (lb_header (sb_block b)) = Inr ()"

fun run_linked :: "head_lib \<Rightarrow> b256 \<Rightarrow> (l2_header \<times> b256) list \<Rightarrow> bool" where
  "run_linked L h [] \<longleftrightarrow> True"
| "run_linked L h ((hdr, hash) # rs) \<longleftrightarrow> hash = h \<and> hash = hash_slow L hdr \<and> run_linked L (lh_parent_hash hdr) rs"

lemma linked_run_linked: "run_linked L h (linked_run L h hs)"
  by (induction L h hs rule: linked_run.induct) (auto simp: seal_header_def)

lemma chain_from_append:
  "chain_from h (bs @ cs) \<longleftrightarrow> chain_from h bs \<and> chain_from (if bs = [] then h else sb_parent_hash (last bs)) cs"
  by (induction bs arbitrary: h) auto

lemma pair_bodies_linked:
  assumes "pair_bodies L pending bodies = Inr bs" "run_linked L h pending"
  shows "chain_from h bs \<and> list_all (block_sealed L) bs \<and> length bs = min (length pending) (length bodies)
    \<and> run_linked L (if bs = [] then h else sb_parent_hash (last bs)) (drop (length bodies) pending)"
  using assms
proof (induction L pending bodies arbitrary: h bs rule: pair_bodies.induct)
  case (1 L hdr hash pending body bodies)
  obtain cs where c: "validate_body_against_header L body hdr = Inr ()" "pair_bodies L pending bodies = Inr cs"
    "bs = \<lparr>sb_block = \<lparr>lb_header = hdr, lb_body = body\<rparr>, sb_hash = hash\<rparr> # cs"
    using "1.prems"(1) by (auto simp: and_then_eq_Inr)
  have "map_err PeerError (validate_body_against_header L body hdr) = Inr ()" using c(1) by simp
  from "1.IH"[OF this c(2), of "lh_parent_hash hdr"] show ?case
    using "1.prems"(2) c by (auto simp: block_sealed_def split: if_splits)
qed auto

lemma fetch_bodies_linked:
  assumes "fetch_bodies L client pending = Inr bs" "run_linked L h pending"
  shows "chain_from h bs \<and> list_all (block_sealed L) bs"
  using assms
proof (induction L client pending arbitrary: h bs rule: fetch_bodies.induct)
  case (1 L client pending)
  show ?case
  proof (cases "pending = []")
    case True
    then show ?thesis using "1.prems"(1) fetch_bodies.simps[of L client pending] by simp
  next
    case ne: False
    obtain bodies where b: "peer_request (get_block_bodies client (map snd (take (unat FETCH_BATCH) pending))) = Inr bodies"
      using "1.prems"(1) ne fetch_bodies.simps[of L client pending] by (auto simp: and_then_eq_Inr)
    show ?thesis
    proof (cases "bodies = []")
      case True
      then show ?thesis using "1.prems"(1) ne b fetch_bodies.simps[of L client pending] by simp
    next
      case False
      then obtain cs ds where c: "pair_bodies L pending bodies = Inr cs" "fetch_bodies L client (drop (length bodies) pending) = Inr ds"
        "bs = cs @ ds" using "1.prems"(1) ne b fetch_bodies.simps[of L client pending] by (auto simp: and_then_eq_Inr)
      note p = pair_bodies_linked[OF c(1) "1.prems"(2)]
      have "run_linked L (if cs = [] then h else sb_parent_hash (last cs)) (drop (length bodies) pending)" using p by blast
      from "1.IH"[OF ne b False c(1) c(2) this] p show ?thesis by (simp add: c(3) chain_from_append)
    qed
  qed
qed

lemma peer_blocks_linked:
  assumes "peer_blocks_back L client from count = Inr bs"
  shows "chain_from from bs \<and> list_all (block_sealed L) bs"
proof -
  obtain headers where "fetch_bodies L client (linked_run L from (take (unat count) headers)) = Inr bs"
    using assms by (auto simp: peer_blocks_back_def and_then_eq_Inr if_Inl_eq_Inr)
  from fetch_bodies_linked[OF this linked_run_linked] show ?thesis .
qed

interpretation peers: linked_source "peer_blocks_back L client" for L client
  by unfold_locales (simp add: peer_blocks_linked)

lemma pair_bodies_no_bad: "pair_bodies L pending bodies \<noteq> Inl (BadAncestor r g)"
  by (induction L pending bodies rule: pair_bodies.induct) (auto simp: and_then_eq_Inl map_err_def split: sum.splits)

lemma peer_request_no_bad: "peer_request a \<noteq> Inl (BadAncestor r g)"
  by (cases a) auto

lemma fetch_bodies_no_bad: "fetch_bodies L client pending \<noteq> Inl (BadAncestor r g)"
proof (induction L client pending rule: fetch_bodies.induct)
  case (1 L client pending)
  then show ?case using fetch_bodies.simps[of L client pending]
    by (auto simp: and_then_eq_Inl peer_request_no_bad pair_bodies_no_bad split: if_splits)
qed

lemma peer_blocks_no_bad: "peer_blocks_back L client from count \<noteq> Inl (BadAncestor r g)"
  by (auto simp: peer_blocks_back_def and_then_eq_Inl peer_request_no_bad fetch_bodies_no_bad)

lemma fetch_walk_all:
  assumes "fetch_walk v source best blocks batch number hash = Inr m" "list_all P blocks" "list_all P batch"
    "\<And>from count bs. source from count = Inr bs \<Longrightarrow> list_all P bs"
  shows "list_all P (missing_blocks m)"
  using assms
proof (induction v source best blocks batch number hash arbitrary: m rule: fetch_walk.induct)
  case (1 v source best blocks batch number hash)
  obtain known where k: "map_err Provider (lv_header v hash) = Inr known"
    using "1.prems"(1) fetch_walk.simps[of v source best blocks batch number hash] by (auto simp: and_then_eq_Inr)
  show ?case
  proof (cases known)
    case (Some header)
    then show ?thesis using "1.prems"(1,2) k fetch_walk.simps[of v source best blocks batch number hash] by auto
  next
    case None
    have lt: "\<not> unat MAX_ANCESTRY_WALK \<le> length blocks"
      using "1.prems"(1) k None fetch_walk.simps[of v source best blocks batch number hash] by (auto split: if_splits)
    obtain block rest where nb: "next_block source best number hash batch = Inr (block, rest)" and ok: "sb_hash block = hash"
      and rec: "fetch_walk v source best (blocks @ [block]) rest (saturating_sub_u64 (sb_number block) 1) (sb_parent_hash block) = Inr m"
      using "1.prems"(1) k None lt fetch_walk.simps[of v source best blocks batch number hash]
      by (auto simp: and_then_eq_Inr split: if_splits)
    have "P block" "list_all P rest"
      using nb "1.prems"(3) "1.prems"(4)[of hash "clamp (saturating_sub_u64 number best) 1 FETCH_BATCH" "block # rest"]
      by (auto simp: next_block_Inr)
    then show ?thesis using "1.IH"[OF k None lt nb refl _ rec] ok "1.prems"(2,4) by simp
  qed
qed

lemma commit_all_prefix:
  assumes "commit_all commit cs = (r, made)"
  shows "\<exists>rest. cs = made @ rest \<and> (r = Inr () \<longrightarrow> rest = [])"
  using assms by (induction cs arbitrary: r made) (auto split: sum.splits prod.splits)

lemma commit_all_ok: "(\<And>c. c \<in> set cs \<Longrightarrow> commit c = Inr ()) \<Longrightarrow> commit_all commit cs = (Inr (), cs)"
  by (induction cs) auto

definition import_plan :: "missing \<Rightarrow> engine_call list" where
  "import_plan m = (if missing_blocks m = [] then [ReorgTo (fork_point m) (fork_hash m)] else map CommitDerived (missing_blocks m))"

lemma import_missing_calls:
  assumes "import_missing commit v m = (r, calls)"
  shows "\<exists>rest. import_plan m = calls @ rest"
proof (cases "missing_blocks m = [] \<and> fork_hash m = lv_head v")
  case True
  then show ?thesis using assms by (simp add: import_missing_def)
next
  case False
  obtain r' where "commit_all commit (import_plan m) = (r', calls)"
    using assms False by (auto simp: import_missing_def import_plan_def[symmetric] split: prod.splits)
  then show ?thesis using commit_all_prefix by blast
qed

section \<open>Which head is adopted\<close>

abbreviation claim_at :: "verified_head \<Rightarrow> num_hash" where
  "claim_at head \<equiv> (hc_number (vh_claim head), hc_block_hash (vh_claim head))"

definition adopted :: "follow_env \<Rightarrow> verified_head \<Rightarrow> missing \<Rightarrow> engine_call list \<Rightarrow> bool" where
  "adopted E head m calls \<longleftrightarrow> fetch_missing (fe_before E head) (fe_source E) (claim_at head) (vh_block head) = Inr m
     \<and> held (fe_locked E head) = Inr False
     \<and> check_extends_safe (fe_locked E head) (lh_number (fork_point m), fork_hash m) (lh_parent_hash (fork_point m)) = Inr Extends
     \<and> (\<exists>rest. import_plan m = calls @ rest)"

definition conflicting :: "follow_env \<Rightarrow> verified_head \<Rightarrow> bool" where
  "conflicting E head \<longleftrightarrow> check_extends_safe (fe_before E head) (claim_at head) (hc_parent_hash (vh_claim head)) = Inr Conflicts
     \<or> (\<exists>m. fetch_missing (fe_before E head) (fe_source E) (claim_at head) (vh_block head) = Inr m
         \<and> check_extends_safe (fe_locked E head) (lh_number (fork_point m), fork_hash m) (lh_parent_hash (fork_point m)) = Inr Conflicts)"

lemma follow_step:
  assumes "follow_candidates E (head # heads) rs = (r, rs', calls)" "calls \<noteq> []"
  shows "(\<exists>m. adopted E head m calls) \<or> (conflicting E head \<and> (\<exists>rs1. follow_candidates E heads rs1 = (r, rs', calls)))"
proof (cases "check_extends_safe (fe_before E head) (claim_at head) (hc_parent_hash (vh_claim head))")
  case (Inl e)
  then show ?thesis using assms by (simp add: Let_def)
next
  case c: (Inr c)
  show ?thesis
  proof (cases "c = Conflicts")
    case True
    then show ?thesis using assms(1) c by (auto simp: Let_def conflicting_def)
  next
    case nc: False
    obtain m where m: "fetch_missing (fe_before E head) (fe_source E) (claim_at head) (vh_block head) = Inr m"
      using assms c nc by (auto simp: Let_def split: sum.splits bool.splits follower_error.splits)
    have h: "held (fe_before E head) = Inr False" "held (fe_locked E head) = Inr False"
      using assms c nc m by (auto simp: Let_def split: sum.splits bool.splits)
    let ?ck = "check_extends_safe (fe_locked E head) (lh_number (fork_point m), fork_hash m) (lh_parent_hash (fork_point m))"
    obtain verdict where v: "?ck = Inr verdict" using assms c nc m h by (cases ?ck) (auto simp: Let_def)
    show ?thesis
    proof (cases "verdict = Extends")
      case True
      then have "snd (import_missing (fe_commit E) (fe_locked E head) m) = calls"
        using assms(1) c nc m h v by (auto simp: Let_def split: prod.splits)
      then have "\<exists>rest. import_plan m = calls @ rest" by (metis import_missing_calls prod.collapse)
      then show ?thesis using m h v True by (auto simp: adopted_def)
    next
      case False
      then have "verdict = Conflicts \<and> (\<exists>rs1. follow_candidates E heads rs1 = (r, rs', calls))"
        using assms c nc m h v by (auto simp: Let_def split: if_splits)
      then show ?thesis using m v by (auto simp: conflicting_def)
    qed
  qed
qed

lemma follow_candidates_calls:
  assumes "follow_candidates E heads rs = (r, rs', calls)" "calls \<noteq> []"
  shows "\<exists>skipped head rest m. heads = skipped @ head # rest \<and> list_all (conflicting E) skipped \<and> adopted E head m calls"
  using assms
proof (induction heads arbitrary: rs)
  case (Cons head heads)
  from follow_step[OF Cons.prems] show ?case
  proof
    assume "\<exists>m. adopted E head m calls"
    then show ?thesis by (intro exI[of _ "[]"]) auto
  next
    assume a: "conflicting E head \<and> (\<exists>rs1. follow_candidates E heads rs1 = (r, rs', calls))"
    then obtain skipped h rest m where "heads = skipped @ h # rest" "list_all (conflicting E) skipped" "adopted E h m calls"
      using Cons.IH Cons.prems(2) by blast
    then show ?thesis using a by (intro exI[of _ "head # skipped"]) auto
  qed
qed simp

lemma fetch_missing_all:
  assumes "fetch_missing v source t block = Inr m" "\<And>b. block = Some b \<Longrightarrow> P b"
    "\<And>from count bs. source from count = Inr bs \<Longrightarrow> list_all P bs"
  shows "list_all P (missing_blocks m)"
proof -
  obtain best where "fetch_walk v source best [] (case block of None \<Rightarrow> [] | Some b \<Rightarrow> [b]) (fst t) (snd t) = Inr m"
    using assms(1) by (auto simp: fetch_missing_def and_then_eq_Inr if_Inl_eq_Inr)
  then show ?thesis by (rule fetch_walk_all) (use assms(2,3) in \<open>auto split: option.splits\<close>)
qed

lemma held_False: "held v = Inr False \<longleftrightarrow> (\<exists>safe. lv_safe v = Inr safe \<and> lv_indexed v \<le> (case safe of None \<Rightarrow> 0 | Some s \<Rightarrow> fst s))"
  by (auto simp: held_def and_then_eq_Inr not_less)

lemma skipped_above:
  assumes "candidates t = skipped @ head # rest" "g \<in> snd ` set t"
    "(claim_version (vh_claim head), vh_signer head) < (claim_version (vh_claim g), vh_signer g)"
  shows "g \<in> set skipped"
proof (rule ccontr)
  assume "g \<notin> set skipped"
  moreover have "g \<in> set (skipped @ head # rest)" using assms(2) unfolding set_candidates[symmetric] assms(1)[symmetric] .
  moreover have "g \<noteq> head" using assms(3) by auto
  ultimately have "g \<in> set rest" by simp
  moreover have "sorted_wrt (\<ge>) (map (\<lambda>h. (claim_version (vh_claim h), vh_signer h)) (skipped @ head # rest))"
    using sorted_candidates[of t] unfolding assms(1) .
  ultimately have "(claim_version (vh_claim g), vh_signer g) \<le> (claim_version (vh_claim head), vh_signer head)"
    by (simp add: sorted_wrt_append)
  then show False using assms(3) by (meson leD)
qed

section \<open>Adopting an honest head\<close>

text \<open>A source serves a chain when it answers a request for any block of it with a non-empty run of its ancestors in it.\<close>

definition serves :: "blocks_back \<Rightarrow> sealed_block list \<Rightarrow> bool" where
  "serves source bs \<longleftrightarrow> (\<forall>done b todo count. bs = done @ b # todo \<longrightarrow> count \<noteq> 0 \<longrightarrow> (\<exists>k. source (sb_hash b) count = Inr (b # take k todo)))"

lemma clamp_nonzero: "clamp x 1 FETCH_BATCH \<noteq> 0"
  by (auto simp: clamp_def FETCH_BATCH_def)

lemma fetch_walk_complete:
  assumes "links_back hash todo fork" "lv_header v fork = Inr (Some hdr)" "\<forall>b \<in> set todo. lv_header v (sb_hash b) = Inr None"
    "length (walked @ todo) \<le> unat MAX_ANCESTRY_WALK" "serves source (walked @ todo)"
  shows "fetch_walk v source best walked (take k todo) number hash
    = Inr \<lparr>fork_point = hdr, fork_hash = fork, missing_blocks = rev (walked @ todo)\<rparr>"
  using assms
proof (induction todo arbitrary: walked k number hash)
  case Nil
  then show ?case using fetch_walk.simps[of v source best walked "[]" number hash] by simp
next
  case (Cons b todo)
  have h: "sb_hash b = hash" using Cons.prems(1) by simp
  have none: "lv_header v hash = Inr None" using Cons.prems(3) h by simp
  obtain j where nb: "next_block source best number hash (take k (b # todo)) = Inr (b, take j todo)"
  proof (cases k)
    case 0
    obtain j where "source hash (clamp (saturating_sub_u64 number best) 1 FETCH_BATCH) = Inr (b # take j todo)"
      using Cons.prems(5) h clamp_nonzero unfolding serves_def by blast
    then show ?thesis using that[of j] 0 by (simp add: next_block_Inr)
  next
    case (Suc k')
    then show ?thesis using that[of k'] by (simp add: next_block_Inr)
  qed
  have "fetch_walk v source best (walked @ [b]) (take j todo) (saturating_sub_u64 (sb_number b) 1) (sb_parent_hash b)
      = Inr \<lparr>fork_point = hdr, fork_hash = fork, missing_blocks = rev ((walked @ [b]) @ todo)\<rparr>"
    by (rule Cons.IH) (use Cons.prems in auto)
  then show ?case using fetch_walk.simps[of v source best walked "take k (b # todo)" number hash] none nb h Cons.prems(4) by simp
qed

lemma fetch_missing_complete:
  assumes "lv_best v = Inr best" "n \<le> saturating_add_u64 best MAX_ANCESTRY_WALK"
    "links_back hash bs fork" "lv_header v fork = Inr (Some hdr)" "\<forall>b \<in> set bs. lv_header v (sb_hash b) = Inr None"
    "length bs \<le> unat MAX_ANCESTRY_WALK" "serves source bs" "block = None \<or> (bs \<noteq> [] \<and> block = Some (hd bs))"
  shows "fetch_missing v source (n, hash) block = Inr \<lparr>fork_point = hdr, fork_hash = fork, missing_blocks = rev bs\<rparr>"
proof -
  obtain k where "(case block of None \<Rightarrow> [] | Some b \<Rightarrow> [b]) = take k bs"
  proof (cases block)
    case None
    then show ?thesis using that[of 0] by simp
  next
    case (Some b)
    then show ?thesis using that[of 1] assms(8) by (cases bs) auto
  qed
  then show ?thesis
    using fetch_walk_complete[OF assms(3,4,5), of "[]" source best k n] assms(1,2,6,7) by (simp add: fetch_missing_def not_less)
qed

section \<open>Properties\<close>

definition example_view :: local_view where
  "example_view = \<lparr>lv_safe = Inr (Some (0, 9)), lv_canonical = (\<lambda>n. Inr (if n = 0 then Some 9 else None)),
     lv_header = (\<lambda>h. Inr (if h = 9 then Some \<lparr>lh_number = 0, lh_parent_hash = 0, lh_fields = []\<rparr> else None)),
     lv_best = Inr 0, lv_indexed = 0, lv_head = 9\<rparr>"

definition example_peers :: peer_client where
  "example_peers = \<lparr>num_connected_peers = 1, get_headers = (\<lambda>h n. Answered (if h = 1 then [lb_header (example_l2_block 1)] else [])),
     get_block_bodies = (\<lambda>hs. Answered (map (\<lambda>_. []) hs))\<rparr>"

definition example_follow :: follow_env where
  "example_follow = \<lparr>fe_before = (\<lambda>_. example_view), fe_locked = (\<lambda>_. example_view),
     fe_source = peer_blocks_back example_lib example_peers, fe_commit = (\<lambda>_. Inr ())\<rparr>"

definition example_block :: sealed_block where
  "example_block = \<lparr>sb_block = example_l2_block 1, sb_hash = 1\<rparr>"

lemma example_canonical: "canonical_extends example_view"
  by (auto simp: canonical_extends_def example_view_def split: if_splits)

lemma example_checks:
  "check_extends_safe example_view (1, 1) 9 = Inr Extends" "held example_view = Inr False"
  "check_extends_safe example_view (0, 9) 0 = Inr Extends"
  by (simp_all add: check_extends_safe_def held_def example_view_def walk_to_safe.simps)

lemma example_head: "claim_at (example_verified 1) = (1, 1)" "hc_parent_hash (vh_claim (example_verified 1)) = 9"
  "vh_block (example_verified 1) = Some example_block"
  by (simp_all add: heads_example example_block_def)

lemma example_serves: "serves (peer_blocks_back example_lib example_peers) [example_block]"
proof -
  have "peer_blocks_back example_lib example_peers 1 count = Inr [example_block]" if "count \<noteq> 0" for count
  proof -
    have "take (unat count) [x] = [x]" for x :: l2_header using that by (cases "unat count") (auto simp: unat_eq_0)
    then show ?thesis
      by (simp add: peer_blocks_back_def example_peers_def seal_header_def example_lib_def example_l2_block_def fetch_bodies.simps
        FETCH_BATCH_def example_block_def)
  qed
  then show ?thesis by (auto simp: serves_def example_block_def Cons_eq_append_conv)
qed

lemma example_fetch:
  "fetch_missing example_view (peer_blocks_back example_lib example_peers) (1, 1) (Some example_block)
    = Inr \<lparr>fork_point = \<lparr>lh_number = 0, lh_parent_hash = 0, lh_fields = []\<rparr>, fork_hash = 9, missing_blocks = [example_block]\<rparr>"
  using fetch_missing_complete[OF _ _ _ _ _ _ example_serves, of example_view 0 1 1 9 "\<lparr>lh_number = 0, lh_parent_hash = 0, lh_fields = []\<rparr>" "Some example_block"]
  by (simp add: example_view_def saturating_add_u64_def MAX_ANCESTRY_WALK_def example_block_def example_l2_block_def)



text \<open>
  C38. Fetching missing ancestors ends, whatever a source answers: it fails, or it returns at most 1024 blocks, none of them known
  locally, that link by parent hash from the target to a locally known fork point. With peers as the source it never
  reports a wrong ancestor for a target whose attached block, if any, is the target.
\<close>
theorem fetch_missing_bounded:
  "(case fetch_missing v source (n, hash) block of
      Inl e \<Rightarrow> source = peer_blocks_back L client \<and> (\<forall>b. block = Some b \<longrightarrow> sb_hash b = hash) \<longrightarrow> (\<forall>x y. e \<noteq> BadAncestor x y)
    | Inr m \<Rightarrow> length (missing_blocks m) \<le> 1024 \<and> links_back hash (rev (missing_blocks m)) (fork_hash m)
        \<and> lv_header v (fork_hash m) = Inr (Some (fork_point m))
        \<and> list_all (\<lambda>b. lv_header v (sb_hash b) = Inr None) (missing_blocks m))"
proof (cases "fetch_missing v source (n, hash) block")
  case (Inr m)
  then show ?thesis using fetch_missing_Inr[OF Inr] by (auto simp: MAX_ANCESTRY_WALK_def list_all_iff)
next
  case (Inl e)
  have "e \<noteq> BadAncestor x y" if src: "source = peer_blocks_back L client" and blk: "\<forall>b. block = Some b \<longrightarrow> sb_hash b = hash" for x y
  proof -
    have "chain_from hash (case block of None \<Rightarrow> [] | Some b \<Rightarrow> [b])" using blk by (auto split: option.splits)
    then have "fetch_walk v source best [] (case block of None \<Rightarrow> [] | Some b \<Rightarrow> [b]) n hash \<noteq> Inl (BadAncestor x y)" for best
      unfolding src by (rule peers.never_bad_ancestor) (rule peer_blocks_no_bad)
    then show ?thesis using Inl by (cases "lv_best v") (auto simp: fetch_missing_def split: if_splits)
  qed
  then show ?thesis using Inl by auto
qed

theorem fetch_missing_bounded_witness:
  "(case fetch_missing example_view (peer_blocks_back example_lib example_peers) (2, 2) None of
      Inl e \<Rightarrow> e = NotServed 2 \<and> e \<noteq> BadAncestor 2 2 | Inr m \<Rightarrow> False)"
proof -
  have "fetch_missing example_view (peer_blocks_back example_lib example_peers) (2, 2) None = Inl (NotServed 2)"
    by (simp add: fetch_missing_def example_view_def saturating_add_u64_def MAX_ANCESTRY_WALK_def fetch_walk.simps next_block_def
      peer_blocks_back_def example_peers_def fetch_bodies.simps Let_def)
  then show ?thesis
    using fetch_missing_bounded[where v = example_view and source = "peer_blocks_back example_lib example_peers" and n = 2 and hash = 2
        and block = None and L = example_lib and client = example_peers] by simp
qed

text \<open>
  C39. An honest head is adopted. When the best candidate is not shown to conflict, the L1 batch index is not ahead, the blocks from a local
  fork point that extends safe up to the signed hash number at most 1024 and the source serves them, and the engine accepts them, then
  following imports exactly those blocks in order and succeeds.
\<close>
theorem honest_head_adopted:
  assumes "candidates tracker = head # heads" "bs \<noteq> []"
    and "check_extends_safe (fe_before E head) (claim_at head) (hc_parent_hash (vh_claim head)) \<in> {Inr Extends, Inr CompatUnverifiable}"
    and "held (fe_before E head) = Inr False" "held (fe_locked E head) = Inr False"
    and "lv_best (fe_before E head) = Inr best" "hc_number (vh_claim head) \<le> saturating_add_u64 best MAX_ANCESTRY_WALK"
    and "links_back (hc_block_hash (vh_claim head)) bs fork" "lv_header (fe_before E head) fork = Inr (Some hdr)"
    and "\<forall>b \<in> set bs. lv_header (fe_before E head) (sb_hash b) = Inr None" "length bs \<le> 1024" "serves (fe_source E) bs"
    and "vh_block head = None \<or> vh_block head = Some (hd bs)"
    and "check_extends_safe (fe_locked E head) (lh_number hdr, fork) (lh_parent_hash hdr) = Inr Extends"
    and "\<And>b. b \<in> set bs \<Longrightarrow> fe_commit E (CommitDerived b) = Inr ()"
  shows "follow_best E tracker rs = (Inr (), rs, map CommitDerived (rev bs))"
proof -
  let ?m = "\<lparr>fork_point = hdr, fork_hash = fork, missing_blocks = rev bs\<rparr>"
  have m: "fetch_missing (fe_before E head) (fe_source E) (claim_at head) (vh_block head) = Inr ?m"
    by (rule fetch_missing_complete) (use assms in \<open>auto simp: MAX_ANCESTRY_WALK_def\<close>)
  have "commit_all (fe_commit E) (map CommitDerived (rev bs)) = (Inr (), map CommitDerived (rev bs))"
    by (rule commit_all_ok) (use assms(15) in auto)
  then have "import_missing (fe_commit E) (fe_locked E head) ?m = (Inr True, map CommitDerived (rev bs))"
    using assms(2) by (simp add: import_missing_def)
  then show ?thesis using assms(3-5,14) m by (auto simp: follow_best_def assms(1) Let_def)
qed

theorem honest_head_adopted_witness:
  "follow_best example_follow [(head_source_of (example_verified 1), example_verified 1)] [] = (Inr (), [], [CommitDerived example_block])"
proof -
  have "follow_best example_follow [(head_source_of (example_verified 1), example_verified 1)] [] = (Inr (), [], map CommitDerived (rev [example_block]))"
    by (rule honest_head_adopted[where head = "example_verified 1" and heads = "[]" and best = 0 and fork = 9
        and hdr = "\<lparr>lh_number = 0, lh_parent_hash = 0, lh_fields = []\<rparr>"])
      (use example_checks example_head example_serves in \<open>auto simp: candidates_def example_follow_def example_view_def
        saturating_add_u64_def MAX_ANCESTRY_WALK_def example_block_def example_l2_block_def\<close>)
  then show ?thesis by simp
qed

end
