(* ===== verification/Optimistic.thy ===== *)
theory Optimistic
  imports Held_Pool Signed_Heads "HOL-Library.Multiset"
begin

text \<open>
  The ledger of cross-chain transactions whose Sync block was committed before its L1 bundle settled
  (\<^verbatim>\<open>crates/eez-composer/src/optimistic.rs\<close>). The height-keyed tree map is an association list in ascending key
  order. A step relation interleaves the operations with observer verdicts and the movements of the Deriver's cursor.
\<close>

section \<open>The ledger\<close>

datatype resolution = Pending | Settled | FailedBundle | SettledPartial

record in_flight_batch =
  ib_txs :: "held_tx list"
  ib_post_batch_hash :: b256
  ib_parent :: "l2_header \<times> b256"
  ib_resolution :: resolution
  ib_cursor_confirmed :: bool
  ib_slot_skipped :: bool

record failed_batch =
  fb_sync_height :: u64
  fb_post_batch_hash :: b256
  fb_parent :: "l2_header \<times> b256"
  fb_txs :: "held_tx list"
  fb_slot_skipped :: bool

type_synonym ledger = "(u64 \<times> in_flight_batch) list"

fun btree_insert :: "u64 \<Rightarrow> in_flight_batch \<Rightarrow> ledger \<Rightarrow> ledger" where
  "btree_insert k v [] = [(k, v)]"
| "btree_insert k v ((a, b) # xs) =
     (if k < a then (k, v) # (a, b) # xs else if k = a then (k, v) # xs else (a, b) # btree_insert k v xs)"

definition btree_modify :: "u64 \<Rightarrow> (in_flight_batch \<Rightarrow> in_flight_batch) \<Rightarrow> ledger \<Rightarrow> ledger" where
  "btree_modify k f l = map (\<lambda>(h, e). (h, if h = k then f e else e)) l"

definition btree_remove :: "u64 \<Rightarrow> ledger \<Rightarrow> ledger" where
  "btree_remove k l = filter (\<lambda>(h, _). h \<noteq> k) l"

definition range_above :: "u64 \<Rightarrow> ledger \<Rightarrow> ledger" where
  "range_above cursor l = filter (\<lambda>(h, _). cursor + 1 \<le> h) l"

definition range_upto :: "u64 \<Rightarrow> ledger \<Rightarrow> ledger" where
  "range_upto cursor l = filter (\<lambda>(h, _). h \<le> cursor) l"

definition ledger_begin :: "u64 \<Rightarrow> b256 \<Rightarrow> l2_header \<times> b256 \<Rightarrow> held_tx list \<Rightarrow> ledger \<Rightarrow> ledger" where
  "ledger_begin sync_height post_batch_hash parent txs l =
     btree_insert sync_height \<lparr>ib_txs = txs, ib_post_batch_hash = post_batch_hash, ib_parent = parent, ib_resolution = Pending,
       ib_cursor_confirmed = False, ib_slot_skipped = False\<rparr> l"

definition blocking_height :: "u64 \<Rightarrow> ledger \<Rightarrow> u64 option" where
  "blocking_height cursor l = (case range_above cursor l of [] \<Rightarrow> None | (h, _) # _ \<Rightarrow> Some h)"

definition settle_by_cursor :: "in_flight_batch \<Rightarrow> in_flight_batch" where
  "settle_by_cursor e = (if ib_resolution e \<in> {Pending, FailedBundle} then e\<lparr>ib_resolution := SettledPartial\<rparr> else e)"

definition resolve_below_cursor :: "u64 \<Rightarrow> ledger \<Rightarrow> held_tx list \<times> ledger" where
  "resolve_below_cursor cursor l =
     (concat (map (\<lambda>(h, e). if h \<le> cursor \<and> ib_resolution (settle_by_cursor e) = Settled \<and> \<not> ib_cursor_confirmed e then ib_txs e else []) l),
      map (\<lambda>(h, e). (h, if h \<le> cursor
        then let e = settle_by_cursor e in
          if ib_resolution e = Settled \<and> \<not> ib_cursor_confirmed e then e\<lparr>ib_cursor_confirmed := True\<rparr> else e
        else e)) l)"

definition mark_settled_partial :: "u64 \<Rightarrow> b256 \<Rightarrow> ledger \<Rightarrow> ledger" where
  "mark_settled_partial sync_height post_batch_hash l = btree_modify sync_height (\<lambda>e.
     if ib_post_batch_hash e = post_batch_hash \<and> ib_resolution e = Pending then e\<lparr>ib_resolution := SettledPartial\<rparr> else e) l"

definition partial_to_dispose :: "u64 \<Rightarrow> ledger \<Rightarrow> failed_batch option" where
  "partial_to_dispose cursor l =
     map_option (\<lambda>(h, e). \<lparr>fb_sync_height = h, fb_post_batch_hash = ib_post_batch_hash e, fb_parent = ib_parent e,
         fb_txs = ib_txs e, fb_slot_skipped = False\<rparr>)
       (List.find (\<lambda>(_, e). ib_resolution e = SettledPartial) (range_upto cursor l))"

definition claim_partial :: "u64 \<Rightarrow> b256 \<Rightarrow> held_tx list \<Rightarrow> ledger \<Rightarrow> bool \<times> ledger" where
  "claim_partial sync_height post_batch_hash spent l =
     (case map_of l sync_height of
        Some e \<Rightarrow>
          if ib_post_batch_hash e = post_batch_hash
          then (True, btree_modify sync_height (\<lambda>e. e\<lparr>ib_txs := spent, ib_resolution := Settled, ib_cursor_confirmed := True\<rparr>) l)
          else (False, l)
      | None \<Rightarrow> (False, l))"

definition mark_settled :: "u64 \<Rightarrow> b256 \<Rightarrow> ledger \<Rightarrow> ledger" where
  "mark_settled sync_height post_batch_hash l = btree_modify sync_height (\<lambda>e.
     if ib_post_batch_hash e = post_batch_hash then e\<lparr>ib_resolution := Settled\<rparr> else e) l"

definition mark_failed :: "u64 \<Rightarrow> b256 \<Rightarrow> bool \<Rightarrow> ledger \<Rightarrow> ledger" where
  "mark_failed sync_height post_batch_hash slot_skipped l = btree_modify sync_height (\<lambda>e.
     if ib_post_batch_hash e = post_batch_hash \<and> ib_resolution e = Pending
     then e\<lparr>ib_resolution := FailedBundle, ib_slot_skipped := slot_skipped\<rparr> else e) l"

definition take_failed_for_recovery :: "u64 \<Rightarrow> ledger \<Rightarrow> failed_batch option \<times> ledger" where
  "take_failed_for_recovery cursor l =
     (case List.find (\<lambda>(_, e). ib_resolution e = FailedBundle) (range_above cursor l) of
        None \<Rightarrow> (None, l)
      | Some (h, e) \<Rightarrow>
          (Some \<lparr>fb_sync_height = h, fb_post_batch_hash = ib_post_batch_hash e, fb_parent = ib_parent e, fb_txs = ib_txs e,
             fb_slot_skipped = ib_slot_skipped e\<rparr>, btree_remove h l))"

definition reinsert_failed :: "failed_batch \<Rightarrow> ledger \<Rightarrow> ledger" where
  "reinsert_failed b l = btree_insert (fb_sync_height b)
     \<lparr>ib_txs = fb_txs b, ib_post_batch_hash = fb_post_batch_hash b, ib_parent = fb_parent b, ib_resolution = FailedBundle,
      ib_cursor_confirmed = False, ib_slot_skipped = fb_slot_skipped b\<rparr> l"

definition take_rolled_out :: "u64 \<Rightarrow> ledger \<Rightarrow> held_tx list \<times> ledger" where
  "take_rolled_out new_l2_cursor l =
     (let rolled = (\<lambda>(h, e). new_l2_cursor + 1 \<le> h \<and> ib_resolution e \<in> {Settled, SettledPartial}) in
      (concat (map (ib_txs \<circ> snd) (filter rolled l)), filter (\<lambda>x. \<not> rolled x) l))"

definition take_finalized :: "u64 \<Rightarrow> ledger \<Rightarrow> (u64 \<times> b256 \<times> held_tx list) list \<times> ledger" where
  "take_finalized finalized_l2 l =
     (let final = (\<lambda>(h, e). h \<le> finalized_l2 \<and> ib_resolution e = Settled) in
      (map (\<lambda>(h, e). (h, ib_post_batch_hash e, ib_txs e)) (filter final l), filter (\<lambda>x. \<not> final x) l))"

section \<open>Interleavings\<close>

text \<open>
  The composer emits a batch only when no entry stands above the cursor, at a height above it. Observers give
  verdicts at any time, the cursor's advance resolves what it covers, and a retreat rolls out what settled above it.
  The ghost fields count the transactions ever committed to a batch and those handed back: recovered, rolled out, released
  unspent or final.
\<close>

record ledger_world =
  lw_ledger :: ledger
  lw_cursor :: u64
  lw_begun :: "held_tx multiset"
  lw_handed_back :: "held_tx multiset"

definition ledger_start :: "u64 \<Rightarrow> ledger_world" where
  "ledger_start cursor = \<lparr>lw_ledger = [], lw_cursor = cursor, lw_begun = {#}, lw_handed_back = {#}\<rparr>"

inductive ledger_step :: "ledger_world \<Rightarrow> ledger_world \<Rightarrow> bool" where
  emit: "blocking_height (lw_cursor w) (lw_ledger w) = None \<Longrightarrow> lw_cursor w < h \<Longrightarrow>
    ledger_step w (w\<lparr>lw_ledger := ledger_begin h pbh parent txs (lw_ledger w), lw_begun := lw_begun w + mset txs\<rparr>)"
| settled: "ledger_step w (w\<lparr>lw_ledger := mark_settled h pbh (lw_ledger w)\<rparr>)"
| settled_partial: "ledger_step w (w\<lparr>lw_ledger := mark_settled_partial h pbh (lw_ledger w)\<rparr>)"
| failed: "ledger_step w (w\<lparr>lw_ledger := mark_failed h pbh skipped (lw_ledger w)\<rparr>)"
| advance: "lw_cursor w \<le> c \<Longrightarrow> ledger_step w (w\<lparr>lw_ledger := snd (resolve_below_cursor c (lw_ledger w)), lw_cursor := c\<rparr>)"
| retreat: "c \<le> lw_cursor w \<Longrightarrow> take_rolled_out c (lw_ledger w) = (txs, l) \<Longrightarrow>
    ledger_step w (w\<lparr>lw_ledger := l, lw_cursor := c, lw_handed_back := lw_handed_back w + mset txs\<rparr>)"
| recover: "take_failed_for_recovery (lw_cursor w) (lw_ledger w) = (Some b, l) \<Longrightarrow>
    ledger_step w (w\<lparr>lw_ledger := l, lw_handed_back := lw_handed_back w + mset (fb_txs b)\<rparr>)"
| recovery_error: "take_failed_for_recovery (lw_cursor w) (lw_ledger w) = (Some b, l) \<Longrightarrow>
    ledger_step w (w\<lparr>lw_ledger := reinsert_failed b l\<rparr>)"
| dispose: "partial_to_dispose (lw_cursor w) (lw_ledger w) = Some b \<Longrightarrow>
    claim_partial (fb_sync_height b) (fb_post_batch_hash b) (filter spent (fb_txs b)) (lw_ledger w) = (True, l) \<Longrightarrow>
    ledger_step w (w\<lparr>lw_ledger := l, lw_handed_back := lw_handed_back w + mset (filter (\<lambda>tx. \<not> spent tx) (fb_txs b))\<rparr>)"
| finalize: "f \<le> lw_cursor w \<Longrightarrow> take_finalized f (lw_ledger w) = (batches, l) \<Longrightarrow>
    ledger_step w (w\<lparr>lw_ledger := l, lw_handed_back := lw_handed_back w + mset (concat (map (\<lambda>(_, _, txs). txs) batches))\<rparr>)"

inductive ledger_reachable :: "ledger_world \<Rightarrow> bool" where
  start: "ledger_reachable (ledger_start cursor)"
| step: "ledger_reachable w \<Longrightarrow> ledger_step w w' \<Longrightarrow> ledger_reachable w'"

inductive_cases ledger_stepE: "ledger_step w w'"

section \<open>The invariant\<close>

definition ledger_txs :: "ledger \<Rightarrow> held_tx multiset" where
  "ledger_txs l = mset (concat (map (\<lambda>x. ib_txs (snd x)) l))"

definition heights_above :: "u64 \<Rightarrow> ledger \<Rightarrow> u64 list" where
  "heights_above c l = filter (\<lambda>h. c < h) (map fst l)"

abbreviation resolved_entry :: "in_flight_batch \<Rightarrow> bool" where
  "resolved_entry e \<equiv> ib_resolution e = Settled \<or> ib_resolution e = SettledPartial"

definition ledger_inv :: "ledger_world \<Rightarrow> bool" where
  "ledger_inv w \<longleftrightarrow> sorted_wrt (<) (map fst (lw_ledger w))
     \<and> (\<forall>x \<in> set (lw_ledger w). fst x \<le> lw_cursor w \<longrightarrow> resolved_entry (snd x))
     \<and> length (heights_above (lw_cursor w) (lw_ledger w)) \<le> 1
     \<and> lw_begun w = ledger_txs (lw_ledger w) + lw_handed_back w"

lemma ledger_txs_simps [simp]: "ledger_txs [] = {#}" "ledger_txs (x # l) = mset (ib_txs (snd x)) + ledger_txs l"
  by (simp_all add: ledger_txs_def)

lemma succ_le: "(c :: u64) < x \<Longrightarrow> c + 1 \<le> y \<longleftrightarrow> c < y"
proof -
  assume "c < x"
  then have "unat c + 1 < 2 ^ 64" using unat_lt_len[of x] by (simp add: word_less_nat_alt)
  then have "unat (c + 1) = unat c + 1" by (simp add: unat_add_no_overflow)
  then show ?thesis by (simp add: word_le_nat_alt word_less_nat_alt Suc_le_eq)
qed

lemma keys_modify [simp]: "map fst (btree_modify k f l) = map fst l"
  by (induction l) (auto simp: btree_modify_def)

lemma txs_modify: "(\<And>e. ib_txs (f e) = ib_txs e) \<Longrightarrow> ledger_txs (btree_modify k f l) = ledger_txs l"
  by (induction l) (auto simp: btree_modify_def)

lemma set_modify: "x \<in> set (btree_modify k f l) \<Longrightarrow> \<exists>e. (fst x, e) \<in> set l \<and> snd x = (if fst x = k then f e else e)"
  by (auto simp: btree_modify_def)

lemma txs_filter: "ledger_txs (filter P l) + ledger_txs (filter (\<lambda>x. \<not> P x) l) = ledger_txs l"
  by (induction l) (auto simp: ac_simps)

lemma set_insert: "set (btree_insert k v l) \<subseteq> insert (k, v) (set l)"
  by (induction k v l rule: btree_insert.induct) auto

lemma insert_fresh:
  assumes "k \<notin> fst ` set l"
  shows "ledger_txs (btree_insert k v l) = mset (ib_txs v) + ledger_txs l"
    "length (heights_above c (btree_insert k v l)) = (if c < k then 1 else 0) + length (heights_above c l)"
  using assms by (induction k v l rule: btree_insert.induct) (auto simp: heights_above_def ac_simps)

lemma sorted_insert: "sorted_wrt (<) (map fst l) \<Longrightarrow> sorted_wrt (<) (map fst (btree_insert k v l))"
proof (induction k v l rule: btree_insert.induct)
  case (2 k v a b xs)
  have "fst x = k \<or> x \<in> set xs" if "x \<in> set (btree_insert k v xs)" for x using set_insert[of k v xs] that by auto
  then have "\<forall>y \<in> fst ` set (btree_insert k v xs). y = k \<or> y \<in> fst ` set xs" by blast
  then show ?case using 2 by (force simp: not_less_iff_gr_or_eq)
qed simp

lemma sorted_keys_filter: "sorted_wrt (<) (map fst l) \<Longrightarrow> sorted_wrt (<) (map fst (filter P l))"
  by (induction l) auto

lemma remove_found:
  assumes "sorted_wrt (<) (map fst l)" "(h, e) \<in> set l"
  shows "ledger_txs l = mset (ib_txs e) + ledger_txs (btree_remove h l)" "h \<notin> fst ` set (btree_remove h l)"
proof -
  have "ledger_txs (filter (\<lambda>(x, _). x = h) l) = mset (ib_txs e)"
    using assms
  proof (induction l)
    case (Cons x l)
    show ?case
    proof (cases "x = (h, e)")
      case True
      then have "filter (\<lambda>(x, _). x = h) l = []" using Cons.prems(1) by (auto simp: filter_empty_conv)
      then show ?thesis using True by simp
    next
      case False
      then have "(h, e) \<in> set l" "fst x \<noteq> h" using Cons.prems by auto
      then show ?thesis using Cons by (cases x) simp
    qed
  qed simp
  moreover have "filter (\<lambda>x. \<not> (case x of (y, _) \<Rightarrow> y = h)) l = btree_remove h l" by (auto simp: btree_remove_def intro: filter_cong)
  ultimately show "ledger_txs l = mset (ib_txs e) + ledger_txs (btree_remove h l)"
    using txs_filter[of "\<lambda>(x, _). x = h" l] by simp
  show "h \<notin> fst ` set (btree_remove h l)" by (auto simp: btree_remove_def)
qed

lemma heights_filter: "length (heights_above c (filter P l)) \<le> length (heights_above c l)"
  by (induction l) (auto simp: heights_above_def)

lemma ledger_inv_modify:
  assumes inv: "ledger_inv w" and txs: "\<And>e. ib_txs (f e) = ib_txs e" and res: "\<And>e. resolved_entry e \<Longrightarrow> resolved_entry (f e)"
  shows "ledger_inv (w\<lparr>lw_ledger := btree_modify k f (lw_ledger w)\<rparr>)"
proof -
  have "resolved_entry (snd x)" if mem: "x \<in> set (btree_modify k f (lw_ledger w))" "fst x \<le> lw_cursor w" for x
  proof -
    obtain e where e: "(fst x, e) \<in> set (lw_ledger w)" "snd x = (if fst x = k then f e else e)" using set_modify[OF mem(1)] by blast
    then have "resolved_entry e" using inv mem(2) unfolding ledger_inv_def by fastforce
    then show ?thesis using e(2) res by simp
  qed
  then show ?thesis using inv by (simp add: ledger_inv_def txs_modify[OF txs] heights_above_def)
qed

lemma ledger_inv_emit:
  assumes inv: "ledger_inv w" and gate: "blocking_height (lw_cursor w) (lw_ledger w) = None" and above: "lw_cursor w < h"
  shows "ledger_inv (w\<lparr>lw_ledger := ledger_begin h pbh parent txs (lw_ledger w), lw_begun := lw_begun w + mset txs\<rparr>)"
proof -
  have "range_above (lw_cursor w) (lw_ledger w) = []" using gate by (auto simp: blocking_height_def split: list.splits)
  then have none: "\<not> lw_cursor w < fst x" if "x \<in> set (lw_ledger w)" for x
    using that succ_le[OF above] by (auto simp: range_above_def filter_empty_conv)
  then have fresh: "h \<notin> fst ` set (lw_ledger w)" using above by auto
  have "heights_above (lw_cursor w) (lw_ledger w) = []" using none by (auto simp: heights_above_def filter_empty_conv)
  then show ?thesis using inv insert_fresh[OF fresh] above set_insert sorted_insert
    unfolding ledger_inv_def ledger_begin_def by (fastforce simp: ac_simps)
qed

lemma ledger_inv_advance:
  assumes inv: "ledger_inv w" and c: "lw_cursor w \<le> c"
  shows "ledger_inv (w\<lparr>lw_ledger := snd (resolve_below_cursor c (lw_ledger w)), lw_cursor := c\<rparr>)"
proof -
  let ?g = "\<lambda>h e. if h \<le> c then let e = settle_by_cursor e in
      if ib_resolution e = Settled \<and> \<not> ib_cursor_confirmed e then e\<lparr>ib_cursor_confirmed := True\<rparr> else e else e"
  have r: "snd (resolve_below_cursor c l) = map (\<lambda>(h, e). (h, ?g h e)) l" for l by (simp add: resolve_below_cursor_def)
  have keys: "map fst (map (\<lambda>(h, e). (h, ?g h e)) l) = map fst l" for l by (induction l) auto
  have txs: "ledger_txs (map (\<lambda>(h, e). (h, ?g h e)) l) = ledger_txs l" for l
    by (induction l) (auto simp: settle_by_cursor_def Let_def)
  have res: "resolved_entry (?g h e)" if "h \<le> c" for h e
    using that by (cases "ib_resolution e") (auto simp: settle_by_cursor_def Let_def)
  have "length (heights_above c l) \<le> length (heights_above (lw_cursor w) l)" for l
    using c by (induction l) (auto simp: heights_above_def)
  then have "length (heights_above c (lw_ledger w)) \<le> 1" using inv unfolding ledger_inv_def by (meson order_trans)
  moreover have "\<forall>x \<in> set (map (\<lambda>(h, e). (h, ?g h e)) (lw_ledger w)). fst x \<le> c \<longrightarrow> resolved_entry (snd x)"
  proof (intro ballI impI)
    fix x assume x: "x \<in> set (map (\<lambda>(h, e). (h, ?g h e)) (lw_ledger w))" "fst x \<le> c"
    then obtain h e where "x = (h, ?g h e)" by auto
    then show "resolved_entry (snd x)" using res[of h e] x(2) by (simp only: fst_conv snd_conv)
  qed
  moreover obtain l' where l': "l' = map (\<lambda>(h, e). (h, ?g h e)) (lw_ledger w)" by blast
  moreover have "map fst l' = map fst (lw_ledger w)" "ledger_txs l' = ledger_txs (lw_ledger w)" unfolding l' keys txs by simp_all
  ultimately show ?thesis using inv unfolding r l'[symmetric] ledger_inv_def heights_above_def by simp
qed

lemma ledger_inv_retreat:
  assumes inv: "ledger_inv w" and c: "c \<le> lw_cursor w" and t: "take_rolled_out c (lw_ledger w) = (txs, l)"
  shows "ledger_inv (w\<lparr>lw_ledger := l, lw_cursor := c, lw_handed_back := lw_handed_back w + mset txs\<rparr>)"
proof -
  let ?R = "\<lambda>x :: u64 \<times> in_flight_batch. c + 1 \<le> fst x \<and> resolved_entry (snd x)"
  have l: "l = filter (\<lambda>x. \<not> ?R x) (lw_ledger w)" and txs: "mset txs = ledger_txs (filter ?R (lw_ledger w))"
    using t by (auto simp: take_rolled_out_def Let_def ledger_txs_def case_prod_unfold comp_def)
  have above: "heights_above c l = heights_above (lw_cursor w) l"
    unfolding heights_above_def
  proof (rule filter_cong[OF refl])
    fix h assume "h \<in> set (map fst l)"
    then obtain x where x: "x \<in> set (lw_ledger w)" "\<not> ?R x" "h = fst x" unfolding l by auto
    show "c < h \<longleftrightarrow> lw_cursor w < h"
    proof
      assume ch: "c < h"
      then have "c + 1 \<le> fst x" using x(3) succ_le[OF ch] by simp
      then have "\<not> resolved_entry (snd x)" using x(2) by simp
      then show "lw_cursor w < h" using inv x(1,3) unfolding ledger_inv_def by (meson not_le)
    qed (use c in auto)
  qed
  have "length (heights_above (lw_cursor w) l) \<le> 1" using inv heights_filter order_trans unfolding l ledger_inv_def by blast
  moreover have "ledger_txs (lw_ledger w) = ledger_txs l + mset txs" unfolding l txs using txs_filter[of ?R "lw_ledger w"] by (simp add: ac_simps)
  moreover have "\<forall>x \<in> set l. fst x \<le> c \<longrightarrow> resolved_entry (snd x)" using inv c unfolding l ledger_inv_def by auto
  moreover have "sorted_wrt (<) (map fst l)" using inv sorted_keys_filter unfolding l ledger_inv_def by blast
  ultimately show ?thesis using inv unfolding ledger_inv_def by (simp add: above ac_simps)
qed

lemma find_in: "List.find P xs = Some x \<Longrightarrow> x \<in> set xs \<and> P x"
  by (auto simp: find_Some_iff)

lemma take_failed_Some:
  assumes inv: "ledger_inv w" and t: "take_failed_for_recovery (lw_cursor w) (lw_ledger w) = (Some b, l)"
  shows "l = btree_remove (fb_sync_height b) (lw_ledger w)" "lw_cursor w < fb_sync_height b"
    "ledger_txs (lw_ledger w) = mset (fb_txs b) + ledger_txs l" "fb_sync_height b \<notin> fst ` set l"
    "fb_sync_height b \<in> fst ` set (lw_ledger w)"
proof -
  obtain h e where f: "List.find (\<lambda>(_, e). ib_resolution e = FailedBundle) (range_above (lw_cursor w) (lw_ledger w)) = Some (h, e)"
    and b: "fb_sync_height b = h" "fb_txs b = ib_txs e" and l: "l = btree_remove h (lw_ledger w)"
    using t by (auto simp: take_failed_for_recovery_def split: option.splits)
  have m: "(h, e) \<in> set (lw_ledger w)" "ib_resolution e = FailedBundle" using find_in[OF f] by (auto simp: range_above_def)
  then show "fb_sync_height b \<in> fst ` set (lw_ledger w)" using b(1) by force
  have "\<not> h \<le> lw_cursor w" using inv m unfolding ledger_inv_def by fastforce
  then show "lw_cursor w < fb_sync_height b" using b(1) by simp
  show "l = btree_remove (fb_sync_height b) (lw_ledger w)" using l b by simp
  have so: "sorted_wrt (<) (map fst (lw_ledger w))" using inv by (simp add: ledger_inv_def)
  show "ledger_txs (lw_ledger w) = mset (fb_txs b) + ledger_txs l" "fb_sync_height b \<notin> fst ` set l"
    using remove_found[OF so m(1)] by (simp_all add: l b)
qed

lemma heights_remove:
  "k \<in> fst ` set l \<Longrightarrow> c < k \<Longrightarrow> length (heights_above c (btree_remove k l)) < length (heights_above c l)"
proof (induction l)
  case (Cons x l)
  have le: "length (heights_above c (btree_remove k l)) \<le> length (heights_above c l)"
    unfolding btree_remove_def by (rule heights_filter)
  show ?case using Cons le by (cases "fst x = k") (auto simp: btree_remove_def heights_above_def split: prod.splits)
qed simp

lemma ledger_inv_recover:
  assumes inv: "ledger_inv w" and t: "take_failed_for_recovery (lw_cursor w) (lw_ledger w) = (Some b, l)"
  shows "ledger_inv (w\<lparr>lw_ledger := l, lw_handed_back := lw_handed_back w + mset (fb_txs b)\<rparr>)"
proof -
  note tf = take_failed_Some[OF inv t]
  have "length (heights_above (lw_cursor w) l) \<le> 1" "sorted_wrt (<) (map fst l)" "set l \<subseteq> set (lw_ledger w)"
    using inv heights_filter order_trans sorted_keys_filter unfolding tf(1) btree_remove_def ledger_inv_def by (blast, blast, auto)
  then show ?thesis using inv tf(3) unfolding ledger_inv_def by (auto simp: ac_simps)
qed

lemma ledger_inv_recovery_error:
  assumes inv: "ledger_inv w" and t: "take_failed_for_recovery (lw_cursor w) (lw_ledger w) = (Some b, l)"
  shows "ledger_inv (w\<lparr>lw_ledger := reinsert_failed b l\<rparr>)"
proof -
  note tf = take_failed_Some[OF inv t]
  let ?e = "\<lparr>ib_txs = fb_txs b, ib_post_batch_hash = fb_post_batch_hash b, ib_parent = fb_parent b, ib_resolution = FailedBundle,
      ib_cursor_confirmed = False, ib_slot_skipped = fb_slot_skipped b\<rparr>"
  have r: "reinsert_failed b l = btree_insert (fb_sync_height b) ?e l" by (simp add: reinsert_failed_def)
  have sub: "set l \<subseteq> set (lw_ledger w)" unfolding tf(1) btree_remove_def by auto
  have "length (heights_above (lw_cursor w) l) < length (heights_above (lw_cursor w) (lw_ledger w))"
    unfolding tf(1) by (rule heights_remove[OF tf(5,2)])
  then have "length (heights_above (lw_cursor w) l) = 0" using inv unfolding ledger_inv_def by linarith
  then have "length (heights_above (lw_cursor w) (reinsert_failed b l)) \<le> 1"
    unfolding r insert_fresh(2)[OF tf(4)] by simp
  moreover have "ledger_txs (reinsert_failed b l) = ledger_txs (lw_ledger w)" unfolding r insert_fresh(1)[OF tf(4)] tf(3) by simp
  moreover have "sorted_wrt (<) (map fst (reinsert_failed b l))"
    unfolding r using inv sorted_insert sorted_keys_filter unfolding tf(1) btree_remove_def ledger_inv_def by blast
  moreover have "\<forall>x \<in> set (reinsert_failed b l). fst x \<le> lw_cursor w \<longrightarrow> resolved_entry (snd x)"
  proof (intro ballI impI)
    fix x assume x: "x \<in> set (reinsert_failed b l)" "fst x \<le> lw_cursor w"
    then have "x \<in> set (lw_ledger w)" using set_insert[of "fb_sync_height b" ?e l] sub tf(2) unfolding r by auto
    then show "resolved_entry (snd x)" using inv x(2) unfolding ledger_inv_def by blast
  qed
  ultimately show ?thesis using inv unfolding ledger_inv_def by simp
qed

lemma modify_txs:
  assumes "sorted_wrt (<) (map fst l)" "(h, e) \<in> set l"
  shows "ledger_txs (btree_modify h f l) + mset (ib_txs e) = ledger_txs l + mset (ib_txs (f e))"
  using assms
proof (induction l)
  case (Cons x l)
  show ?case
  proof (cases "x = (h, e)")
    case True
    then have "btree_modify h f l = l" using Cons.prems(1) by (auto simp: btree_modify_def intro!: map_idI)
    then show ?thesis using True by (simp add: btree_modify_def ac_simps)
  next
    case False
    then have "(h, e) \<in> set l" "fst x \<noteq> h" using Cons.prems by auto
    then show ?thesis using Cons by (cases x) (simp add: btree_modify_def ac_simps)
  qed
qed simp

lemma ledger_inv_dispose:
  assumes inv: "ledger_inv w" and p: "partial_to_dispose (lw_cursor w) (lw_ledger w) = Some b"
    and c: "claim_partial (fb_sync_height b) (fb_post_batch_hash b) (filter spent (fb_txs b)) (lw_ledger w) = (True, l)"
  shows "ledger_inv (w\<lparr>lw_ledger := l, lw_handed_back := lw_handed_back w + mset (filter (\<lambda>tx. \<not> spent tx) (fb_txs b))\<rparr>)"
proof -
  let ?f = "\<lambda>e. e\<lparr>ib_txs := filter spent (fb_txs b), ib_resolution := Settled, ib_cursor_confirmed := True\<rparr>"
  obtain h e where f: "List.find (\<lambda>(_, e). ib_resolution e = SettledPartial) (range_upto (lw_cursor w) (lw_ledger w)) = Some (h, e)"
    and b: "fb_sync_height b = h" "fb_txs b = ib_txs e"
    using p by (auto simp: partial_to_dispose_def)
  have m: "(h, e) \<in> set (lw_ledger w)" using find_in[OF f] by (auto simp: range_upto_def)
  have l: "l = btree_modify h ?f (lw_ledger w)" using c by (auto simp: claim_partial_def b(1) split: option.splits if_splits)
  have so: "sorted_wrt (<) (map fst (lw_ledger w))" using inv by (simp add: ledger_inv_def)
  have split: "mset (ib_txs e) = mset (filter spent (fb_txs b)) + mset (filter (\<lambda>tx. \<not> spent tx) (fb_txs b))"
    by (simp add: b(2))
  have "ledger_txs l + mset (ib_txs e) = ledger_txs (lw_ledger w) + mset (filter spent (fb_txs b))"
    using modify_txs[OF so m, of ?f] unfolding l by simp
  then have "mset (filter spent (fb_txs b)) + (ledger_txs l + mset (filter (\<lambda>tx. \<not> spent tx) (fb_txs b)))
      = mset (filter spent (fb_txs b)) + ledger_txs (lw_ledger w)" unfolding split by (simp only: ac_simps)
  then have "ledger_txs (lw_ledger w) = ledger_txs l + mset (filter (\<lambda>tx. \<not> spent tx) (fb_txs b))"
    by (simp only: add_left_cancel)
  moreover have "\<forall>x \<in> set l. fst x \<le> lw_cursor w \<longrightarrow> resolved_entry (snd x)"
  proof (intro ballI impI)
    fix x assume x: "x \<in> set l" "fst x \<le> lw_cursor w"
    then obtain e' where "(fst x, e') \<in> set (lw_ledger w)" "snd x = (if fst x = h then ?f e' else e')" using set_modify unfolding l by blast
    then show "resolved_entry (snd x)" using inv x(2) unfolding ledger_inv_def by fastforce
  qed
  ultimately show ?thesis using inv unfolding ledger_inv_def by (simp add: l heights_above_def ac_simps)
qed

lemma ledger_inv_finalize:
  assumes inv: "ledger_inv w" and t: "take_finalized f (lw_ledger w) = (batches, l)"
  shows "ledger_inv (w\<lparr>lw_ledger := l, lw_handed_back := lw_handed_back w + mset (concat (map (\<lambda>(_, _, txs). txs) batches))\<rparr>)"
proof -
  let ?F = "\<lambda>x :: u64 \<times> in_flight_batch. fst x \<le> f \<and> ib_resolution (snd x) = Settled"
  have l: "l = filter (\<lambda>x. \<not> ?F x) (lw_ledger w)"
    and txs: "mset (concat (map (\<lambda>(_, _, txs). txs) batches)) = ledger_txs (filter ?F (lw_ledger w))"
    using t by (auto simp: take_finalized_def Let_def ledger_txs_def case_prod_unfold comp_def)
  have "length (heights_above (lw_cursor w) l) \<le> 1" "sorted_wrt (<) (map fst l)" "set l \<subseteq> set (lw_ledger w)"
    using inv heights_filter order_trans sorted_keys_filter unfolding l ledger_inv_def by (blast, blast, auto)
  moreover have "ledger_txs (lw_ledger w) = ledger_txs l + ledger_txs (filter ?F (lw_ledger w))"
    unfolding l using txs_filter[of ?F "lw_ledger w"] by (simp add: ac_simps)
  ultimately show ?thesis using inv unfolding ledger_inv_def txs by (auto simp: ac_simps)
qed

lemma ledger_inv_step: "ledger_step w w' \<Longrightarrow> ledger_inv w \<Longrightarrow> ledger_inv w'"
proof (induction rule: ledger_step.induct)
  case (settled w h pbh)
  then show ?case unfolding mark_settled_def by (rule ledger_inv_modify) auto
next
  case (settled_partial w h pbh)
  then show ?case unfolding mark_settled_partial_def by (rule ledger_inv_modify) auto
next
  case (failed w h pbh skipped)
  then show ?case unfolding mark_failed_def by (rule ledger_inv_modify) auto
next
  case (retreat c w txs l)
  then show ?case using ledger_inv_retreat by blast
next
  case (dispose w b spent l)
  then show ?case using ledger_inv_dispose by blast
qed (simp_all add: ledger_inv_emit ledger_inv_advance ledger_inv_recover ledger_inv_recovery_error ledger_inv_finalize)

lemma ledger_inv_reachable: "ledger_reachable w \<Longrightarrow> ledger_inv w"
proof (induction rule: ledger_reachable.induct)
  case (start cursor)
  then show ?case by (simp add: ledger_inv_def ledger_start_def heights_above_def)
qed (simp add: ledger_inv_step)

section \<open>Properties\<close>

definition example_batch_tx :: held_tx where
  "example_batch_tx = example_held 0"

definition example_ledger :: ledger where
  "example_ledger = ledger_begin 7 1 (\<lparr>lh_number = 6, lh_parent_hash = 5, lh_fields = []\<rparr>, 6) [example_batch_tx] []"

lemma example_ledger_reachable:
  "ledger_reachable \<lparr>lw_ledger = mark_failed 7 1 False example_ledger, lw_cursor = 6, lw_begun = {#example_batch_tx#}, lw_handed_back = {#}\<rparr>"
proof -
  let ?w = "(ledger_start 6)\<lparr>lw_ledger := example_ledger, lw_begun := {#example_batch_tx#}\<rparr>"
  have "ledger_step (ledger_start 6) ((ledger_start 6)\<lparr>lw_ledger := ledger_begin 7 1 (\<lparr>lh_number = 6, lh_parent_hash = 5, lh_fields = []\<rparr>, 6) [example_batch_tx]
      (lw_ledger (ledger_start 6)), lw_begun := lw_begun (ledger_start 6) + mset [example_batch_tx]\<rparr>)"
    by (rule ledger_step.emit) (simp_all add: ledger_start_def blocking_height_def range_above_def)
  then have "ledger_reachable ?w" using ledger_reachable.intros by (fastforce simp: example_ledger_def ledger_start_def)
  moreover have "ledger_step ?w (?w\<lparr>lw_ledger := mark_failed 7 1 False (lw_ledger ?w)\<rparr>)" by (rule ledger_step.failed)
  ultimately have "ledger_reachable (?w\<lparr>lw_ledger := mark_failed 7 1 False (lw_ledger ?w)\<rparr>)" by (rule ledger_reachable.step)
  then show ?thesis by (simp add: ledger_start_def)
qed



end
