(* ===== verification/Slot_Timing.thy ===== *)
theory Slot_Timing
  imports Prelude
begin

text \<open>
  The clock of a rollup (\<^verbatim>\<open>crates/eez-driver/src/timing.rs\<close>): the four durations of a configuration and their validation,
  the split of a sync slot into Live, Future and Sync blocks, what a trigger produces from a given head, and the boundary of
  a bounded settlement chunk. Millisecond fields are 32-bit words and block heights 64-bit words, with the saturating
  operations of the source. The derived counts divide by the L2 block time; they are read after validation has made it nonzero.
\<close>

section \<open>Configuration\<close>

definition MAX_BLOCKS_PER_CATCHUP :: u64 where
  "MAX_BLOCKS_PER_CATCHUP = 300"

definition MAX_BLOCKS_PER_BATCH :: u64 where
  "MAX_BLOCKS_PER_BATCH = MAX_BLOCKS_PER_CATCHUP"

definition DEFAULT_SUBMISSION_SLACK_MS :: u32 where
  "DEFAULT_SUBMISSION_SLACK_MS = 100"

definition saturating_mul_word :: "'a::len word \<Rightarrow> 'a word \<Rightarrow> 'a word" where
  "saturating_mul_word a b = (if unat a * unat b < 2 ^ LENGTH('a) then a * b else - 1)"

definition div_ceil :: "u64 \<Rightarrow> u64 \<Rightarrow> u64" where
  "div_ceil a b = (if a mod b > 0 then a div b + 1 else a div b)"

record rollup_timing =
  l1_block_time_ms :: u32
  l2_block_time_ms :: u32
  proof_time_ms :: u32
  submission_slack_ms :: u32

datatype parse_int_error = Empty | InvalidDigit | PosOverflow

datatype timing_error =
    ZeroField
  | FractionalL2BlockTime u32
  | NonIntegerK u32 u32
  | KTooSmall u32
  | BudgetReachesL1BlockTime u32 u32 u32
  | BudgetExceedsFutureRegion u32 u32 u32 u32 u32
  | EnvRequired string
  | EnvMalformed string parse_int_error
  | EnvNotUnicode string

definition timing_k :: "rollup_timing \<Rightarrow> u32" where
  "timing_k t = l1_block_time_ms t div l2_block_time_ms t"

definition budget_ms :: "rollup_timing \<Rightarrow> u32" where
  "budget_ms t = saturating_add_word (proof_time_ms t) (submission_slack_ms t)"

definition timing_validate :: "rollup_timing \<Rightarrow> timing_error + unit" where
  "timing_validate t =
     (if l1_block_time_ms t = 0 \<or> l2_block_time_ms t = 0 \<or> proof_time_ms t = 0 then Inl ZeroField
      else if l2_block_time_ms t mod 1000 \<noteq> 0 then Inl (FractionalL2BlockTime (l2_block_time_ms t))
      else if l1_block_time_ms t mod l2_block_time_ms t \<noteq> 0 then Inl (NonIntegerK (l1_block_time_ms t) (l2_block_time_ms t))
      else if timing_k t < 2 then Inl (KTooSmall (timing_k t))
      else if l1_block_time_ms t \<le> budget_ms t
        then Inl (BudgetReachesL1BlockTime (proof_time_ms t) (submission_slack_ms t) (l1_block_time_ms t))
      else let max_budget = (timing_k t - 1) * l2_block_time_ms t in
        if max_budget < budget_ms t
        then Inl (BudgetExceedsFutureRegion (proof_time_ms t) (submission_slack_ms t) (timing_k t - 1) (l2_block_time_ms t) max_budget)
        else Inr ())"

section \<open>Environment\<close>

text \<open>The outcome of reading a variable, and the decimal parser of the standard library for 32-bit words.\<close>

datatype env_var = NotPresent | NotUnicode | EnvValue string

fun parse_digits :: "nat \<Rightarrow> string \<Rightarrow> parse_int_error + u32" where
  "parse_digits acc [] = Inr (of_nat acc)"
| "parse_digits acc (c # cs) =
     (let d = of_char c - 48 :: int in
      if d < 0 \<or> 9 < d then Inl InvalidDigit
      else let acc' = acc * 10 + nat d in if 2 ^ 32 \<le> acc' then Inl PosOverflow else parse_digits acc' cs)"

fun parse_u32 :: "string \<Rightarrow> parse_int_error + u32" where
  "parse_u32 [] = Inl Empty"
| "parse_u32 (c # cs) = (if c = CHR ''+'' \<and> cs \<noteq> [] then parse_digits 0 cs else parse_digits 0 (c # cs))"

definition parse_env :: "(string \<Rightarrow> env_var) \<Rightarrow> string \<Rightarrow> timing_error + u32" where
  "parse_env env name = (case env name of
       EnvValue raw \<Rightarrow> map_err (EnvMalformed name) (parse_u32 raw)
     | _ \<Rightarrow> Inl (EnvRequired name))"

definition parse_env_or :: "(string \<Rightarrow> env_var) \<Rightarrow> string \<Rightarrow> u32 \<Rightarrow> timing_error + u32" where
  "parse_env_or env name dflt = (case env name of
       EnvValue v \<Rightarrow> map_err (EnvMalformed name) (parse_u32 v)
     | NotPresent \<Rightarrow> Inr dflt
     | NotUnicode \<Rightarrow> Inl (EnvNotUnicode name))"

definition from_env :: "(string \<Rightarrow> env_var) \<Rightarrow> timing_error + rollup_timing" where
  "from_env env =
     and_then (parse_env env ''EEZ_L1_BLOCK_TIME_MS'') (\<lambda>l1.
     and_then (parse_env env ''EEZ_L2_BLOCK_TIME_MS'') (\<lambda>l2.
     and_then (parse_env env ''EEZ_PROOF_TIME_MS'') (\<lambda>p.
     and_then (parse_env_or env ''EEZ_SUBMISSION_SLACK_MS'' DEFAULT_SUBMISSION_SLACK_MS) (\<lambda>s.
     let t = \<lparr>l1_block_time_ms = l1, l2_block_time_ms = l2, proof_time_ms = p, submission_slack_ms = s\<rparr> in
     and_then (timing_validate t) (\<lambda>_. Inr t)))))"

section \<open>The layout of a slot\<close>

definition future_count :: "rollup_timing \<Rightarrow> u32" where
  "future_count t =
     (let blocks = saturating_sub_word (saturating_add_word (budget_ms t) (l2_block_time_ms t)) 1 div l2_block_time_ms t in
      saturating_sub_word blocks 1)"

definition live_count :: "rollup_timing \<Rightarrow> u32" where
  "live_count t = timing_k t - future_count t - 1"

definition proof_window_open :: "rollup_timing \<Rightarrow> u64" where
  "proof_window_open t =
     (let reserved_ms = saturating_mul_word (future_count t + 1) (l2_block_time_ms t) in
      ucast (saturating_sub_word (l1_block_time_ms t) reserved_ms))"

definition submission_deadline :: "rollup_timing \<Rightarrow> u64" where
  "submission_deadline t = ucast (l1_block_time_ms t - submission_slack_ms t)"

datatype slot_composition = Idle | Catchup u64 | Slot u64 u64

definition per_trigger_composition :: "rollup_timing \<Rightarrow> u64 \<Rightarrow> u64 \<Rightarrow> u64 \<Rightarrow> slot_composition" where
  "per_trigger_composition t head_block sync_slot_block max_catchup_blocks =
     (if sync_slot_block \<le> head_block then Idle
      else
        let future = ucast (future_count t);
            k = ucast (timing_k t);
            live_region_end = saturating_sub_word sync_slot_block (future + 1)
        in if head_block < live_region_end
          then
            let live_to_produce = live_region_end - head_block in
            if live_to_produce \<le> saturating_sub_word k (future + 1) then Slot live_to_produce future
            else
              let gap = sync_slot_block - head_block;
                  steps_back = div_ceil (saturating_sub_word gap max_catchup_blocks) k;
                  snap = saturating_mul_word steps_back k
              in if sync_slot_block \<le> snap \<or> sync_slot_block - snap \<le> head_block then Idle
                else Catchup (sync_slot_block - snap - head_block - 1)
          else
            let in_future = head_block - live_region_end in
            Slot 0 (saturating_sub_word future in_future))"

definition historical_chunk_boundary :: "rollup_timing \<Rightarrow> u64 \<Rightarrow> u64 \<Rightarrow> u64 \<Rightarrow> u64 option" where
  "historical_chunk_boundary t cursor sync_height cap =
     (let k = ucast (timing_k t);
          over = saturating_sub_word sync_height (saturating_add_word cursor cap)
      in case checked_sub_word sync_height (saturating_mul_word (div_ceil over k) k) of
           None \<Rightarrow> None
         | Some boundary \<Rightarrow> if cursor < boundary \<and> boundary < sync_height then Some boundary else None)"

section \<open>Arithmetic on naturals\<close>

lemma unat_saturating_mul:
  fixes a b :: "'a::len word"
  assumes "unat a * unat b < 2 ^ LENGTH('a)"
  shows "unat (saturating_mul_word a b) = unat a * unat b"
  using assms by (simp add: saturating_mul_word_def unat_mult_lem)

lemma saturating_mul_large:
  fixes a b :: "'a::len word"
  assumes "\<not> unat a * unat b < 2 ^ LENGTH('a)"
  shows "c \<le> saturating_mul_word a b"
  using assms by (simp add: saturating_mul_word_def)

lemma unat_ucast_u64 [simp]: "unat (ucast (x :: u32) :: u64) = unat x"
  using unat_lt_len[of x] by (simp add: unsigned_ucast_eq take_bit_nat_eq_self)

lemma div_quotient: "r < b \<Longrightarrow> (b * q + r) div b = q" for b q r :: nat
  by (cases "b = 0") simp_all

lemma ceil_div_nat: "0 < b \<Longrightarrow> (a + b - 1) div b = (if 0 < a mod b then a div b + 1 else a div b)" for a b :: nat
proof -
  assume b: "0 < b"
  have a: "a = b * (a div b) + a mod b" by simp
  show ?thesis
  proof (cases "a mod b")
    case 0
    then have "a + b - 1 = b * (a div b) + (b - 1)" using a b by linarith
    moreover have "b - 1 < b" using b by simp
    ultimately show ?thesis using 0 div_quotient[of "b - 1" b "a div b"] by (simp only: less_irrefl if_False)
  next
    case (Suc r)
    then have "a + b - 1 = b * (a div b + 1) + r" using a b by (simp add: algebra_simps)
    moreover have "r < b" using Suc b mod_less_divisor[of b a] by linarith
    ultimately show ?thesis using Suc div_quotient[of r b "a div b + 1"] by simp
  qed
qed

lemma unat_div_ceil:
  assumes "0 < unat b"
  shows "unat (div_ceil a b) = (unat a + unat b - 1) div unat b"
proof -
  have "unat (a div b) + 1 < 2 ^ 64" if "0 < unat a mod unat b"
  proof -
    have "0 < unat a" using that by (cases "unat a") auto
    then have "unat a div unat b < unat a \<or> unat b = 1" using assms that by (cases "unat b = 1") (auto intro: div_less_dividend)
    then show ?thesis using that unat_lt_len[of a] by (auto simp: unat_div_distrib)
  qed
  then show ?thesis
    using assms ceil_div_nat[OF assms, of "unat a"] by (auto simp: div_ceil_def word_less_nat_alt unat_div_distrib unat_mod_distrib unat_add_no_overflow)
qed

lemma ceil_mult_bounds: "0 < k \<Longrightarrow> a \<le> (a + k - 1) div k * k \<and> (a + k - 1) div k * k < a + k" for a k :: nat
  using div_mult_mod_eq[of "a + k - 1" k] mod_less_divisor[of k "a + k - 1"] by linarith

section \<open>Validated configurations\<close>

definition well_timed :: "rollup_timing \<Rightarrow> bool" where
  "well_timed t \<longleftrightarrow> 0 < unat (l2_block_time_ms t) \<and> 1000 dvd unat (l2_block_time_ms t)
     \<and> unat (l2_block_time_ms t) dvd unat (l1_block_time_ms t) \<and> 0 < unat (proof_time_ms t)
     \<and> unat (proof_time_ms t) + unat (submission_slack_ms t) + unat (l2_block_time_ms t) \<le> unat (l1_block_time_ms t)"

lemma unat_timing_k: "unat (timing_k t) = unat (l1_block_time_ms t) div unat (l2_block_time_ms t)"
  by (simp add: timing_k_def unat_div_distrib)

lemma unat_budget: "unat (budget_ms t) = min (unat (proof_time_ms t) + unat (submission_slack_ms t)) (2 ^ 32 - 1)"
  by (simp add: budget_ms_def unat_saturating_add)

lemma max_budget:
  assumes "2 \<le> unat (timing_k t)" "unat (l2_block_time_ms t) dvd unat (l1_block_time_ms t)"
  shows "unat ((timing_k t - 1) * l2_block_time_ms t) = unat (l1_block_time_ms t) - unat (l2_block_time_ms t)"
proof -
  have k: "unat (timing_k t - 1) = unat (timing_k t) - 1"
    using assms(1) by (simp add: unat_sub word_le_nat_alt)
  have "unat (timing_k t) * unat (l2_block_time_ms t) = unat (l1_block_time_ms t)"
    using assms(2) by (simp add: unat_timing_k)
  then have "unat (timing_k t - 1) * unat (l2_block_time_ms t) = unat (l1_block_time_ms t) - unat (l2_block_time_ms t)"
    by (simp add: k diff_mult_distrib)
  moreover from this have "unat (timing_k t - 1) * unat (l2_block_time_ms t) < 2 ^ 32"
    using unat_lt_len[of "l1_block_time_ms t"] by simp
  ultimately show ?thesis using unat_mult_lem[of "timing_k t - 1" "l2_block_time_ms t"] by simp
qed

lemma word_mod_eq_0: "x mod y = 0 \<longleftrightarrow> unat y dvd unat x" for x y :: "'a::len word"
  by (simp add: dvd_eq_mod_eq_0 unsigned_eq_0_iff flip: unat_mod_distrib)

lemma two_blocks: "0 < l2 \<Longrightarrow> l2 dvd l1 \<Longrightarrow> 2 \<le> l1 div l2 \<longleftrightarrow> 2 * l2 \<le> l1" for l1 l2 :: nat
  by (metis div_le_mono dvd_div_mult_self mult_le_mono1 nonzero_mult_div_cancel_right not_gr_zero)

lemma two_multiples: "l2 dvd l1 \<Longrightarrow> l2 < l1 \<Longrightarrow> 2 * l2 \<le> l1" for l1 l2 :: nat
proof (elim dvdE)
  fix m assume "l2 < l1" "l1 = l2 * m"
  then have "2 \<le> m" by (cases m) (auto simp: Suc_le_eq)
  then show ?thesis using \<open>l1 = l2 * m\<close> by (simp add: mult.commute)
qed

lemma validate_well_timed: "timing_validate t = Inr () \<longleftrightarrow> well_timed t"
proof (cases "0 < unat (l2_block_time_ms t) \<and> 1000 dvd unat (l2_block_time_ms t) \<and> unat (l2_block_time_ms t) dvd unat (l1_block_time_ms t)")
  case False
  then show ?thesis by (auto simp: timing_validate_def well_timed_def word_mod_eq_0 unat_gt_0)
next
  case True
  let ?l1 = "unat (l1_block_time_ms t)" and ?l2 = "unat (l2_block_time_ms t)"
    and ?b = "unat (proof_time_ms t) + unat (submission_slack_ms t)"
  have l1: "?l1 < 2 ^ 32" using unat_lt_len[of "l1_block_time_ms t"] by simp
  have k: "2 \<le> unat (timing_k t) \<longleftrightarrow> 2 * ?l2 \<le> ?l1" using True by (simp add: unat_timing_k two_blocks)
  have "timing_validate t = Inr () \<longleftrightarrow> 0 < ?l1 \<and> 0 < unat (proof_time_ms t) \<and> 2 \<le> unat (timing_k t)
      \<and> unat (budget_ms t) < ?l1 \<and> unat (budget_ms t) \<le> unat ((timing_k t - 1) * l2_block_time_ms t)"
    using True by (auto simp: timing_validate_def Let_def word_mod_eq_0 word_less_nat_alt word_le_nat_alt unat_gt_0)
  also have "\<dots> \<longleftrightarrow> 0 < unat (proof_time_ms t) \<and> 2 * ?l2 \<le> ?l1 \<and> unat (budget_ms t) + ?l2 \<le> ?l1"
    using True k max_budget[of t] by auto
  also have "\<dots> \<longleftrightarrow> well_timed t"
    using True l1 two_multiples[of ?l2 ?l1] by (auto simp: well_timed_def unat_budget min_def)
  finally show ?thesis .
qed

section \<open>The slot in a validated configuration\<close>

lemma well_timed_budget:
  "well_timed t \<Longrightarrow> unat (budget_ms t) = unat (proof_time_ms t) + unat (submission_slack_ms t)"
  using unat_lt_len[of "l1_block_time_ms t"] by (simp add: well_timed_def unat_budget)

lemma unat_future_count:
  assumes "well_timed t"
  shows "unat (future_count t)
    = (unat (proof_time_ms t) + unat (submission_slack_ms t) + unat (l2_block_time_ms t) - 1) div unat (l2_block_time_ms t) - 1"
  using assms unat_lt_len[of "l1_block_time_ms t"]
  by (simp add: future_count_def Let_def unat_saturating_sub unat_saturating_add unat_div_distrib well_timed_budget)
    (simp add: well_timed_def)

lemma slot_shape:
  assumes "well_timed t"
  shows "unat (future_count t) + 2 \<le> unat (timing_k t)"
    and "unat (timing_k t) * unat (l2_block_time_ms t) = unat (l1_block_time_ms t)"
    and "unat (proof_time_ms t) + unat (submission_slack_ms t) \<le> (unat (future_count t) + 1) * unat (l2_block_time_ms t)"
    and "unat (future_count t) * unat (l2_block_time_ms t) < unat (proof_time_ms t) + unat (submission_slack_ms t)"
proof -
  let ?l1 = "unat (l1_block_time_ms t)" and ?l2 = "unat (l2_block_time_ms t)"
    and ?b = "unat (proof_time_ms t) + unat (submission_slack_ms t)" and ?f = "unat (future_count t)"
  have t: "0 < ?l2" "?l2 dvd ?l1" "0 < ?b" "?b + ?l2 \<le> ?l1" using assms by (auto simp: well_timed_def)
  have "1 \<le> (?b + ?l2 - 1) div ?l2" using t by (simp add: Suc_le_eq div_greater_zero_iff del: add_gr_0)
  then have f: "(?b + ?l2 - 1) div ?l2 = ?f + 1" using unat_future_count[OF assms] by linarith
  have b: "?b \<le> (?f + 1) * ?l2" "(?f + 1) * ?l2 < ?b + ?l2" using ceil_mult_bounds[OF t(1), of ?b] by (simp_all only: f)
  show k: "unat (timing_k t) * ?l2 = ?l1" using t by (simp add: unat_timing_k)
  show "?b \<le> (?f + 1) * ?l2" by (fact b(1))
  show "?f * ?l2 < ?b" using b(2) by simp
  have "(?f + 1) * ?l2 < unat (timing_k t) * ?l2" using b(2) t(4) k by linarith
  then show "?f + 2 \<le> unat (timing_k t)" by (simp only: mult_less_cancel2) simp
qed

lemma unat_live_count: "well_timed t \<Longrightarrow> unat (live_count t) = unat (timing_k t) - unat (future_count t) - 1"
  using slot_shape(1)[of t] by (simp add: live_count_def unat_sub word_le_nat_alt)

text \<open>
  C31. Accepted timing leaves room for the proof: in a configuration that validation accepts, the Live, Future and Sync blocks
  are the K blocks of a slot and at least one is Live, the Sync block and the Future blocks cover the proof time and the
  submission slack and no shorter run of blocks does, and the trigger fires a whole number of seconds after the L1 block, the
  reserved blocks before the next one, so that a proof started then reaches the relay by the submission deadline.
\<close>
theorem slot_leaves_room_for_proof:
  assumes "timing_validate t = Inr ()"
  shows "unat (live_count t) + unat (future_count t) + 1 = unat (timing_k t) \<and> 1 \<le> unat (live_count t)
    \<and> unat (timing_k t) * unat (l2_block_time_ms t) = unat (l1_block_time_ms t)
    \<and> unat (proof_time_ms t) + unat (submission_slack_ms t) \<le> (unat (future_count t) + 1) * unat (l2_block_time_ms t)
    \<and> unat (future_count t) * unat (l2_block_time_ms t) < unat (proof_time_ms t) + unat (submission_slack_ms t)
    \<and> unat (proof_window_open t) + (unat (future_count t) + 1) * unat (l2_block_time_ms t) = unat (l1_block_time_ms t)
    \<and> 1000 dvd unat (proof_window_open t)
    \<and> unat (proof_window_open t) + unat (proof_time_ms t) \<le> unat (submission_deadline t)"
proof -
  have t: "well_timed t" using assms by (simp add: validate_well_timed)
  note shape = slot_shape[OF t]
  let ?l1 = "unat (l1_block_time_ms t)" and ?l2 = "unat (l2_block_time_ms t)" and ?f = "unat (future_count t)"
  have l1: "?l1 < 2 ^ 32" using unat_lt_len[of "l1_block_time_ms t"] by simp
  note live = unat_live_count[OF t]
  have "unat (timing_k t) < 2 ^ 32" using unat_lt_len[of "timing_k t"] by simp
  then have f1: "unat (future_count t + 1) = ?f + 1" using shape(1) by (simp add: unat_add_no_overflow)
  have res: "(?f + 1) * ?l2 \<le> unat (timing_k t) * ?l2" using shape(1) by (intro mult_le_mono1) simp
  then have "unat (future_count t + 1) * ?l2 < 2 ^ 32" using shape(2) l1 by (simp only: f1)
  then have window: "unat (proof_window_open t) = ?l1 - (?f + 1) * ?l2"
    by (simp add: proof_window_open_def unat_saturating_sub unat_saturating_mul f1)
  have "unat (submission_slack_ms t) \<le> ?l1" using t by (simp add: well_timed_def)
  then have deadline: "unat (submission_deadline t) = ?l1 - unat (submission_slack_ms t)"
    by (simp add: submission_deadline_def unat_sub word_le_nat_alt)
  have "1000 dvd ?l2" "?l2 dvd ?l1" using t by (simp_all add: well_timed_def)
  then have "1000 dvd ?l1 - (?f + 1) * ?l2" by (meson dvd_diff_nat dvd_mult dvd_trans)
  then show ?thesis using shape live window deadline res by simp (intro conjI; linarith)
qed

theorem slot_leaves_room_for_proof_witness:
  "timing_validate \<lparr>l1_block_time_ms = 12000, l2_block_time_ms = 2000, proof_time_ms = 4000, submission_slack_ms = 1500\<rparr> = Inr ()
   \<and> unat (proof_window_open \<lparr>l1_block_time_ms = 12000, l2_block_time_ms = 2000, proof_time_ms = 4000, submission_slack_ms = 1500\<rparr>)
     + (unat (future_count \<lparr>l1_block_time_ms = 12000, l2_block_time_ms = 2000, proof_time_ms = 4000, submission_slack_ms = 1500\<rparr>) + 1) * 2000
     = 12000"
  using slot_leaves_room_for_proof[of "\<lparr>l1_block_time_ms = 12000, l2_block_time_ms = 2000, proof_time_ms = 4000, submission_slack_ms = 1500\<rparr>"]
  by (simp add: validate_well_timed well_timed_def)

section \<open>Triggers\<close>

lemma unat_minus_one_nat: "0 < unat w \<Longrightarrow> unat (w - 1) = unat w - 1" for w :: "'a::len word"
  by (simp add: unat_minus_one unat_gt_0)

text \<open>The smallest number of whole slots that covers an excess, in blocks.\<close>

definition whole_slots :: "nat \<Rightarrow> nat \<Rightarrow> nat" where
  "whole_slots k over = (over + k - 1) div k * k"

lemma whole_slots_bounds: "0 < k \<Longrightarrow> over \<le> whole_slots k over \<and> whole_slots k over < over + k"
  unfolding whole_slots_def by (rule ceil_mult_bounds)

lemma whole_slots_residue: "whole_slots k over \<le> sync \<Longrightarrow> (sync - whole_slots k over) mod k = sync mod k"
  by (metis diff_diff_cancel diff_le_self dvd_triv_right mod_eq_dvd_iff_nat whole_slots_def)

lemma whole_slots_least:
  assumes "0 < k" "h \<le> sync" "h mod k = sync mod k" "over \<le> sync - h"
  shows "whole_slots k over \<le> sync - h"
proof -
  have "k dvd sync - h" using mod_eq_dvd_iff_nat[OF assms(2), of k] assms(3) by simp
  then obtain m where m: "sync - h = m * k" by (metis dvdE mult.commute)
  have "(over + k - 1) div k < Suc m"
    using assms m by (simp add: div_less_iff_less_mult)
  then show ?thesis unfolding m whole_slots_def by (intro mult_le_mono1) simp
qed

lemma snap_cases:
  assumes "0 < unat k"
  obtains "unat (saturating_mul_word (div_ceil over k) k) = whole_slots (unat k) (unat over)"
  | "2 ^ 64 \<le> whole_slots (unat k) (unat over)" "saturating_mul_word (div_ceil over k) k = - 1"
proof (cases "unat (div_ceil over k) * unat k < 2 ^ 64")
  case True
  then show ?thesis using that(1) assms by (simp add: unat_saturating_mul unat_div_ceil whole_slots_def)
next
  case False
  then show ?thesis using that(2) assms by (simp add: saturating_mul_word_def unat_div_ceil whole_slots_def)
qed

text \<open>
  C32. A bounded settlement chunk ends on the grid: when the range to the Sync height exceeds the cap, the boundary is the
  greatest height within the cap whose distance to the Sync height is a whole number of slots, if one lies above the cursor.
  Otherwise there is none.
\<close>
theorem chunk_boundary_exact:
  assumes "timing_validate t = Inr ()"
  shows "historical_chunk_boundary t cursor sync_height cap = Some b \<longleftrightarrow>
    unat cursor + unat cap < unat sync_height \<and> cursor < b
    \<and> unat b \<le> unat cursor + unat cap \<and> unat b mod unat (timing_k t) = unat sync_height mod unat (timing_k t)
    \<and> (\<forall>h \<le> unat cursor + unat cap. h mod unat (timing_k t) = unat sync_height mod unat (timing_k t) \<longrightarrow> h \<le> unat b)"
proof -
  let ?k = "unat (timing_k t)" and ?c = "unat cursor" and ?s = "unat sync_height" and ?cap = "unat cap"
  define over where "over = saturating_sub_word sync_height (saturating_add_word cursor cap)"
  define snap where "snap = saturating_mul_word (div_ceil over (ucast (timing_k t))) (ucast (timing_k t))"
  have k: "0 < ?k" using slot_shape(1)[of t] assms by (simp add: validate_well_timed)
  have s: "?s < 2 ^ 64" using unat_lt_len[of sync_height] by simp
  then have over: "unat over = ?s - (?c + ?cap)"
    by (simp add: over_def unat_saturating_sub unat_saturating_add min_def)
  have eq: "historical_chunk_boundary t cursor sync_height cap = Some b \<longleftrightarrow>
      unat snap \<le> ?s \<and> unat b = ?s - unat snap \<and> ?c < unat b \<and> unat b < ?s"
    by (auto simp: historical_chunk_boundary_def Let_def checked_sub_word_def word_le_nat_alt word_less_nat_alt unat_sub
        word_unat_eq_iff simp flip: over_def snap_def)
  let ?W = "whole_slots ?k (unat over)"
  have least: "?W \<le> ?s - h" if "h \<le> ?c + ?cap" "h mod ?k = ?s mod ?k" "?c + ?cap < ?s" for h
    using that k over by (intro whole_slots_least) auto
  have "unat snap = ?W \<or> 2 ^ 64 \<le> ?W \<and> snap = - 1"
    unfolding snap_def by (rule snap_cases[of "ucast (timing_k t)" over]) (use k in simp_all)
  then show ?thesis
  proof
    assume W: "unat snap = ?W"
    have pos: "?c + ?cap < ?s" if "0 < ?W" using that k over whole_slots_bounds[OF k, of "unat over"]
      by (cases "unat over") (auto simp: whole_slots_def)
    note bounds = whole_slots_bounds[OF k, of "unat over"]
    show ?thesis (is "?L \<longleftrightarrow> ?R")
    proof
      assume ?L
      then have b: "?W \<le> ?s" "unat b = ?s - ?W" "?c < unat b" "unat b < ?s" unfolding eq W by auto
      then have c: "?c + ?cap < ?s" using pos by linarith
      have "h \<le> unat b" if "h \<le> ?c + ?cap" "h mod ?k = ?s mod ?k" for h using least[OF that c] b c that by linarith
      moreover have "unat b \<le> ?c + ?cap" using b(2) bounds over by linarith
      ultimately show ?R using b c whole_slots_residue[OF b(1)] by (simp add: word_less_nat_alt)
    next
      assume R: ?R
      then have c: "?c + ?cap < ?s" "?c < unat b" "unat b \<le> ?c + ?cap" by (simp_all add: word_less_nat_alt)
      have W_le: "?W \<le> ?s - unat b" using R least[of "unat b"] by blast
      then have "(?s - ?W) mod ?k = ?s mod ?k" by (intro whole_slots_residue) linarith
      moreover have "?s - ?W \<le> ?c + ?cap" using over bounds c by linarith
      ultimately have "?s - ?W \<le> unat b" using R by blast
      then show ?L unfolding eq W using c W_le by linarith
    qed
  next
    assume "2 ^ 64 \<le> ?W \<and> snap = - 1"
    then show ?thesis unfolding eq word_less_nat_alt using least[of "unat b"] s
      by (auto simp: unsigned_minus_1_eq_mask mask_eq_exp_minus_1)
  qed
qed

theorem chunk_boundary_exact_witness:
  "historical_chunk_boundary \<lparr>l1_block_time_ms = 4000, l2_block_time_ms = 2000, proof_time_ms = 1500, submission_slack_ms = 100\<rparr>
     10 21 6 = Some 15"
proof -
  have "(\<forall>h \<le> 16 :: nat. h mod 2 = 1 \<longrightarrow> h \<le> 15)"
  proof (intro allI impI)
    fix h :: nat assume "h \<le> 16" "h mod 2 = 1"
    then show "h \<le> 15" by (cases "h = 16") auto
  qed
  then show ?thesis
    by (subst chunk_boundary_exact) (simp_all add: validate_well_timed well_timed_def unat_timing_k)
qed

section \<open>What a trigger produces\<close>

lemma word_sub_nat: "b \<le> a \<Longrightarrow> unat (a - b) = unat a - unat b" for a b :: "'a::len word"
  by (rule unat_sub)

text \<open>
  The first slot of a chain whose genesis is off the slot boundary can be shorter than the reserved region. There the trigger
  asks for every Future block and passes its own target.
\<close>

lemma short_first_slot_overshoots:
  "per_trigger_composition \<lparr>l1_block_time_ms = 12000, l2_block_time_ms = 2000, proof_time_ms = 4000, submission_slack_ms = 1500\<rparr>
     0 1 MAX_BLOCKS_PER_CATCHUP = Slot 0 2"
  by (simp add: per_trigger_composition_def future_count_def budget_ms_def saturating_add_word_def saturating_sub_word_def word_le_nat_alt)

lemma unat_future_u64: "well_timed t \<Longrightarrow> unat (ucast (future_count t) + 1 :: u64) = unat (future_count t) + 1"
  using unat_lt_len[of "future_count t"] by (simp add: unat_add_no_overflow)

lemma trigger_cases:
  assumes t: "well_timed t" and F: "unat (future_count t) < unat sync" and lt: "head < sync"
  obtains (suffix) f where "per_trigger_composition t head sync cap = Slot 0 f"
      "unat head + unat f + 1 = unat sync" "unat f \<le> unat (future_count t)"
    | (slot) l where "per_trigger_composition t head sync cap = Slot l (ucast (future_count t))"
      "unat head + unat l + unat (future_count t) + 1 = unat sync" "0 < unat l" "unat sync \<le> unat head + unat (timing_k t)"
    | (far) snap where "unat head + unat (timing_k t) < unat sync"
      "snap = saturating_mul_word (div_ceil (saturating_sub_word (sync - head) cap) (ucast (timing_k t))) (ucast (timing_k t))"
      "per_trigger_composition t head sync cap =
        (if sync \<le> snap \<or> sync - snap \<le> head then Idle else Catchup (sync - snap - head - 1))"
proof -
  let ?F = "ucast (future_count t) :: u64" and ?k = "ucast (timing_k t) :: u64"
  define e where "e = saturating_sub_word sync (?F + 1)"
  have e: "unat e = unat sync - unat (future_count t) - 1"
    using unat_future_u64[OF t] by (simp add: e_def unat_saturating_sub)
  have k: "unat (saturating_sub_word ?k (?F + 1)) = unat (timing_k t) - unat (future_count t) - 1"
    using unat_future_u64[OF t] by (simp add: unat_saturating_sub)
  have comp: "per_trigger_composition t head sync cap = (if head < e
      then if e - head \<le> saturating_sub_word ?k (?F + 1) then Slot (e - head) ?F
        else let snap = saturating_mul_word (div_ceil (saturating_sub_word (sync - head) cap) ?k) ?k in
          if sync \<le> snap \<or> sync - snap \<le> head then Idle else Catchup (sync - snap - head - 1)
      else Slot 0 (saturating_sub_word ?F (head - e)))"
    using lt unfolding per_trigger_composition_def Let_def e_def by (simp only: not_le[symmetric] if_False)
  show ?thesis
  proof (cases "head < e")
    case False
    then show ?thesis using suffix[of "saturating_sub_word ?F (head - e)"] lt F e comp
      by (simp add: word_less_nat_alt unat_saturating_sub word_sub_nat word_le_nat_alt)
  next
    case True
    then have d: "unat (e - head) = unat e - unat head" by (simp add: word_sub_nat word_less_nat_alt word_le_nat_alt)
    show ?thesis
    proof (cases "e - head \<le> saturating_sub_word ?k (?F + 1)")
      case le: True
      then show ?thesis using slot[of "e - head"] True d e k comp F slot_shape(1)[OF t]
        by (simp add: word_less_nat_alt word_le_nat_alt)
    next
      case False
      then have "unat head + unat (timing_k t) < unat sync"
        using True d e k F slot_shape(1)[OF t] by (simp add: word_less_nat_alt word_le_nat_alt)
      then show ?thesis using far False True comp by (simp add: Let_def)
    qed
  qed
qed

lemma catchup_on_grid:
  assumes k: "0 < unat (timing_k t)" and lt: "head < sync"
    and snap: "snap = saturating_mul_word (div_ceil (saturating_sub_word (sync - head) cap) (ucast (timing_k t))) (ucast (timing_k t))"
  shows "if sync \<le> snap \<or> sync - snap \<le> head
    then \<forall>h. unat head < h \<and> h \<le> min (unat sync) (unat head + unat cap)
        \<longrightarrow> h mod unat (timing_k t) \<noteq> unat sync mod unat (timing_k t)
    else unat head + unat (sync - snap - head - 1) + 1 \<le> min (unat sync) (unat head + unat cap)
      \<and> (unat head + unat (sync - snap - head - 1) + 1) mod unat (timing_k t) = unat sync mod unat (timing_k t)
      \<and> (\<forall>h \<le> min (unat sync) (unat head + unat cap).
           h mod unat (timing_k t) = unat sync mod unat (timing_k t) \<longrightarrow> h \<le> unat head + unat (sync - snap - head - 1) + 1)"
proof -
  let ?k = "unat (timing_k t)" and ?s = "unat sync" and ?h = "unat head"
  define over where "over = saturating_sub_word (sync - head) cap"
  have over: "unat over = ?s - ?h - unat cap"
    using lt by (simp add: over_def unat_saturating_sub word_sub_nat word_less_nat_alt word_le_nat_alt)
  let ?W = "whole_slots ?k (unat over)"
  have least: "?W \<le> ?s - h" if "h \<le> min ?s (?h + unat cap)" "h mod ?k = ?s mod ?k" for h
    using that k over by (intro whole_slots_least) auto
  have s: "?s < 2 ^ 64" using unat_lt_len[of sync] by simp
  have sub: "unat (sync - snap) = ?s - unat snap" if "\<not> sync \<le> snap" using that by (simp add: word_sub_nat)
  have "unat snap = ?W \<or> 2 ^ 64 \<le> ?W \<and> snap = - 1"
    unfolding snap over_def[symmetric] by (rule snap_cases[of "ucast (timing_k t)" over]) (use k in simp_all)
  then show ?thesis
  proof
    assume W: "unat snap = ?W"
    show ?thesis
    proof (cases "sync \<le> snap \<or> sync - snap \<le> head")
      case True
      then have "?s \<le> ?W + ?h" using sub W by (cases "sync \<le> snap") (simp_all add: word_le_nat_alt)
      then have "\<not> (?h < h \<and> h \<le> min ?s (?h + unat cap) \<and> h mod ?k = ?s mod ?k)" for h using least[of h] by auto
      then show ?thesis using True by (simp only: if_True) blast
    next
      case False
      then have "unat (sync - snap - head) = ?s - ?W - ?h" "?h + ?W < ?s" using sub W by (auto simp: word_sub_nat word_le_nat_alt)
      then have live: "?h + unat (sync - snap - head - 1) + 1 = ?s - ?W" by (simp add: unat_minus_one_nat)
      have "?s - ?W \<le> ?h + unat cap" using whole_slots_bounds[OF k, of "unat over"] over by linarith
      moreover have "h \<le> ?s - ?W" if "h \<le> min ?s (?h + unat cap)" "h mod ?k = ?s mod ?k" for h
        using least[OF that] that(1) \<open>?h + ?W < ?s\<close> by (simp only: min_def split: if_splits)
      ultimately show ?thesis using False whole_slots_residue[of ?k "unat over" ?s] \<open>?h + ?W < ?s\<close>
        unfolding live by simp
    qed
  next
    assume "2 ^ 64 \<le> ?W \<and> snap = - 1"
    then have "\<not> (h \<le> min ?s (?h + unat cap) \<and> h mod ?k = ?s mod ?k)" for h using least[of h] s by auto
    moreover have "sync \<le> snap" using \<open>2 ^ 64 \<le> ?W \<and> snap = - 1\<close> by simp
    ultimately show ?thesis by (simp only: if_True simp_thms) blast
  qed
qed

text \<open>
  C30. Every trigger ends on the grid: from a head below a Sync height that leaves room for the reserved blocks, a steady
  trigger produces exactly the blocks up to that height, at most a slot of them. A catch-up ends at the greatest height within
  the budget a whole number of slots below the target. A trigger is idle only when the head has reached the target or
  no such height is within the budget.
\<close>
theorem trigger_ends_on_grid:
  assumes "timing_validate t = Inr ()" "unat (future_count t) < unat sync"
  shows "case per_trigger_composition t head sync cap of
      Slot live future \<Rightarrow> unat head + unat live + unat future + 1 = unat sync
        \<and> unat live \<le> unat (live_count t) \<and> unat future \<le> unat (future_count t)
    | Catchup live \<Rightarrow> unat head + unat (timing_k t) < unat sync
        \<and> unat head + unat live + 1 \<le> min (unat sync) (unat head + unat cap)
        \<and> (unat head + unat live + 1) mod unat (timing_k t) = unat sync mod unat (timing_k t)
        \<and> (\<forall>h \<le> min (unat sync) (unat head + unat cap).
             h mod unat (timing_k t) = unat sync mod unat (timing_k t) \<longrightarrow> h \<le> unat head + unat live + 1)
    | Idle \<Rightarrow> sync \<le> head \<or> (\<forall>h. unat head < h \<and> h \<le> min (unat sync) (unat head + unat cap)
        \<longrightarrow> h mod unat (timing_k t) \<noteq> unat sync mod unat (timing_k t))"
proof -
  have t: "well_timed t" using assms(1) by (simp add: validate_well_timed)
  have k: "0 < unat (timing_k t)" using slot_shape(1)[OF t] by simp
  show ?thesis
  proof (cases "head < sync")
    case False
    then show ?thesis by (simp add: per_trigger_composition_def not_less)
  next
    case True
    show ?thesis using t assms(2) True
    proof (cases rule: trigger_cases[where cap = cap])
      case (far snap)
      note grid = catchup_on_grid[OF k True far(2)]
      show ?thesis
      proof (cases "sync \<le> snap \<or> sync - snap \<le> head")
        case True
        then show ?thesis using grid unfolding far(3) by (simp only: if_True slot_composition.case) blast
      next
        case False
        then show ?thesis using grid far(1) unfolding far(3) by (simp only: if_False slot_composition.case) blast
      qed
    qed (use unat_live_count[OF t] in simp_all)
  qed
qed

theorem trigger_ends_on_grid_witness:
  "case per_trigger_composition
      \<lparr>l1_block_time_ms = 4000, l2_block_time_ms = 2000, proof_time_ms = 1500, submission_slack_ms = 100\<rparr> 3 20 6 of
      Slot live future \<Rightarrow> unat live + unat future = 16
    | Catchup live \<Rightarrow> (4 + unat live) mod 2 = 0 \<and> unat live < 6
    | Idle \<Rightarrow> False"
proof -
  let ?t = "\<lparr>l1_block_time_ms = 4000, l2_block_time_ms = 2000, proof_time_ms = 1500, submission_slack_ms = 100\<rparr>"
  have t: "well_timed ?t" by (simp add: well_timed_def)
  have f: "unat (future_count ?t) = 0" and k: "unat (timing_k ?t) = 2"
    by (simp_all add: unat_future_count[OF t] unat_timing_k)
  have "timing_validate ?t = Inr ()" "unat (future_count ?t) < unat (20 :: u64)" using t f by (simp_all add: validate_well_timed)
  from trigger_ends_on_grid[OF this, of 3 6] show ?thesis
    by (auto simp: f k split: slot_composition.splits dest: spec[of _ 4])
qed

end
