(* ===== verification/Prover_Feedback.thy ===== *)
theory Prover_Feedback
  imports Settlement_Job Held_Pool Slot_Timing
begin

text \<open>
  What the composer does with a prover's answer: the client's classification of a gRPC status
  (\<^verbatim>\<open>crates/eez-prover-client/src/lib.rs\<close>), the check of an eviction hint against the request, its resolution to a held
  transaction, the eviction of that transaction's nonce suffix and the bounded retry loop
  (\<^verbatim>\<open>crates/eez-composer/src/prover_retry.rs\<close>). The protobuf coder of the status details is the record \<open>prove_proto\<close>.
  Instants are milliseconds.
\<close>

section \<open>The client's classification\<close>

datatype retryable_prover_error = RetryUnavailable | RetryDeadlineExceeded | RetryAborted

datatype actionable_prover_failure = OutboundHint nat b256 | InboundHint nat b256

record rpc_status =
  rs_code :: grpc_code
  rs_message :: string
  rs_details :: bytes

datatype prover_message = RpcMessage u64 u64 rpc_status | CutoffReached | AttemptTimedOut nat | AttestationMessage string

datatype prover_error =
    Backend prover_message
  | ActionableRejection actionable_prover_failure prover_message
  | Retryable retryable_prover_error prover_message

fun retryable_kind :: "prover_error \<Rightarrow> retryable_prover_error option" where
  "retryable_kind (Retryable kind _) = Some kind"
| "retryable_kind _ = None"

fun error_actionable_failure :: "prover_error \<Rightarrow> actionable_prover_failure option" where
  "error_actionable_failure (ActionableRejection failure _) = Some failure"
| "error_actionable_failure _ = None"

record prove_proto =
  encode_prove_failure :: "prove_failure \<Rightarrow> bytes"
  decode_prove_failure :: "bytes \<Rightarrow> string + prove_failure option"

definition exact_hash :: "bytes \<Rightarrow> b256 option" where
  "exact_hash bs = (if length bs = 32 then Some (of_be_bytes bs) else None)"

definition decode_actionable_failure :: "prove_proto \<Rightarrow> bytes \<Rightarrow> actionable_prover_failure option" where
  "decode_actionable_failure P details =
     (if details = [] then None
      else case decode_prove_failure P details of
        Inr (Some (OutboundFailure i h)) \<Rightarrow> map_option (OutboundHint (unat i)) (exact_hash h)
      | Inr (Some (InboundFailure i h)) \<Rightarrow> map_option (InboundHint (unat i)) (exact_hash h)
      | _ \<Rightarrow> None)"

definition map_rpc_status :: "prove_proto \<Rightarrow> u64 \<Rightarrow> u64 \<Rightarrow> rpc_status \<Rightarrow> prover_error" where
  "map_rpc_status P from_block to_block st =
     (let message = RpcMessage from_block to_block st in
      case rs_code st of
        CodeUnavailable \<Rightarrow> Retryable RetryUnavailable message
      | CodeDeadlineExceeded \<Rightarrow> Retryable RetryDeadlineExceeded message
      | CodeAborted \<Rightarrow> Retryable RetryAborted message
      | CodeFailedPrecondition \<Rightarrow>
          (case decode_actionable_failure P (rs_details st) of
             Some failure \<Rightarrow> ActionableRejection failure message
           | None \<Rightarrow> Backend message)
      | _ \<Rightarrow> Backend message)"

text \<open>The status as the signer's service sends it: the eviction hint, if any, is the encoded details field.\<close>

definition sent_status :: "prove_proto \<Rightarrow> status \<Rightarrow> rpc_status" where
  "sent_status P st = \<lparr>rs_code = status_code st, rs_message = status_message st,
     rs_details = (case status_details st of Some f \<Rightarrow> encode_prove_failure P f | None \<Rightarrow> [])\<rparr>"

section \<open>The composer's check and resolution\<close>

datatype hint_error =
    NoTerminalBlock
  | TransactionOutOfRange nat
  | TransactionHashMismatch b256 nat b256
  | EntryOutOfRange nat
  | EntryHashMismatch b256 nat b256

fun validate_actionable_prover_failure ::
  "alloy \<Rightarrow> actionable_prover_failure \<Rightarrow> evm_batch \<Rightarrow> eth_block option \<Rightarrow> hint_error + unit" where
  "validate_actionable_prover_failure A (OutboundHint transaction_index transaction_hash) batch sync_block =
     (case sync_block of
        None \<Rightarrow> Inl NoTerminalBlock
      | Some block \<Rightarrow>
        (case get (blk_transactions block) transaction_index of
           None \<Rightarrow> Inl (TransactionOutOfRange transaction_index)
         | Some transaction \<Rightarrow>
             let actual = recalculate_hash A transaction in
             if actual \<noteq> transaction_hash then Inl (TransactionHashMismatch transaction_hash transaction_index actual)
             else Inr ()))"
| "validate_actionable_prover_failure A (InboundHint entry_index hint_hash) batch sync_block =
     (case get (entries batch) entry_index of
        None \<Rightarrow> Inl (EntryOutOfRange entry_index)
      | Some entry \<Rightarrow>
          let actual = keccak256 A (encode_entry A entry) in
          if actual \<noteq> hint_hash then Inl (EntryHashMismatch hint_hash entry_index actual) else Inr ())"

text \<open>An inbound composition is the batch of its source chain and the hash of the held transaction it came from.\<close>

fun inbound_owner :: "nat \<Rightarrow> (evm_batch \<times> b256) list \<Rightarrow> b256 option" where
  "inbound_owner inbound_index [] = None"
| "inbound_owner inbound_index ((batch, held_hash) # others) =
     (let entry_count = length (entries batch) in
      if inbound_index < entry_count then Some held_hash else inbound_owner (inbound_index - entry_count) others)"

fun actionable_held_tx ::
  "actionable_prover_failure \<Rightarrow> held_tx list \<Rightarrow> nat \<Rightarrow> (evm_batch \<times> b256) list \<Rightarrow> held_tx option" where
  "actionable_held_tx (OutboundHint _ transaction_hash) survivors outbound_entry_count inbound_compositions =
     List.find (\<lambda>tx. ht_direction tx = Outbound \<and> ht_hash tx = transaction_hash) survivors"
| "actionable_held_tx (InboundHint entry_index _) survivors outbound_entry_count inbound_compositions =
     (if entry_index < 1 + outbound_entry_count then None
      else case inbound_owner (entry_index - (1 + outbound_entry_count)) inbound_compositions of
        None \<Rightarrow> None
      | Some held_hash \<Rightarrow> List.find (\<lambda>tx. ht_direction tx = Inbound \<and> ht_hash tx = held_hash) survivors)"

definition partition_retryable :: "held_tx list \<Rightarrow> held_tx \<Rightarrow> held_tx list \<times> held_tx list" where
  "partition_retryable survivors poison = partition (\<lambda>tx.
     ht_sender tx \<noteq> ht_sender poison \<or> ht_direction tx \<noteq> ht_direction poison \<or> ht_nonce tx < ht_nonce poison) survivors"

section \<open>Retries\<close>

datatype bundle_target = NextBlock | ExactBlock u64 | Exact u64 u64

definition INITIAL_PROVER_RETRY_BACKOFF_MS :: u64 where
  "INITIAL_PROVER_RETRY_BACKOFF_MS = 100"

definition MAX_PROVER_RETRY_BACKOFF_MS :: u64 where
  "MAX_PROVER_RETRY_BACKOFF_MS = 1000"

definition proof_start_cutoff_ms :: "rollup_timing \<Rightarrow> bundle_target \<Rightarrow> u64 option" where
  "proof_start_cutoff_ms timing target = (case target of
       Exact _ timestamp \<Rightarrow>
         Some (saturating_sub_word
           (saturating_sub_word (saturating_mul_word timestamp 1000) (ucast (submission_slack_ms timing)))
           (ucast (proof_time_ms timing)))
     | _ \<Rightarrow> None)"

definition prover_retry_backoff_with_seed :: "u32 \<Rightarrow> u64 \<Rightarrow> u64" where
  "prover_retry_backoff_with_seed failed_attempt jitter_seed =
     (let shift = min (saturating_sub_word failed_attempt 1) 31;
          base_ms = min (push_bit (unat shift) INITIAL_PROVER_RETRY_BACKOFF_MS) MAX_PROVER_RETRY_BACKOFF_MS;
          jitter = base_ms div 5;
          offset = jitter_seed mod (jitter * 2 + 1)
      in base_ms - jitter + offset)"

definition retry_budget :: "rollup_timing \<Rightarrow> bundle_target \<Rightarrow> u64 \<Rightarrow> prover_error + u64" where
  "retry_budget timing target now_ms = (case proof_start_cutoff_ms timing target of
       Some cutoff_ms \<Rightarrow>
         if cutoff_ms < now_ms then Inl (Retryable RetryDeadlineExceeded CutoffReached) else Inr (cutoff_ms - now_ms)
     | None \<Rightarrow> Inr (ucast (proof_time_ms timing)))"

text \<open>
  One round of the loop as the environment answers it: the instant it starts, the prover's answer if it comes within the
  timeout, the instant after it, the clock's jitter seed and the instant the task wakes from its sleep.
\<close>

record prove_round =
  pr_start :: nat
  pr_answer :: "(prover_error + bytes) option"
  pr_after :: nat
  pr_seed :: u64
  pr_woken :: nat

definition attempt_timeout :: "rollup_timing \<Rightarrow> bundle_target \<Rightarrow> nat \<Rightarrow> nat \<Rightarrow> nat" where
  "attempt_timeout timing target retry_deadline now = (case target of
       Exact _ _ \<Rightarrow> unat (proof_time_ms timing)
     | _ \<Rightarrow> retry_deadline - now)"

fun prove_loop ::
  "rollup_timing \<Rightarrow> bundle_target \<Rightarrow> nat \<Rightarrow> u32 \<Rightarrow> prove_round list \<Rightarrow> (prover_error + bytes) option" where
  "prove_loop timing target retry_deadline attempt [] = None"
| "prove_loop timing target retry_deadline attempt (r # rs) =
     (case pr_answer r of
        Some (Inr proof) \<Rightarrow> Some (Inr proof)
      | answer \<Rightarrow>
          let error = (case answer of
                Some (Inl e) \<Rightarrow> e
              | _ \<Rightarrow> Retryable RetryDeadlineExceeded (AttemptTimedOut (attempt_timeout timing target retry_deadline (pr_start r))))
          in case retryable_kind error of
            None \<Rightarrow> Some (Inl error)
          | Some _ \<Rightarrow>
              let wake_at = pr_after r + unat (prover_retry_backoff_with_seed attempt (pr_seed r)) in
              if retry_deadline \<le> wake_at then Some (Inl error)
              else if retry_deadline \<le> pr_woken r then Some (Inl error)
              else prove_loop timing target retry_deadline (attempt + 1) rs)"

definition prove_with_retry_at ::
  "rollup_timing \<Rightarrow> bundle_target \<Rightarrow> u64 \<Rightarrow> nat \<Rightarrow> prove_round list \<Rightarrow> (prover_error + bytes) option" where
  "prove_with_retry_at timing target now_ms started rounds = (case retry_budget timing target now_ms of
       Inl e \<Rightarrow> Some (Inl e)
     | Inr budget \<Rightarrow> prove_loop timing target (started + unat budget) 1 rounds)"

section \<open>Hints\<close>

definition proto_round_trip :: "prove_proto \<Rightarrow> bool" where
  "proto_round_trip P \<longleftrightarrow> (\<forall>f. decode_prove_failure P (encode_prove_failure P f) = Inr (Some f) \<and> encode_prove_failure P f \<noteq> [])"

lemma exact_hash_be_bytes [simp]: "exact_hash (be_bytes 32 h) = Some h"
  by (simp add: exact_hash_def of_be_bytes_be_bytes)

lemma get_nth: "i < length xs \<Longrightarrow> get xs i = Some (xs ! i)"
  by (simp add: get_def)

lemma named_hint_valid:
  assumes P: "proto_round_trip P" and names: "names_candidate A w calldata f"
    and batch: "decode_canonical_post_batch A calldata = Inr batch"
  obtains hint where "decode_actionable_failure P (encode_prove_failure P f) = Some hint"
    "validate_actionable_prover_failure A hint batch (Some (vb_decoded (settling_block w))) = Inr ()"
proof (cases f)
  case (OutboundFailure i h)
  then show ?thesis using that[of "OutboundHint (unat i) (of_be_bytes h)"] P names
    by (auto simp: proto_round_trip_def decode_actionable_failure_def Let_def get_nth)
next
  case (InboundFailure i h)
  then show ?thesis using that[of "InboundHint (unat i) (of_be_bytes h)"] P names batch
    by (auto simp: proto_round_trip_def decode_actionable_failure_def Let_def get_nth)
qed

lemma status_hint:
  assumes "run_settlement A cfg c1 c2 calldata w = Inl e" "status_details (settlement_status e) = Some f"
  shows "status_code (settlement_status e) = CodeFailedPrecondition \<and> names_candidate A w calldata f"
proof -
  have plain: "status_details (settlement_status e) = None" if "\<nexists>e' f. e = Actionable e' f"
    using that by (induction e rule: settlement_status.induct)
      (auto simp: status_new_def settlement_rejected_def backend_invalid_def split: effect_prefix_error.splits da_payload_error.splits)
  then obtain e' f' where e: "e = Actionable e' f'" using assms(2) by force
  then have "f' = f" using assms(2) by simp
  with assms(1) e show ?thesis
    by (auto simp: settlement_rejected_def status_new_def simp del: names_candidate.simps elim!: actionable_cases
        intro: inspection_hint_names effect_hint_names)
qed

section \<open>Attribution and eviction\<close>

definition entry_owners :: "(evm_batch \<times> b256) list \<Rightarrow> b256 list" where
  "entry_owners comps = concat (map (\<lambda>(b, h). replicate (length (entries b)) h) comps)"

lemma inbound_owner_exact: "inbound_owner i comps = get (entry_owners comps) i"
  by (induction i comps rule: inbound_owner.induct) (auto simp: entry_owners_def get_def Let_def nth_append)

lemma find_SomeD: "List.find Q xs = Some x \<Longrightarrow> x \<in> set xs \<and> Q x"
  by (auto simp: find_Some_iff)

lemma actionable_held_tx_member:
  "actionable_held_tx hint survivors m comps = Some tx \<Longrightarrow> tx \<in> set survivors"
  by (cases hint) (auto dest: find_SomeD split: if_splits option.splits)

lemma partition_retryable_filter:
  "partition_retryable survivors poison =
     (filter (\<lambda>tx. \<not> (chain_of tx = chain_of poison \<and> ht_nonce poison \<le> ht_nonce tx)) survivors,
      filter (\<lambda>tx. chain_of tx = chain_of poison \<and> ht_nonce poison \<le> ht_nonce tx) survivors)"
  by (auto simp: partition_retryable_def chain_of_def not_le comp_def intro!: filter_cong)

section \<open>Backoff\<close>

lemma unat_push_100: "n \<le> 31 \<Longrightarrow> unat (push_bit n (100 :: u64)) = 100 * 2 ^ n"
proof -
  assume n: "n \<le> 31"
  have "push_bit n (100 :: u64) = of_nat (100 * 2 ^ n)" by (simp add: push_bit_eq_mult)
  moreover have "100 * 2 ^ n < (2 :: nat) ^ 64"
    using power_increasing[OF n, of "2 :: nat"] by (simp add: le_less_trans)
  ultimately show ?thesis using unat_of_nat_lt[where 'a = 64, of "100 * 2 ^ n"] by simp
qed

lemma unat_min: "unat (min a b) = min (unat a) (unat b)" for a b :: "'a::len word"
  by (simp add: min_def word_le_nat_alt)

lemma backoff_nat:
  fixes failed_attempt :: u32
  defines "base \<equiv> min (100 * 2 ^ min (unat failed_attempt - 1) 31) 1000 :: nat"
  shows "unat (prover_retry_backoff_with_seed failed_attempt seed) = base - base div 5 + unat seed mod (base div 5 * 2 + 1)"
proof -
  let ?b = "min (push_bit (unat (min (saturating_sub_word failed_attempt 1) 31)) INITIAL_PROVER_RETRY_BACKOFF_MS) MAX_PROVER_RETRY_BACKOFF_MS"
  have b: "unat ?b = base"
    by (simp add: INITIAL_PROVER_RETRY_BACKOFF_MS_def MAX_PROVER_RETRY_BACKOFF_MS_def unat_min unat_push_100 unat_saturating_sub base_def)
  have base: "base \<le> 1000" by (simp add: base_def)
  have j: "unat (?b div 5) = base div 5" using b by (simp add: unat_div_distrib)
  have "unat (?b div 5 * 2) = base div 5 * 2"
    using base j unat_mult_lem[of "?b div 5" 2] by (simp add: le_less_trans[OF div_le_dividend])
  then have m: "unat (?b div 5 * 2 + 1) = base div 5 * 2 + 1"
    using base by (simp add: unat_add_no_overflow)
  have d: "unat (?b - ?b div 5) = base - base div 5" using b j by (simp add: unat_sub word_le_nat_alt)
  have "unat seed mod (base div 5 * 2 + 1) < base div 5 * 2 + 1" by simp
  then have "unat (?b - ?b div 5) + unat (seed mod (?b div 5 * 2 + 1)) < 2000"
    unfolding d unat_mod_distrib m using base by linarith
  then show ?thesis unfolding prover_retry_backoff_with_seed_def Let_def
    by (simp only: unat_add_no_overflow d unat_mod_distrib m len_num1 len_bit0) (simp add: unat_add_no_overflow d unat_mod_distrib m)
qed

lemma backoff_bounds:
  "80 \<le> unat (prover_retry_backoff_with_seed a seed)" "unat (prover_retry_backoff_with_seed a seed) \<le> 1200"
proof -
  define base :: nat where "base = min (100 * 2 ^ min (unat a - 1) 31) 1000"
  have "(1 :: nat) \<le> 2 ^ min (unat a - 1) 31" by simp
  then have "100 \<le> base" "base \<le> 1000" unfolding base_def by linarith+
  moreover have "unat seed mod (base div 5 * 2 + 1) < base div 5 * 2 + 1" by simp
  moreover have "unat (prover_retry_backoff_with_seed a seed) = base - base div 5 + unat seed mod (base div 5 * 2 + 1)"
    unfolding base_def by (rule backoff_nat)
  ultimately show "80 \<le> unat (prover_retry_backoff_with_seed a seed)" "unat (prover_retry_backoff_with_seed a seed) \<le> 1200"
    by linarith+
qed

text \<open>A clock that does not run backwards, and a sleep that lasts at least as long as the backoff.\<close>

fun steady_clock :: "nat \<Rightarrow> u32 \<Rightarrow> prove_round list \<Rightarrow> bool" where
  "steady_clock now attempt [] \<longleftrightarrow> True"
| "steady_clock now attempt (r # rs) \<longleftrightarrow> now \<le> pr_start r \<and> pr_start r \<le> pr_after r
     \<and> pr_after r + unat (prover_retry_backoff_with_seed attempt (pr_seed r)) \<le> pr_woken r
     \<and> steady_clock (pr_woken r) (attempt + 1) rs"

lemma prove_loop_ends:
  assumes "steady_clock now attempt rs" "rs \<noteq> []" "deadline \<le> now + 80 * length rs"
  shows "\<exists>r. prove_loop timing target deadline attempt rs = Some r"
  using assms
proof (induction now attempt rs rule: steady_clock.induct)
  case (2 now attempt r rs)
  note b = backoff_bounds(1)[of attempt "pr_seed r"]
  show ?case
  proof (cases "pr_woken r < deadline")
    case True
    moreover have "deadline \<le> pr_woken r + 80 * length rs" using 2(2,4) b by simp
    ultimately have "rs \<noteq> []" by auto
    then have "\<exists>x. prove_loop timing target deadline (attempt + 1) rs = Some x"
      using 2(1,2) \<open>deadline \<le> pr_woken r + 80 * length rs\<close> by simp
    then show ?thesis by (auto simp: Let_def split: option.splits sum.splits)
  next
    case False
    then show ?thesis by (auto simp: Let_def split: option.splits sum.splits)
  qed
qed simp

lemma prove_loop_proof:
  "prove_loop timing target deadline attempt rs = Some (Inr proof) \<Longrightarrow> \<exists>r \<in> set rs. pr_answer r = Some (Inr proof)"
  by (induction timing target deadline attempt rs rule: prove_loop.induct)
    (auto simp: Let_def split: option.splits sum.splits if_splits)

section \<open>Properties\<close>

definition example_proto :: prove_proto where
  "example_proto = \<lparr>
     encode_prove_failure = (\<lambda>f. case f of OutboundFailure i h \<Rightarrow> 1 # be_bytes 4 i @ h | InboundFailure i h \<Rightarrow> 2 # be_bytes 4 i @ h),
     decode_prove_failure = (\<lambda>bs. case bs of
         [] \<Rightarrow> Inr None
       | t # r \<Rightarrow> if t = 1 then Inr (Some (OutboundFailure (of_be_bytes (take 4 r)) (drop 4 r)))
           else if t = 2 then Inr (Some (InboundFailure (of_be_bytes (take 4 r)) (drop 4 r))) else Inl ''unknown field'')\<rparr>"

lemma example_proto_round_trip: "proto_round_trip example_proto"
  by (simp add: proto_round_trip_def example_proto_def of_be_bytes_be_bytes split: prove_failure.split)

text \<open>
  C27. An honest signer's eviction hint survives the way back: when a settlement job ends in a status with details, the
  client classifies that status as an actionable rejection, and the composer's check of the hint against the same batch and the
  same Sync block accepts it.
\<close>
theorem signer_hint_accepted:
  assumes "run_settlement A cfg c1 c2 calldata w = Inl e" "status_details (settlement_status e) = Some f"
    and "decode_canonical_post_batch A calldata = Inr batch" and "proto_round_trip P"
  shows "\<exists>hint. map_rpc_status P from_block to_block (sent_status P (settlement_status e))
        = ActionableRejection hint (RpcMessage from_block to_block (sent_status P (settlement_status e)))
    \<and> validate_actionable_prover_failure A hint batch (Some (vb_decoded (settling_block w))) = Inr ()"
proof -
  have code: "status_code (settlement_status e) = CodeFailedPrecondition" and names: "names_candidate A w calldata f"
    using status_hint[OF assms(1,2)] by auto
  obtain hint where "decode_actionable_failure P (encode_prove_failure P f) = Some hint"
    "validate_actionable_prover_failure A hint batch (Some (vb_decoded (settling_block w))) = Inr ()"
    using named_hint_valid[OF assms(4) names assms(3)] .
  then show ?thesis using assms(2) code by (intro exI[of _ hint]) (simp add: map_rpc_status_def sent_status_def)
qed

theorem signer_hint_accepted_witness:
  "\<exists>hint. validate_actionable_prover_failure settle_alloy hint settle_batch (Some (vb_decoded (settling_block (settle_window False)))) = Inr ()"
proof -
  have "decode_canonical_post_batch settle_alloy [9, 9, 9, 9] = Inr settle_batch"
    by (simp add: decode_canonical_Inr decode_postbatch_def)
  moreover have "status_details (settlement_status (Actionable e f)) = Some f" for e f by simp
  ultimately show ?thesis using signer_hint_accepted[OF settle_reverts _ _ example_proto_round_trip] by blast
qed



text \<open>
  C29. Proving with retries ends: with a clock that does not run backwards and sleeps that last at least the backoff, the loop
  returns within as many rounds as its budget has spans of eighty milliseconds. A proof it returns is one the prover gave in some
  round. Each backoff lasts between 80 and 1,200 milliseconds.
\<close>
theorem prove_with_retry_ends:
  assumes "steady_clock started 1 rounds" "rounds \<noteq> []"
    and "\<And>budget. retry_budget timing target now_ms = Inr budget \<Longrightarrow> unat budget \<le> 80 * length rounds"
  shows "\<exists>r. prove_with_retry_at timing target now_ms started rounds = Some r
    \<and> (\<forall>proof. r = Inr proof \<longrightarrow> (\<exists>x \<in> set rounds. pr_answer x = Some (Inr proof)))
    \<and> (\<forall>a seed. 80 \<le> unat (prover_retry_backoff_with_seed a seed) \<and> unat (prover_retry_backoff_with_seed a seed) \<le> 1200)"
proof (cases "retry_budget timing target now_ms")
  case (Inr budget)
  then obtain r where "prove_loop timing target (started + unat budget) 1 rounds = Some r"
    using prove_loop_ends[OF assms(1,2), of "started + unat budget" timing target] assms(3)[OF Inr] by auto
  then show ?thesis using Inr prove_loop_proof backoff_bounds by (fastforce simp: prove_with_retry_at_def)
qed (simp add: prove_with_retry_at_def backoff_bounds)

theorem prove_with_retry_ends_witness:
  "\<exists>r. prove_with_retry_at \<lparr>l1_block_time_ms = 4000, l2_block_time_ms = 2000, proof_time_ms = 1500, submission_slack_ms = 100\<rparr>
     (Exact 7 12) 10400 0 [\<lparr>pr_start = 0, pr_answer = None, pr_after = 30, pr_seed = 5, pr_woken = 1300\<rparr>] = Some r"
proof -
  let ?t = "\<lparr>l1_block_time_ms = 4000, l2_block_time_ms = 2000, proof_time_ms = 1500, submission_slack_ms = 100\<rparr>"
  have "30 + unat (prover_retry_backoff_with_seed 1 5) \<le> 1300" using backoff_bounds(2)[of 1 5] by linarith
  then have "steady_clock 0 1 [\<lparr>pr_start = 0, pr_answer = None, pr_after = 30, pr_seed = 5, pr_woken = 1300\<rparr>]" by simp
  moreover have "retry_budget ?t (Exact 7 12) 10400 = Inr 0"
    by (simp add: retry_budget_def proof_start_cutoff_ms_def saturating_mul_word_def saturating_sub_word_def word_le_nat_alt)
  ultimately show ?thesis
    using prove_with_retry_ends[of 0 "[\<lparr>pr_start = 0, pr_answer = None, pr_after = 30, pr_seed = 5, pr_woken = 1300\<rparr>]" ?t "Exact 7 12" 10400]
    by fastforce
qed

end
