(* ===== verification/Spec2Isabelle.thy ===== *)
theory Spec2Isabelle
  imports Container_Codec Settlement_Job Held_Pool Head_Follower Optimistic Prover_Feedback
begin

text \<open>
  \<^bold>\<open>A verification of Rollup0.\<close>

  Rollup0 is a based rollup whose blocks are settled on L1 in batches. The composer drains cross-chain
  transactions from the held pool, simulates them on both chains and builds a Sync block and a batch of execution
  entries; the batch carries the data of every settled block. The proof signer receives the blocks, their witnesses and the
  batch over a \<^verbatim>\<open>Prove\<close> stream, replays the blocks through a backend, checks the batch against what the
  replay observed and signs the hash of the public inputs. Nodes follow unsafe heads the sequencer signs and gossips.

  \<^bold>\<open>Theories, in import order.\<close> All paths are under \<^verbatim>\<open>src/crates\<close>.

  \<^item> \<open>Prelude\<close>: results, checked arithmetic, byte orders, list and word lemmas.
  \<^item> \<open>Byte_Cursor\<close>, \<open>Span_Codec\<close>, \<open>Container_Codec\<close>: \<^verbatim>\<open>eez-payload-codec\<close>. The cursor
    and its varints, the run-length coded block span, the message stream. Encoders and decoders are translated
    with every error; the lemmas show that they invert each other, that decoding accepts only canonical spans, and which
    targets a stream can name. The locales \<open>field_codec\<close> and \<open>canonical_codec\<close> hold the laws of one field.
  \<^item> \<open>Abi_Types\<close>, \<open>Rolling_Hash\<close>, \<open>Entries\<close>, \<open>Manifest\<close>: \<^verbatim>\<open>eez-protocol\<close> data, hash
    chains, entry builders and the projection to published actions. Under collision freedom on the hashed inputs, equal hashes
    have equal histories.
  \<^item> \<open>Outbound_Gate\<close>, \<open>Proof_Plan\<close>, \<open>System_Tx\<close>: the composer-side outbound check (a counting map that
    refines a multiset), the public inputs and the layout of Sync blocks.
  \<^item> \<open>Window_Admission\<close>, \<open>Validated_Block\<close>, \<open>Block_Inspection\<close>, \<open>State_Chain\<close>, \<open>Effect_Binding\<close>,
    \<open>Claim_Merge\<close>, \<open>Effect_Gates\<close>, \<open>Post_Batch\<close>, \<open>Da_Payload\<close>, \<open>Settlement_Job\<close>:
    \<^verbatim>\<open>eez-proof-signer\<close>, one theory per gate, and the job that composes them. The lemmas give each gate in closed
    form (it accepts exactly when); the job's theorems say what a signed hash implies: the entries' roots are the
    checkpoints of the replayed settling block, ether is conserved, and the published data rebuilds the executed blocks.
  \<^item> \<open>Held_Pool\<close>: \<^verbatim>\<open>eez-composer/src/held_pool.rs\<close> as operations on a state record, and a step relation for their
    interleavings with bundle outcomes and chain progress. Invariants by rule induction.
  \<^item> \<open>Signed_Heads\<close>: \<^verbatim>\<open>eez-seq-sig\<close> and the gossip validator of \<^verbatim>\<open>eez-p2p\<close>.

  \<^bold>\<open>Correspondence.\<close> Structs are records, enums datatypes, a Rust \<^verbatim>\<open>Result\<close> is the sum type with
  the error on the left, \<^verbatim>\<open>?\<close> is \<^const>\<open>and_then\<close>; integers are words of their width. Errors keep their
  constructors and arguments, not their texts.

  \<^bold>\<open>Parameters.\<close> Keccak, the ABI coder and transaction hashing (record \<open>alloy\<close>), block RLP and signer recovery
  (record \<open>reth\<close>), signatures, Snappy and head RLP (record \<open>head_lib\<close>) and the replay backend are arguments.
  Theorems that rely on them state the laws they use, and every such theorem has a witness on concrete functions.

  \<^bold>\<open>Bounds.\<close> No definition uses fuel: recursions are structural or have a measure. Cancellation polls, deadlines and clocks are
  arguments.

  \<^bold>\<open>Not modelled.\<close> Asynchronous wiring, RPC, database overlays and EVM execution are library calls; test
  harnesses, build scripts and contracts are outside.
\<close>

end
